(* ===== verification/Prelude.thy ===== *)
theory Prelude
  imports Main "HOL-Library.Word"
begin

text \<open>
  Shared vocabulary of the development: the result type of operations that can hit an
  \<open>assert\<close>, an out-of-range memory access or a C++ exception; \<open>size_t\<close> arithmetic with its
  wrap-around; raw memory as a list of bytes; and the byte order conversions of
  \<^verbatim>\<open>endian.h\<close>.

  Every operation whose body holds an \<open>assert\<close> takes the flag \<open>nd\<close> first: \<open>nd = True\<close> is the
  build with \<^verbatim>\<open>-D NDEBUG\<close>, the one the Makefile makes, in which \<open>assert\<close> does nothing;
  \<open>nd = False\<close> is a debug build, in which a failing \<open>assert\<close> aborts.
\<close>

section \<open>Collections of rewrite rules\<close>

named_theorems res_simps \<open>rules that run the result type\<close>
named_theorems size_simps \<open>size_t arithmetic where nothing wraps around\<close>

section \<open>Results and faults\<close>

datatype fault =
    AssertionFailed   \<comment> \<open>a failing \<open>assert\<close> of a debug build\<close>
  | OutOfBounds       \<comment> \<open>an access outside the memory an object owns\<close>
  | NullDereference   \<comment> \<open>a call through an empty smart pointer\<close>
  | UseAfterFree      \<comment> \<open>an access to an object that has been deleted\<close>
  | LengthError       \<comment> \<open>\<open>std::length_error\<close>: a vector asked for more than \<open>max_size()\<close>\<close>
  | ProcessAbort      \<comment> \<open>\<open>abort()\<close>, called by \<open>LOG_FATAL\<close> and \<open>LOG_SYSFATAL\<close>\<close>
  | BadAlloc          \<comment> \<open>\<open>std::bad_alloc\<close>: \<open>new\<close> finds no memory\<close>
  | BadFunctionCall   \<comment> \<open>\<open>std::bad_function_call\<close>: a callback that was never set\<close>
  | NotOwner          \<comment> \<open>\<open>pthread_cond_wait\<close> by a thread that does not own the mutex, undefined\<close>
  | SignedOverflow    \<comment> \<open>an \<open>int\<close> that passes its bounds, undefined in C++\<close>

type_synonym 'a res = "fault + 'a"

definition rbind :: "'a res \<Rightarrow> ('a \<Rightarrow> 'b res) \<Rightarrow> 'b res" where
  "rbind m f = (case m of Inl e \<Rightarrow> Inl e | Inr x \<Rightarrow> f x)"

definition cassert :: "bool \<Rightarrow> bool \<Rightarrow> unit res" where
  "cassert nd P = (if nd \<or> P then Inr () else Inl AssertionFailed)"

lemma rbind_Inr [simp, res_simps]: "rbind (Inr x) f = f x"
  by (simp add: rbind_def)

lemma rbind_Inl [simp, res_simps]: "rbind (Inl e) f = Inl e"
  by (simp add: rbind_def)

lemma rbind_eq_Inr [simp]: "rbind m f = Inr y \<longleftrightarrow> (\<exists>x. m = Inr x \<and> f x = Inr y)"
  by (auto simp: rbind_def split: sum.splits)

lemma rbind_assoc: "rbind (rbind m f) g = rbind m (\<lambda>x. rbind (f x) g)"
  by (auto simp: rbind_def split: sum.splits)

lemma cassert_True [simp, res_simps]: "cassert nd True = Inr ()"
  by (simp add: cassert_def)

lemma cassert_nd [simp, res_simps]: "cassert True P = Inr ()"
  by (simp add: cassert_def)

lemma cassert_eq_Inr [simp]: "cassert nd P = Inr u \<longleftrightarrow> nd \<or> P"
  by (simp add: cassert_def)

text \<open>A call that returns a value with a property.\<close>

definition returns :: "'a res \<Rightarrow> ('a \<Rightarrow> bool) \<Rightarrow> bool" where
  "returns m P = (case m of Inl e \<Rightarrow> False | Inr x \<Rightarrow> P x)"

lemma returns_simps [simp]:
  "returns (Inr x) P = P x" "returns (Inl e) P = False"
  "returns (rbind m f) P = returns m (\<lambda>x. returns (f x) P)"
  "returns (if b then m else m') P = (if b then returns m P else returns m' P)"
  "returns (case z of (x, y) \<Rightarrow> g x y) P = (case z of (x, y) \<Rightarrow> returns (g x y) P)"
  by (auto simp: returns_def rbind_def split: sum.splits prod.splits)

lemma returns_cassert [simp]: "returns (cassert nd Q) P \<longleftrightarrow> (nd \<or> Q) \<and> P ()"
  by (simp add: cassert_def)

lemma returns_iff: "returns m P \<longleftrightarrow> (\<exists>x. m = Inr x \<and> P x)"
  by (cases m) (auto simp: returns_def)

lemma returns_mono: "returns m P \<Longrightarrow> (\<And>x. P x \<Longrightarrow> Q x) \<Longrightarrow> returns m Q"
  by (auto simp: returns_iff)

lemma cassert_debug_fail [simp, res_simps]: "\<not> P \<Longrightarrow> cassert False P = Inl AssertionFailed"
  by (simp add: cassert_def)

section \<open>The type size\_t\<close>

text \<open>A \<open>size_t\<close> is a \<open>nat\<close> below \<open>2 ^ 64\<close>; sums and differences wrap around.\<close>

abbreviation size_mod :: nat where
  "size_mod \<equiv> 18446744073709551616"

abbreviation ptrdiff_max :: nat where
  "ptrdiff_max \<equiv> 9223372036854775807"

definition szadd :: "nat \<Rightarrow> nat \<Rightarrow> nat" where
  "szadd a b = (a + b) mod size_mod"

definition szsub :: "nat \<Rightarrow> nat \<Rightarrow> nat" where
  "szsub a b = (if b \<le> a then a - b else size_mod + a - b)"

lemma size_mod_eq: "size_mod = 2 ^ 64"
  by simp

lemma szadd_exact [size_simps]: "a + b < size_mod \<Longrightarrow> szadd a b = a + b"
  by (simp add: szadd_def)

lemma szsub_exact [simp, size_simps]: "b \<le> a \<Longrightarrow> szsub a b = a - b"
  by (simp add: szsub_def)

lemma szsub_wraps: "a < b \<Longrightarrow> szsub a b = size_mod + a - b"
  by (simp add: szsub_def)

lemma szadd_bound: "szadd a b < size_mod"
  by (simp add: szadd_def)

lemma szsub_bound: "a < size_mod \<Longrightarrow> szsub a b < size_mod"
  by (auto simp: szsub_def)

section \<open>Raw memory\<close>

text \<open>A block of memory is the list of its bytes; addresses in it are offsets.\<close>

definition mem_read :: "char list \<Rightarrow> nat \<Rightarrow> nat \<Rightarrow> char list res" where
  "mem_read m off n =
     (if off + n \<le> length m then Inr (take n (drop off m)) else Inl OutOfBounds)"

definition mem_write :: "char list \<Rightarrow> nat \<Rightarrow> char list \<Rightarrow> char list res" where
  "mem_write m off d =
     (if off + length d \<le> length m
      then Inr (take off m @ d @ drop (off + length d) m) else Inl OutOfBounds)"

lemma mem_read_ok [simp, res_simps]:
  "off + n \<le> length m \<Longrightarrow> mem_read m off n = Inr (take n (drop off m))"
  by (simp add: mem_read_def)

lemma mem_write_ok [simp, res_simps]:
  "off + length d \<le> length m \<Longrightarrow>
   mem_write m off d = Inr (take off m @ d @ drop (off + length d) m)"
  by (simp add: mem_write_def)

lemma mem_write_overflow [simp, res_simps]:
  "length m < off + length d \<Longrightarrow> mem_write m off d = Inl OutOfBounds"
  by (simp add: mem_write_def)

lemma mem_write_length: "mem_write m off d = Inr m' \<Longrightarrow> length m' = length m"
  by (auto simp: mem_write_def split: if_splits)

lemma mem_write_then_read:
  "mem_write m off d = Inr m' \<Longrightarrow> mem_read m' off (length d) = Inr d"
  by (auto simp: mem_write_def split: if_splits)

section \<open>Byte order\<close>

text \<open>
  The object representation of an unsigned integer on the little-endian hosts the server
  is built for (x86-64), and \<^verbatim>\<open>htobe16/32/64\<close>, \<^verbatim>\<open>be16toh/32/64\<close>, which swap the bytes there.
\<close>

fun le_bytes :: "nat \<Rightarrow> nat \<Rightarrow> char list" where
  "le_bytes 0 x = []"
| "le_bytes (Suc n) x = char_of (x mod 256) # le_bytes n (x div 256)"

fun of_le :: "char list \<Rightarrow> nat" where
  "of_le [] = 0"
| "of_le (c # cs) = of_char c + 256 * of_le cs"

definition bswap :: "nat \<Rightarrow> nat \<Rightarrow> nat" where
  "bswap n x = of_le (rev (le_bytes n x))"

lemma length_le_bytes [simp]: "length (le_bytes n x) = n"
  by (induction n arbitrary: x) auto

lemma of_le_le_bytes: "of_le (le_bytes n x) = x mod 256 ^ n"
proof (induction n arbitrary: x)
  case 0
  then show ?case by simp
next
  case (Suc n)
  have "of_le (le_bytes (Suc n) x) = x mod 256 + 256 * (x div 256 mod 256 ^ n)"
    using Suc.IH by simp
  also have "\<dots> = x mod (256 * 256 ^ n)"
    by (simp add: mod_mult2_eq)
  finally show ?case by simp
qed

lemma le_bytes_of_le: "length cs = n \<Longrightarrow> le_bytes n (of_le cs) = cs"
  by (induction cs arbitrary: n) auto

lemma le_bytes_bswap: "le_bytes n (bswap n x) = rev (le_bytes n x)"
  by (simp add: bswap_def le_bytes_of_le)

lemma bswap_bswap: "bswap n (bswap n x) = x mod 256 ^ n"
  by (simp add: bswap_def le_bytes_of_le of_le_le_bytes)

lemma drop_le_bytes: "drop k (le_bytes n x) = le_bytes (n - k) (x div 256 ^ k)"
proof (induction n arbitrary: k x)
  case 0
  then show ?case by simp
next
  case (Suc n)
  then show ?case by (cases k) (simp_all add: div_mult2_eq)
qed

lemma take_be_bytes: "k \<le> n \<Longrightarrow> take k (rev (le_bytes n x)) = rev (le_bytes k (x div 256 ^ (n - k)))"
  by (simp add: take_rev drop_le_bytes)

lemma bswap_be_bytes: "bswap n (of_le (rev (le_bytes n x))) = x mod 256 ^ n"
  using bswap_bswap [of n x] by (simp add: bswap_def)

end
