(* ===== verification/Strings.thy ===== *)
theory Strings
  imports Prelude
begin

text \<open>
  The part of \<open>std::string\<close> and of the C string library the server uses: searching,
  substrings, C strings inside a larger block of characters, \<open>atoi\<close>, decimal printing.
  \<open>std::string::npos\<close> is \<open>None\<close>.
\<close>

abbreviation NUL :: char where "NUL \<equiv> CHR 0x00"
abbreviation CR :: char where "CR \<equiv> CHR 0x0D"
abbreviation LF :: char where "LF \<equiv> CHR 0x0A"

section \<open>Searching\<close>

fun is_prefix :: "string \<Rightarrow> string \<Rightarrow> bool" where
  "is_prefix [] s = True"
| "is_prefix (c # cs) [] = False"
| "is_prefix (c # cs) (d # ds) = (c = d \<and> is_prefix cs ds)"

fun find_sub :: "string \<Rightarrow> string \<Rightarrow> nat option" where
  "find_sub pat [] = (if pat = [] then Some 0 else None)"
| "find_sub pat (c # cs) =
     (if is_prefix pat (c # cs) then Some 0 else map_option Suc (find_sub pat cs))"

text \<open>\<open>s.find(pat, from)\<close>, \<open>s.find_last_of(c)\<close>, \<open>s.substr(from)\<close>, \<open>s.substr(from, n)\<close>.\<close>

definition str_find :: "string \<Rightarrow> string \<Rightarrow> nat \<Rightarrow> nat option" where
  "str_find s pat from =
     (if from \<le> length s then map_option (\<lambda>i. from + i) (find_sub pat (drop from s)) else None)"

definition find_last_of :: "string \<Rightarrow> char \<Rightarrow> nat option" where
  "find_last_of s c =
     (case find_sub [c] (rev s) of None \<Rightarrow> None | Some i \<Rightarrow> Some (length s - 1 - i))"

definition substr :: "string \<Rightarrow> nat \<Rightarrow> nat \<Rightarrow> string" where
  "substr s from n = take n (drop from s)"

definition substr_from :: "string \<Rightarrow> nat \<Rightarrow> string" where
  "substr_from s from = drop from s"

lemma is_prefix_append [simp]: "is_prefix p (p @ s)"
  by (induction p) auto

lemma is_prefix_iff: "is_prefix p s \<longleftrightarrow> (\<exists>t. s = p @ t)"
  by (induction p s rule: is_prefix.induct) auto

lemma find_sub_char: "c \<notin> set xs \<Longrightarrow> find_sub [c] (xs @ c # ys) = Some (length xs)"
  by (induction xs) auto

lemma find_sub_char_None: "c \<notin> set xs \<Longrightarrow> find_sub [c] xs = None"
  by (induction xs) auto

lemma find_sub_first:
  "(\<And>i. i < length xs \<Longrightarrow> \<not> is_prefix pat (drop i (xs @ pat @ ys))) \<Longrightarrow>
   find_sub pat (xs @ pat @ ys) = Some (length xs)"
proof (induction xs)
  case Nil
  show ?case
  proof (cases "pat @ ys")
    case Nil
    then show ?thesis by simp
  next
    case (Cons a l)
    then have "is_prefix pat (a # l)" using is_prefix_append [of pat ys] by simp
    then show ?thesis using Cons by simp
  qed
next
  case (Cons x xs)
  have "\<not> is_prefix pat (drop 0 ((x # xs) @ pat @ ys))" by (rule Cons.prems) simp
  moreover have "find_sub pat (xs @ pat @ ys) = Some (length xs)"
  proof (rule Cons.IH)
    fix i assume "i < length xs"
    then show "\<not> is_prefix pat (drop i (xs @ pat @ ys))" using Cons.prems [of "Suc i"] by simp
  qed
  ultimately show ?case by simp
qed

lemma find_sub_Some_bound: "find_sub pat s = Some i \<Longrightarrow> i + length pat \<le> length s"
proof (induction pat s arbitrary: i rule: find_sub.induct)
  case (1 pat)
  then show ?case by (auto split: if_splits)
next
  case (2 pat c cs)
  then show ?case by (auto simp: is_prefix_iff split: if_splits dest: arg_cong [where f = length])
qed

section \<open>C strings\<close>

text \<open>
  The C string that starts at an offset of a \<open>std::string\<close>, whose data is followed by a
  terminating zero byte; and the C string at the start of a raw block, which is only
  terminated if the block holds a zero byte.
\<close>

definition cstr_at :: "string \<Rightarrow> nat \<Rightarrow> string" where
  "cstr_at s from = takeWhile (\<lambda>c. c \<noteq> NUL) (drop from s)"

definition cstr_of_block :: "string \<Rightarrow> string res" where
  "cstr_of_block m = (if NUL \<in> set m then Inr (takeWhile (\<lambda>c. c \<noteq> NUL) m) else Inl OutOfBounds)"

lemma cstr_at_line:
  "NUL \<notin> set line \<Longrightarrow> cstr_at (pre @ line @ NUL # post) (length pre) = line"
  unfolding cstr_at_def by (simp, subst takeWhile_append2) auto

section \<open>Numbers\<close>

definition is_space :: "char \<Rightarrow> bool" where
  "is_space c \<longleftrightarrow> c \<in> {CHR '' '', CHR 0x09, CHR 0x0A, CHR 0x0B, CHR 0x0C, CHR 0x0D}"

definition digit_val :: "char \<Rightarrow> nat option" where
  "digit_val c = (let n = of_char c :: nat in if 48 \<le> n \<and> n \<le> 57 then Some (n - 48) else None)"

fun read_digits :: "nat \<Rightarrow> string \<Rightarrow> nat" where
  "read_digits acc [] = acc"
| "read_digits acc (c # cs) =
     (case digit_val c of None \<Rightarrow> acc | Some d \<Rightarrow> read_digits (10 * acc + d) cs)"

text \<open>
  \<open>atoi\<close> as the C library computes it: \<open>strtol\<close>, which saturates at the bounds of \<open>long\<close>,
  converted to a 32-bit \<open>int\<close>.
\<close>

definition atoi :: "string \<Rightarrow> int" where
  "atoi s =
     (let t = dropWhile is_space s;
          v = (case t of
                 [] \<Rightarrow> 0
               | c # cs \<Rightarrow> if c = CHR ''-'' then - int (read_digits 0 cs)
                          else if c = CHR ''+'' then int (read_digits 0 cs)
                          else int (read_digits 0 t));
          l = max (- 9223372036854775808) (min 9223372036854775807 v);
          w = l mod 4294967296
      in if w < 2147483648 then w else w - 4294967296)"

text \<open>The implicit conversion of an \<open>int\<close> to \<open>size_t\<close>.\<close>

definition int_to_size :: "int \<Rightarrow> nat" where
  "int_to_size i = nat (i mod 18446744073709551616)"

fun dec_nat :: "nat \<Rightarrow> string" where
  "dec_nat n = (if n < 10 then [char_of (48 + n)] else dec_nat (n div 10) @ [char_of (48 + n mod 10)])"

declare dec_nat.simps [simp del]

lemma dec_nat_nonempty [simp]: "dec_nat n \<noteq> []"
  by (subst dec_nat.simps) simp

lemma digit_val_digit: "d < 10 \<Longrightarrow> digit_val (char_of (48 + d)) = Some d"
  by (simp add: digit_val_def Let_def)

lemma read_digits_append:
  "list_all (\<lambda>c. digit_val c \<noteq> None) xs \<Longrightarrow> read_digits acc (xs @ ys) = read_digits (read_digits acc xs) ys"
  by (induction xs arbitrary: acc) auto

lemma dec_nat_digits: "list_all (\<lambda>c. digit_val c \<noteq> None) (dec_nat n)"
proof (induction n rule: dec_nat.induct)
  case (1 n)
  have small: "digit_val (char_of (48 + n mod 10)) \<noteq> None"
    using digit_val_digit [of "n mod 10"] by simp
  show ?case
  proof (cases "n < 10")
    case True
    then show ?thesis using digit_val_digit [of n] by (simp add: dec_nat.simps [of n])
  next
    case False
    with "1.IH" small show ?thesis by (simp add: dec_nat.simps [of n])
  qed
qed

lemma read_digits_dec_nat: "read_digits 0 (dec_nat n) = n"
proof (induction n rule: dec_nat.induct)
  case (1 n)
  show ?case
  proof (cases "n < 10")
    case True
    then show ?thesis by (simp add: dec_nat.simps [of n] digit_val_digit)
  next
    case False
    then have "read_digits 0 (dec_nat n) = 10 * (n div 10) + n mod 10"
      using "1.IH" dec_nat_digits [of "n div 10"] digit_val_digit [of "n mod 10"]
      by (simp add: dec_nat.simps [of n] read_digits_append)
    then show ?thesis by simp
  qed
qed

lemma length_dec_nat: "0 < k \<Longrightarrow> length (dec_nat n) \<le> k \<longleftrightarrow> n < 10 ^ k"
proof (induction n arbitrary: k rule: dec_nat.induct)
  case (1 n)
  show ?case
  proof (cases "n < 10")
    case True
    then have "n < 10 ^ k" using "1.prems" power_increasing [of 1 k "10 :: nat"] by simp
    then show ?thesis using True "1.prems" by (simp add: dec_nat.simps [of n])
  next
    case False
    then have len: "length (dec_nat n) = length (dec_nat (n div 10)) + 1"
      by (simp add: dec_nat.simps [of n])
    show ?thesis
    proof (cases "k = 1")
      case True
      then show ?thesis using False len by (cases "dec_nat (n div 10)") auto
    next
      case k: False
      then obtain j where j: "k = Suc j" "0 < j" using "1.prems" by (cases k) auto
      have "length (dec_nat (n div 10)) \<le> j \<longleftrightarrow> n div 10 < 10 ^ j" using "1.IH" [OF False j(2)] .
      also have "\<dots> \<longleftrightarrow> n < 10 ^ k" using j by (simp add: div_less_iff_less_mult mult.commute)
      finally show ?thesis using len j by simp
    qed
  qed
qed

definition dec_int :: "int \<Rightarrow> string" where
  "dec_int i = (if i < 0 then CHR ''-'' # dec_nat (nat (- i)) else dec_nat (nat i))"

end
