(* ===== verification/HttpMessage.thy ===== *)
theory HttpMessage
  imports Strings
begin

text \<open>
  \<^verbatim>\<open>http/HttpRequest.h\<close> and \<^verbatim>\<open>http/HttpResponse.h\<close>: the parsed request and the response, two
  classes with setters. Neither has a constructor, so a fresh object holds indeterminate
  method, version and status values; they are arguments of \<open>HttpRequest_new\<close> and
  \<open>HttpResponse_new\<close>. The header table, an \<open>unordered_map\<close>, is a map.
\<close>

datatype Method = Method_Invalid | GET | POST | HEAD

datatype Version = Unknow | Http10 | Http11

record HttpRequest =
  req_method :: Method
  req_version :: Version
  req_uri :: string
  req_body :: string
  req_headers :: "string \<rightharpoonup> string"

definition HttpRequest_new :: "Method \<Rightarrow> Version \<Rightarrow> HttpRequest" where
  "HttpRequest_new m v = \<lparr>req_method = m, req_version = v, req_uri = [], req_body = [],
     req_headers = Map.empty\<rparr>"

definition setMethod_req :: "Method \<Rightarrow> HttpRequest \<Rightarrow> HttpRequest" where
  "setMethod_req m r = r\<lparr>req_method := m\<rparr>"

definition setVersion_req :: "Version \<Rightarrow> HttpRequest \<Rightarrow> HttpRequest" where
  "setVersion_req v r = r\<lparr>req_version := v\<rparr>"

definition setUri :: "string \<Rightarrow> HttpRequest \<Rightarrow> HttpRequest" where
  "setUri u r = r\<lparr>req_uri := u\<rparr>"

definition setBody_req :: "string \<Rightarrow> HttpRequest \<Rightarrow> HttpRequest" where
  "setBody_req b r = r\<lparr>req_body := b\<rparr>"

definition addHeader :: "string \<Rightarrow> string \<Rightarrow> HttpRequest \<Rightarrow> HttpRequest" where
  "addHeader key val r = r\<lparr>req_headers := (req_headers r)(key \<mapsto> val)\<rparr>"

definition getURI :: "HttpRequest \<Rightarrow> string" where
  "getURI r = req_uri r"

definition getMethod :: "HttpRequest \<Rightarrow> Method" where
  "getMethod r = req_method r"

definition findHeader :: "string \<Rightarrow> HttpRequest \<Rightarrow> bool" where
  "findHeader key r \<longleftrightarrow> req_headers r key \<noteq> None"

text \<open>\<open>headers_[key]\<close> inserts an empty value for a missing key.\<close>

definition getValue :: "string \<Rightarrow> HttpRequest \<Rightarrow> string \<times> HttpRequest" where
  "getValue key r = (case req_headers r key of
       Some v \<Rightarrow> (v, r)
     | None \<Rightarrow> ([], r\<lparr>req_headers := (req_headers r)(key \<mapsto> [])\<rparr>))"

definition HttpRequest_clear :: "HttpRequest \<Rightarrow> HttpRequest" where
  "HttpRequest_clear r = r\<lparr>req_method := Method_Invalid, req_version := Unknow, req_uri := [],
     req_body := [], req_headers := Map.empty\<rparr>"

datatype StateCode = OK200 | BadRequest400 | NotFound404 | InternalServerError500

record HttpResponse =
  res_version :: Version
  res_stateCode :: StateCode
  res_body :: string

definition HttpResponse_new :: "Version \<Rightarrow> StateCode \<Rightarrow> HttpResponse" where
  "HttpResponse_new v c = \<lparr>res_version = v, res_stateCode = c, res_body = []\<rparr>"

definition setStateCode :: "StateCode \<Rightarrow> HttpResponse \<Rightarrow> HttpResponse" where
  "setStateCode c r = r\<lparr>res_stateCode := c\<rparr>"

definition setVersion_res :: "Version \<Rightarrow> HttpResponse \<Rightarrow> HttpResponse" where
  "setVersion_res v r = r\<lparr>res_version := v\<rparr>"

definition setBody_res :: "string \<Rightarrow> HttpResponse \<Rightarrow> HttpResponse" where
  "setBody_res file r = r\<lparr>res_body := file\<rparr>"

definition getVersion :: "HttpResponse \<Rightarrow> Version" where
  "getVersion r = res_version r"

definition HttpResponse_clear :: "HttpResponse \<Rightarrow> HttpResponse" where
  "HttpResponse_clear r = r\<lparr>res_version := Unknow, res_stateCode := BadRequest400, res_body := []\<rparr>"

lemmas HttpMessage_defs = setMethod_req_def setVersion_req_def setUri_def setBody_req_def
  addHeader_def getURI_def getMethod_def setVersion_res_def getVersion_def

lemma addHeader_find: "findHeader k (addHeader key v r) \<longleftrightarrow> k = key \<or> findHeader k r"
  by (auto simp: findHeader_def addHeader_def)

lemma addHeader_value: "fst (getValue key (addHeader key v r)) = v"
  by (simp add: getValue_def addHeader_def)

end
