(* ===== verification/HttpParser.thy ===== *)
theory HttpParser
  imports HttpMessage
begin

text \<open>
  The HTTP parser of \<^verbatim>\<open>http/HttpParser.h\<close> and \<^verbatim>\<open>http/HttpParser.cpp\<close>: the line automaton
  (\<open>parseLine\<close>), the main automaton (\<open>processRead\<close>), the handlers of the request line, the
  headers and the body, the construction of the response and the driver \<open>process\<close>.

  The file system (\<open>stat\<close>, \<open>fopen\<close>, \<open>fread\<close>) and the value of the one byte of
  \<open>new char[filelen_ + 1]\<close> that no statement writes are the environment, an argument.
  \<open>conn->send(output_)\<close> adds a message to \<open>sent\<close>. Logging is left out.
\<close>

section \<open>State\<close>

datatype CheckState = Check_RequestLine | Check_Header | Check_Content

datatype LineState = Line_OK | Line_Bad | Line_Open

datatype HttpState = Invalid | NotFound | NoRequest | GetRequest | GetResource | OnlyHead | InternalError

record HttpParser =
  connecting :: bool
  pos :: nat
  checkState :: CheckState
  hp_state :: HttpState
  fileContent :: "string option"
  filelen :: int
  contentLength :: nat
  input :: string
  hp_output :: string
  fileName :: string
  request :: HttpRequest
  response :: HttpResponse
  connAlive :: bool
  sent :: "string list"

text \<open>A file as \<open>stat\<close>, \<open>fopen\<close> and \<open>fread\<close> show it: the bytes read may be fewer than the
  size \<open>stat\<close> gave.\<close>

record file_stat =
  otherRead :: bool
  isDir :: bool
  openable :: bool
  st_size :: nat
  fdata :: string

record parser_env =
  files :: "string \<rightharpoonup> file_stat"
  heapByte :: char

definition CRLF :: string where "CRLF = [CR, LF]"
definition RESOURCE_ROOT :: string where "RESOURCE_ROOT = ''/home/yjh/www/html''"
definition OK_line :: string where "OK_line = ''200 OK''"
definition BADREQUEST :: string where "BADREQUEST = ''400 Bad Request''"
definition NOTFOUND :: string where "NOTFOUND = ''404 Not Found''"
definition INTERNALERROR :: string where "INTERNALERROR = ''500 Internal Server Error''"
definition NotFound404_Form :: string where
  "NotFound404_Form = ''The requested file was not found on this server.'' @ [LF]"
definition BadRequest400_Form :: string where
  "BadRequest400_Form =
     ''Your request has bad syntax or this inherently impossiable to satisfy.'' @ [LF]"
definition INTERNALERROR500_Form :: string where
  "INTERNALERROR500_Form = ''There was an unusual problem serving the requested file.'' @ [LF]"

definition mime :: "string \<rightharpoonup> string" where
  "mime = map_of [
     (''.html'', ''text/html'' @ CRLF),
     (''.avi'', ''video/x-msvideo'' @ CRLF),
     (''.bmp'', ''image/bmp'' @ CRLF),
     (''.c'', ''text/plain''),
     (''.doc'', ''application/msword'' @ CRLF),
     (''.gif'', ''image/gif'' @ CRLF),
     (''.gz'', ''application/x-gzip'' @ CRLF),
     (''.htm'', ''text/html'' @ CRLF),
     (''.ico'', ''image/x-icon'' @ CRLF),
     (''.jpg'', ''image/jpeg'' @ CRLF),
     (''.png'', ''image/png'' @ CRLF),
     (''.txt'', ''text/plain'' @ CRLF),
     (''.mp3'', ''audio/mp3'' @ CRLF),
     (''default'', ''text/html'' @ CRLF)]"

definition HttpParser_new :: "HttpRequest \<Rightarrow> HttpResponse \<Rightarrow> bool \<Rightarrow> HttpParser" where
  "HttpParser_new rq rs alive =
     \<lparr>connecting = False, pos = 0, checkState = Check_RequestLine, hp_state = NoRequest,
      fileContent = None, filelen = 0, contentLength = 0, input = [], hp_output = [],
      fileName = RESOURCE_ROOT, request = rq, response = rs, connAlive = alive, sent = []\<rparr>"

section \<open>Feeding input\<close>

text \<open>\<open>hasData\<close> answers true when the input is empty.\<close>

definition hasData :: "HttpParser \<Rightarrow> bool" where
  "hasData p = (if input p = [] \<and> pos p = 0 then True else False)"

definition newInput :: "HttpParser \<Rightarrow> string \<Rightarrow> HttpParser" where
  "newInput p s = p\<lparr>input := s, pos := 0\<rparr>"

definition appendInput :: "HttpParser \<Rightarrow> string \<Rightarrow> HttpParser" where
  "appendInput p s = p\<lparr>input := input p @ s\<rparr>"

definition parser_init :: "HttpParser \<Rightarrow> bool \<Rightarrow> HttpParser" where
  "parser_init p clear =
     (let p1 = p\<lparr>checkState := Check_RequestLine, hp_state := NoRequest, fileContent := None,
                 filelen := 0, contentLength := 0\<rparr>;
          p2 = (if clear then p1\<lparr>input := [], pos := 0\<rparr> else p1)
      in p2\<lparr>hp_output := [], fileName := RESOURCE_ROOT\<rparr>)"

section \<open>The line automaton\<close>

text \<open>
  \<open>parseLine\<close> scans from \<open>pos_\<close> for the end of a line, overwrites it with two zero bytes
  and moves \<open>pos_\<close> behind it. \<open>input_[pos_ - 1]\<close> at position 0 is outside the string.
\<close>

function parseLine_scan :: "string \<Rightarrow> nat \<Rightarrow> (LineState \<times> string \<times> nat) res" where
  "parseLine_scan s p =
     (if p < length s then
        if s ! p = CR then
          if p = szsub (length s) 1 then Inr (Line_Open, s, p)
          else if s ! (p + 1) = LF then Inr (Line_OK, s[p := NUL, p + 1 := NUL], p + 2)
          else Inr (Line_Bad, s, p)
        else if s ! p = LF then
          if p = 0 then Inl OutOfBounds
          else if s ! (p - 1) = CR then Inr (Line_OK, s[p - 1 := NUL, p := NUL], p + 1)
          else Inr (Line_Bad, s, p)
        else parseLine_scan s (p + 1)
      else Inr (Line_Open, s, p))"
  by pat_completeness auto
termination
  by (relation "measure (\<lambda>(s, p). length s - p)") auto

declare parseLine_scan.simps [simp del]

definition parseLine :: "HttpParser \<Rightarrow> (LineState \<times> HttpParser) res" where
  "parseLine p = rbind (parseLine_scan (input p) (pos p))
     (\<lambda>(ls, s, i). Inr (ls, p\<lparr>input := s, pos := i\<rparr>))"

section \<open>Request line, headers, body\<close>

definition setMethod :: "HttpParser \<Rightarrow> string \<Rightarrow> bool \<times> HttpParser" where
  "setMethod p m =
     (if m = ''GET'' then (True, p\<lparr>request := setMethod_req GET (request p)\<rparr>)
      else if m = ''POST'' then (True, p\<lparr>request := setMethod_req POST (request p)\<rparr>)
      else if m = ''HEAD'' then (True, p\<lparr>request := setMethod_req HEAD (request p)\<rparr>)
      else (False, p\<lparr>request := setMethod_req Method_Invalid (request p)\<rparr>))"

definition setURI :: "HttpParser \<Rightarrow> string \<Rightarrow> bool \<times> HttpParser" where
  "setURI p uri =
     (let begin = (if substr uri 0 7 = ''http://'' then 7 else 0)
      in case str_find uri ''/'' begin of
           None \<Rightarrow> (False, p)
         | Some i \<Rightarrow> (True, p\<lparr>request := setUri (substr_from uri i) (request p)\<rparr>))"

definition setVersion :: "HttpParser \<Rightarrow> string \<Rightarrow> bool \<times> HttpParser" where
  "setVersion p v =
     (let put = (\<lambda>w. p\<lparr>request := setVersion_req w (request p), response := setVersion_res w (response p)\<rparr>)
      in if v = ''HTTP/1.0'' then (True, put Http10)
         else if v = ''HTTP/1.1'' then (True, put Http11)
         else (False, put Unknow))"

definition parseRequestLine :: "HttpParser \<Rightarrow> nat \<Rightarrow> HttpState \<times> HttpParser" where
  "parseRequestLine p start =
     (let line = cstr_at (input p) start in
      case str_find line '' '' 0 of
        None \<Rightarrow> (Invalid, p)
      | Some i \<Rightarrow>
          (case setMethod p (substr line 0 i) of
             (False, p1) \<Rightarrow> (Invalid, p1)
           | (True, p1) \<Rightarrow>
               let begin = i + 1 in
               (case str_find line '' '' begin of
                  None \<Rightarrow> (Invalid, p1)
                | Some j \<Rightarrow>
                    if j = begin then (Invalid, p1)
                    else
                      let p2 = snd (setURI p1 (substr line begin (j - begin)));
                          begin = j + 1 in
                      if length line = begin then (Invalid, p2)
                      else (case setVersion p2 (substr_from line begin) of
                              (False, p3) \<Rightarrow> (Invalid, p3)
                            | (True, p3) \<Rightarrow> (NoRequest, p3\<lparr>checkState := Check_Header\<rparr>)))))"

definition parseHeaders :: "HttpParser \<Rightarrow> nat \<Rightarrow> HttpState \<times> HttpParser" where
  "parseHeaders p start =
     (if cstr_at (input p) start = [] then
        if contentLength p \<noteq> 0 then (NoRequest, p\<lparr>checkState := Check_Content\<rparr>)
        else (GetRequest, p)
      else
        let line = cstr_at (input p) start in
        case str_find line '': '' 0 of
          None \<Rightarrow> (Invalid, p)
        | Some i \<Rightarrow>
            let key = substr line 0 i; i2 = i + 2 in
            if length line \<le> i2 then (Invalid, p)
            else
              let val = substr_from line i2;
                  p1 = (if key = ''Content-Length''
                        then p\<lparr>contentLength := int_to_size (atoi val)\<rparr>
                        else if key = ''Connection'' \<and> (val = ''keep-alive'' \<or> val = ''Keep-Alive'')
                        then p\<lparr>connecting := True\<rparr>
                        else p)
              in (NoRequest, p1\<lparr>request := addHeader key val (request p1)\<rparr>))"

definition recvBody :: "HttpParser \<Rightarrow> string \<Rightarrow> HttpParser" where
  "recvBody p b = p\<lparr>request := setBody_req b (request p)\<rparr>"

definition parseContent :: "HttpParser \<Rightarrow> HttpState \<times> HttpParser" where
  "parseContent p =
     (if contentLength p \<le> szsub (length (input p)) (pos p)
      then let p1 = recvBody p (take (contentLength p) (drop (pos p) (input p)))
           in (GetRequest, p1\<lparr>pos := szadd (pos p1) (contentLength p1)\<rparr>)
      else (NoRequest, p))"

section \<open>Looking the resource up\<close>

text \<open>
  In \<open>getResource\<close> the name \<open>filelen_\<close> is a local variable that hides the data member: the
  member keeps its value.
\<close>

definition getResource :: "parser_env \<Rightarrow> HttpParser \<Rightarrow> HttpState \<times> HttpParser" where
  "getResource env p =
     (if getURI (request p) = ''/hello''
      then (GetResource, p\<lparr>fileContent := Some (''Hello World!'' @ [LF, NUL])\<rparr>)
      else
        let p1 = p\<lparr>fileName := fileName p @ getURI (request p)\<rparr> in
        case files env (cstr_at (fileName p1) 0) of
          None \<Rightarrow> (NotFound, p1)
        | Some f \<Rightarrow>
            if \<not> otherRead f then (NotFound, p1)
            else if isDir f then (NotFound, p1)
            else if \<not> openable f then (InternalError, p1)
            else
              let d = take (st_size f) (fdata f); n = length d in
              if n < st_size f \<or> n = 0 then (InternalError, p1\<lparr>fileContent := None\<rparr>)
              else (GetResource, p1\<lparr>fileContent := Some (d @ [heapByte env])\<rparr>))"

definition doRequest :: "parser_env \<Rightarrow> HttpParser \<Rightarrow> HttpState \<times> HttpParser" where
  "doRequest env p =
     (if getMethod (request p) = HEAD then (OnlyHead, p\<lparr>hp_state := OnlyHead\<rparr>)
      else case getResource env p of
          (ret, p1) \<Rightarrow>
            if ret = InternalError then (InternalError, p1\<lparr>hp_state := InternalError\<rparr>)
            else if ret = NotFound then (NotFound, p1\<lparr>hp_state := NotFound\<rparr>)
            else (GetResource, p1\<lparr>hp_state := GetResource\<rparr>))"

section \<open>The main automaton\<close>

text \<open>
  The condition of the loop in \<open>processRead\<close>, with its short-circuit: \<open>parseLine\<close> runs
  unless the body is being read and the last line was complete.
\<close>

definition loop_test :: "HttpParser \<Rightarrow> LineState \<Rightarrow> (bool \<times> LineState \<times> HttpParser) res" where
  "loop_test p ls =
     (if checkState p = Check_Content \<and> ls = Line_OK then Inr (True, ls, p)
      else rbind (parseLine p) (\<lambda>(ls', p'). Inr (ls' = Line_OK, ls', p')))"

datatype loop_exit = Return HttpState HttpParser | Continue HttpParser LineState

definition loop_body :: "parser_env \<Rightarrow> HttpParser \<Rightarrow> nat \<Rightarrow> LineState \<Rightarrow> loop_exit" where
  "loop_body env p begin ls =
     (case checkState p of
        Check_RequestLine \<Rightarrow>
          (case parseRequestLine p begin of
             (ret, p1) \<Rightarrow> if ret = Invalid then Return Invalid (p1\<lparr>hp_state := Invalid\<rparr>)
                          else Continue p1 ls)
      | Check_Header \<Rightarrow>
          (case parseHeaders p begin of
             (ret, p1) \<Rightarrow>
               if ret = Invalid then Return Invalid p1
               else if ret = GetRequest then (case doRequest env p1 of (r, p2) \<Rightarrow> Return r p2)
               else Continue p1 ls)
      | Check_Content \<Rightarrow>
          (case parseContent p of
             (ret, p1) \<Rightarrow>
               if ret = GetRequest then (case doRequest env p1 of (r, p2) \<Rightarrow> Return r p2)
               else Continue p1 Line_Open))"

lemma parseLine_scan_OK:
  "parseLine_scan s p = Inr (Line_OK, s', p') \<Longrightarrow> p < p' \<and> p' \<le> length s \<and> length s' = length s"
proof (induction s p rule: parseLine_scan.induct)
  case (1 s p)
  then show ?case
    by (subst (asm) (2) parseLine_scan.simps) (auto split: if_splits simp: szsub_def)
qed

lemma parseLine_OK:
  assumes "parseLine p = Inr (Line_OK, p')"
  shows "pos p < pos p' \<and> pos p' \<le> length (input p') \<and> length (input p') = length (input p)
    \<and> checkState p' = checkState p"
  using assms by (auto simp: parseLine_def dest!: parseLine_scan_OK)

lemma parseRequestLine_frame:
  "parseRequestLine p b = (r, p') \<Longrightarrow> input p' = input p \<and> pos p' = pos p"
  by (auto simp: parseRequestLine_def setMethod_def setURI_def setVersion_def Let_def
      split: option.splits if_splits)

lemma parseHeaders_frame:
  "parseHeaders p b = (r, p') \<Longrightarrow> input p' = input p \<and> pos p' = pos p"
  by (auto simp: parseHeaders_def Let_def split: option.splits if_splits)

lemma loop_body_Continue:
  assumes "loop_body env p b ls = Continue q ls'"
  shows "input q = input p \<and> pos q = pos p
    \<and> (ls' = ls \<and> checkState p \<noteq> Check_Content \<or> ls' = Line_Open \<and> checkState p = Check_Content)"
  using assms
  by (auto simp: loop_body_def parseContent_def Let_def split: CheckState.splits prod.splits if_splits
      dest: parseRequestLine_frame parseHeaders_frame)

function processRead_loop :: "parser_env \<Rightarrow> HttpParser \<Rightarrow> LineState \<Rightarrow> nat \<Rightarrow> (HttpState \<times> HttpParser) res" where
  "processRead_loop env p ls begin =
     (case loop_test p ls of
        Inl e \<Rightarrow> Inl e
      | Inr (False, ls1, p1) \<Rightarrow>
          if ls1 = Line_Bad then Inr (Invalid, p1\<lparr>hp_state := Invalid\<rparr>)
          else Inr (NoRequest, p1\<lparr>hp_state := NoRequest\<rparr>)
      | Inr (True, ls1, p1) \<Rightarrow>
          (case loop_body env p1 begin ls1 of
             Return r q \<Rightarrow> Inr (r, q)
           | Continue q ls2 \<Rightarrow> processRead_loop env q ls2 (pos q)))"
  by pat_completeness auto
termination
proof (relation "measures [\<lambda>(env, p, ls, b). length (input p) - pos p,
    \<lambda>(env, p, ls, b). if checkState p = Check_Content \<and> ls = Line_OK then 1 else 0]", goal_cases)
  case 1
  then show ?case by simp
next
  case (2 env p ls beg x y p1 u v q ls2)
  then have test: "loop_test p ls = Inr (True, u, v)"
    and body: "loop_body env v beg u = Continue q ls2" by auto
  show ?case
  proof (cases "checkState p = Check_Content \<and> ls = Line_OK")
    case True
    with test have "v = p" "u = ls" by (auto simp: loop_test_def)
    with body True loop_body_Continue [OF body] show ?thesis by auto
  next
    case False
    with test have "parseLine p = Inr (Line_OK, v)" by (auto simp: loop_test_def)
    from parseLine_OK [OF this] loop_body_Continue [OF body] show ?thesis by auto
  qed
qed

declare processRead_loop.simps [simp del]

definition processRead :: "parser_env \<Rightarrow> HttpParser \<Rightarrow> (HttpState \<times> HttpParser) res" where
  "processRead env p = processRead_loop env p Line_OK (pos p)"

section \<open>The response\<close>

definition out_append :: "HttpParser \<Rightarrow> string \<Rightarrow> HttpParser" where
  "out_append p s = p\<lparr>hp_output := hp_output p @ s\<rparr>"

definition appendResponseLine :: "HttpParser \<Rightarrow> HttpParser" where
  "appendResponseLine p =
     (let p1 = (if getVersion (response p) = Http10 then out_append p ''HTTP/1.0 ''
                else out_append p ''HTTP/1.1 '');
          p2 = (case hp_state p1 of
                  InternalError \<Rightarrow> out_append p1 INTERNALERROR
                | NotFound \<Rightarrow> out_append p1 NOTFOUND
                | OnlyHead \<Rightarrow> out_append p1 OK_line
                | GetResource \<Rightarrow> out_append p1 OK_line
                | _ \<Rightarrow> out_append p1 BADREQUEST)
      in out_append p2 CRLF)"

definition mime_or_default :: "string \<Rightarrow> string" where
  "mime_or_default type = (case mime type of Some t \<Rightarrow> t | None \<Rightarrow> the (mime ''default''))"

definition appendHeaders :: "HttpParser \<Rightarrow> HttpParser" where
  "appendHeaders p =
     (let p1 = (if filelen p \<noteq> 0
                then out_append (out_append (out_append p ''Content-Length: '') (dec_int (filelen p))) CRLF
                else p);
          p2 = out_append p1 ''Connection: '';
          p3 = (if connecting p2 then out_append p2 (''keep-alive'' @ CRLF)
                else out_append p2 (''close'' @ CRLF));
          p4 = out_append p3 ''Content-Type: '';
          p5 = (case find_last_of (getURI (request p4)) (CHR ''.'') of
                  Some i \<Rightarrow> out_append p4 (mime_or_default (substr_from (getURI (request p4)) i))
                | None \<Rightarrow> out_append p4 (the (mime ''default'')))
      in out_append p5 CRLF)"

text \<open>Appending \<open>fileContent_\<close>, a \<open>char*\<close>, appends the C string it points to.\<close>

definition appendContent :: "HttpParser \<Rightarrow> HttpParser res" where
  "appendContent p =
     (case hp_state p of
        InternalError \<Rightarrow> Inr (out_append p INTERNALERROR500_Form)
      | NotFound \<Rightarrow> Inr (out_append p NotFound404_Form)
      | GetResource \<Rightarrow>
          (case fileContent p of
             None \<Rightarrow> Inl NullDereference
           | Some m \<Rightarrow> rbind (cstr_of_block m) (\<lambda>s. Inr (out_append p s)))
      | _ \<Rightarrow> Inr (out_append p BadRequest400_Form))"

definition processWrite :: "HttpParser \<Rightarrow> HttpParser res" where
  "processWrite p =
     (let p1 = appendHeaders (appendResponseLine p) in
      if hp_state p1 \<noteq> OnlyHead \<or> hp_state p1 \<noteq> NoRequest then appendContent p1 else Inr p1)"

definition parser_send :: "HttpParser \<Rightarrow> HttpParser" where
  "parser_send p = (if connAlive p then p\<lparr>sent := sent p @ [hp_output p]\<rparr> else p)"

section \<open>The driver\<close>

text \<open>
  One round of the loop of \<open>process\<close>, and the loop. Nothing bounds the number of rounds, so
  the loop is a partial function: \<open>None\<close> means that it never returns.
\<close>

datatype round_exit = Leave bool HttpParser | Again HttpParser

definition process_round :: "parser_env \<Rightarrow> HttpParser \<Rightarrow> round_exit res" where
  "process_round env p =
     rbind (processRead env p) (\<lambda>(r, p1).
       if r = NoRequest then Inr (Leave (connecting p1) p1)
       else rbind (processWrite p1) (\<lambda>p2.
         let p3 = parser_send p2 in
         if \<not> connecting p3 then Inr (Leave False p3)
         else Inr (Again (parser_init p3 (length (input p3) = pos p3)))))"

partial_function (option) process :: "parser_env \<Rightarrow> HttpParser \<Rightarrow> (bool \<times> HttpParser) res option" where
  [code]: "process env p =
     (case process_round env p of
        Inl e \<Rightarrow> Some (Inl e)
      | Inr (Leave b q) \<Rightarrow> Some (Inr (b, q))
      | Inr (Again q) \<Rightarrow> process env q)"

text \<open>What \<open>HttpServer::onMessage\<close> does with a message before it calls \<open>process\<close>.\<close>

definition feed :: "HttpParser \<Rightarrow> string \<Rightarrow> HttpParser" where
  "feed p msg = (if hasData p then appendInput p msg else newInput p msg)"

end
