(* ===== verification/HttpRoundtrip.thy ===== *)
theory HttpRoundtrip
  imports HttpParser
begin

text \<open>
  The parser reads back what a client prints: for a request with a method, a path, a version,
  headers and a body, \<open>processRead\<close> consumes exactly the request and fills \<open>request_\<close> with
  its parts, whatever comes before it in the input and after it (the next request of the
  pipeline).
\<close>

section \<open>A complete line\<close>

definition clean :: "string \<Rightarrow> bool" where
  "clean s \<longleftrightarrow> CR \<notin> set s \<and> LF \<notin> set s \<and> NUL \<notin> set s"

lemma clean_append [simp]: "clean (s @ t) \<longleftrightarrow> clean s \<and> clean t"
  by (auto simp: clean_def)

lemma parseLine_scan_line:
  assumes "CR \<notin> set line" "LF \<notin> set line"
  shows "parseLine_scan (pre @ line @ CR # LF # rest) (length pre) =
         Inr (Line_OK, pre @ line @ NUL # NUL # rest, length pre + length line + 2)"
  using assms
proof (induction line arbitrary: pre)
  case Nil
  then show ?case
    by (subst parseLine_scan.simps) (simp add: nth_append list_update_append)
next
  case (Cons c line)
  let ?s = "pre @ (c # line) @ CR # LF # rest"
  have "parseLine_scan ?s (length pre) = parseLine_scan ?s (length pre + 1)"
    using Cons.prems by (subst parseLine_scan.simps) auto
  also have "\<dots> = parseLine_scan ((pre @ [c]) @ line @ CR # LF # rest) (length (pre @ [c]))"
    by simp
  also have "\<dots> = Inr (Line_OK, (pre @ [c]) @ line @ NUL # NUL # rest,
      length (pre @ [c]) + length line + 2)"
    using Cons.prems by (intro Cons.IH) auto
  finally show ?case by simp
qed

lemma loop_line:
  assumes "checkState p \<noteq> Check_Content" "input p = pre @ line @ CRLF @ rest" "pos p = length pre"
    and "clean line"
  shows "processRead_loop env p ls b =
    (case loop_body env (p\<lparr>input := pre @ line @ NUL # NUL # rest,
                           pos := length pre + length line + 2\<rparr>) b Line_OK of
       Return r q \<Rightarrow> Inr (r, q)
     | Continue q ls2 \<Rightarrow> processRead_loop env q ls2 (pos q))"
proof -
  have "parseLine p = Inr (Line_OK, p\<lparr>input := pre @ line @ NUL # NUL # rest,
                           pos := length pre + length line + 2\<rparr>)"
    using assms parseLine_scan_line [of line pre rest] by (simp add: parseLine_def clean_def CRLF_def)
  then show ?thesis
    using assms(1) by (subst processRead_loop.simps) (simp add: loop_test_def)
qed

section \<open>Parsing a printed request\<close>

fun method_name :: "Method \<Rightarrow> string" where
  "method_name GET = ''GET''"
| "method_name POST = ''POST''"
| "method_name HEAD = ''HEAD''"
| "method_name Method_Invalid = []"

fun version_name :: "Version \<Rightarrow> string" where
  "version_name Http10 = ''HTTP/1.0''"
| "version_name Http11 = ''HTTP/1.1''"
| "version_name Unknow = []"

definition print_header :: "string \<times> string \<Rightarrow> string" where
  "print_header h = fst h @ '': '' @ snd h @ CRLF"

definition print_head :: "Method \<Rightarrow> string \<Rightarrow> Version \<Rightarrow> (string \<times> string) list \<Rightarrow> string" where
  "print_head m uri v hs =
     method_name m @ '' '' @ uri @ '' '' @ version_name v @ CRLF
     @ concat (map print_header hs) @ CRLF"

lemma length_print_header: "length (print_header h) = length (fst h) + length (snd h) + 4"
  by (simp add: print_header_def CRLF_def)

definition uri_ok :: "string \<Rightarrow> bool" where
  "uri_ok u \<longleftrightarrow> clean u \<and> CHR '' '' \<notin> set u \<and> (case u of [] \<Rightarrow> False | c # _ \<Rightarrow> c = CHR ''/'')"

definition header_ok :: "string \<times> string \<Rightarrow> bool" where
  "header_ok h \<longleftrightarrow> clean (fst h) \<and> clean (snd h) \<and> CHR '':'' \<notin> set (fst h) \<and> snd h \<noteq> []"

definition header_effect :: "HttpParser \<Rightarrow> string \<times> string \<Rightarrow> HttpParser" where
  "header_effect p h =
     (let p1 = (if fst h = ''Content-Length''
                then p\<lparr>contentLength := int_to_size (atoi (snd h))\<rparr>
                else if fst h = ''Connection'' \<and> (snd h = ''keep-alive'' \<or> snd h = ''Keep-Alive'')
                then p\<lparr>connecting := True\<rparr>
                else p)
      in p1\<lparr>request := addHeader (fst h) (snd h) (request p1)\<rparr>)"

lemma header_effect_update [simp]:
  "header_effect (p\<lparr>input := i, pos := n\<rparr>) h = (header_effect p h)\<lparr>input := i, pos := n\<rparr>"
  by (auto simp: header_effect_def Let_def)

lemma headers_effect_update [simp]:
  "foldl header_effect (p\<lparr>input := i, pos := n\<rparr>) hs = (foldl header_effect p hs)\<lparr>input := i, pos := n\<rparr>"
  by (induction hs arbitrary: p) simp_all

lemma header_effect_frame [simp]:
  "checkState (header_effect p h) = checkState p" "input (header_effect p h) = input p"
  "pos (header_effect p h) = pos p" "response (header_effect p h) = response p"
  "hp_output (header_effect p h) = hp_output p" "fileName (header_effect p h) = fileName p"
  "filelen (header_effect p h) = filelen p" "sent (header_effect p h) = sent p"
  "connAlive (header_effect p h) = connAlive p" "fileContent (header_effect p h) = fileContent p"
  by (simp_all add: header_effect_def Let_def)

lemma headers_effect_frame [simp]:
  "checkState (foldl header_effect p hs) = checkState p" "input (foldl header_effect p hs) = input p"
  "pos (foldl header_effect p hs) = pos p" "response (foldl header_effect p hs) = response p"
  "hp_output (foldl header_effect p hs) = hp_output p" "fileName (foldl header_effect p hs) = fileName p"
  "filelen (foldl header_effect p hs) = filelen p" "sent (foldl header_effect p hs) = sent p"
  "connAlive (foldl header_effect p hs) = connAlive p"
  "fileContent (foldl header_effect p hs) = fileContent p"
  by (induction hs arbitrary: p) simp_all

lemma find_colon:
  assumes "CHR '':'' \<notin> set k"
  shows "str_find (k @ '': '' @ v) '': '' 0 = Some (length k)"
proof -
  have "find_sub '': '' (k @ '': '' @ v) = Some (length k)"
  proof (rule find_sub_first)
    fix i assume "i < length k"
    then obtain c cs where "drop i k = c # cs" "c \<in> set k"
      by (metis Cons_nth_drop_Suc nth_mem)
    with assms \<open>i < length k\<close> show "\<not> is_prefix '': '' (drop i (k @ '': '' @ v))" by auto
  qed
  then show ?thesis by (simp add: str_find_def)
qed

lemma parseHeaders_header:
  assumes "header_ok h" "cstr_at (input p) b = fst h @ '': '' @ snd h"
  shows "parseHeaders p b = (NoRequest, header_effect p h)"
  using assms find_colon [of "fst h" "snd h"]
  by (cases "snd h") (simp_all add: parseHeaders_def header_ok_def header_effect_def substr_def
      substr_from_def Let_def)

lemma loop_header:
  assumes "checkState p = Check_Header" "input p = pre @ print_header h @ rest" "pos p = length pre"
    and "header_ok h"
  shows "processRead_loop env p ls (length pre) =
    processRead_loop env ((header_effect p h)\<lparr>
        input := (pre @ (fst h @ '': '' @ snd h) @ [NUL, NUL]) @ rest,
        pos := length (pre @ (fst h @ '': '' @ snd h) @ [NUL, NUL])\<rparr>) Line_OK
      (length (pre @ (fst h @ '': '' @ snd h) @ [NUL, NUL]))"
proof -
  let ?line = "fst h @ '': '' @ snd h"
  have cl: "clean ?line" using assms(4) by (simp add: header_ok_def) (simp add: clean_def)
  have inp: "input p = pre @ ?line @ CRLF @ rest"
    using assms(2) by (simp add: print_header_def)
  let ?p1 = "p\<lparr>input := pre @ ?line @ NUL # NUL # rest, pos := length pre + length ?line + 2\<rparr>"
  have "cstr_at (input ?p1) (length pre) = ?line"
    using cl cstr_at_line [of ?line pre "NUL # rest"] by (simp add: clean_def)
  then have "parseHeaders ?p1 (length pre) = (NoRequest, header_effect ?p1 h)"
    by (rule parseHeaders_header [OF assms(4)])
  then have "loop_body env ?p1 (length pre) Line_OK = Continue (header_effect ?p1 h) Line_OK"
    using assms(1) by (simp add: loop_body_def)
  then show ?thesis
    using loop_line [OF _ inp assms(3) cl, of env ls "length pre"] assms(1) by (simp add: add.commute)
qed

text \<open>What happens at the blank line: the body, if a length was announced, or the request.\<close>

definition after_headers :: "parser_env \<Rightarrow> HttpParser \<Rightarrow> (HttpState \<times> HttpParser) res" where
  "after_headers env q =
     (if contentLength q \<noteq> 0
      then processRead_loop env (q\<lparr>checkState := Check_Content\<rparr>) Line_OK (pos q)
      else Inr (doRequest env q))"

lemma loop_blank_line:
  assumes "checkState p = Check_Header" "input p = pre @ CRLF @ rest" "pos p = length pre"
  shows "processRead_loop env p ls (length pre) =
    after_headers env (p\<lparr>input := (pre @ [NUL, NUL]) @ rest, pos := length (pre @ [NUL, NUL])\<rparr>)"
proof -
  let ?p1 = "p\<lparr>input := pre @ [] @ NUL # NUL # rest, pos := length pre + length ([] :: string) + 2\<rparr>"
  have inp: "input p = pre @ [] @ CRLF @ rest" using assms(2) by simp
  have "cstr_at (input ?p1) (length pre) = []" by (simp add: cstr_at_def)
  then have ph: "parseHeaders ?p1 (length pre) =
      (if contentLength p \<noteq> 0 then (NoRequest, ?p1\<lparr>checkState := Check_Content\<rparr>) else (GetRequest, ?p1))"
    by (simp add: parseHeaders_def)
  then have "loop_body env ?p1 (length pre) Line_OK =
      (if contentLength p \<noteq> 0 then Continue (?p1\<lparr>checkState := Check_Content\<rparr>) Line_OK
       else case doRequest env ?p1 of (r, q) \<Rightarrow> Return r q)"
    using assms(1) by (simp add: loop_body_def)
  then show ?thesis
    using loop_line [OF _ inp assms(3), of env ls "length pre"] assms(1)
    by (simp add: after_headers_def clean_def split: prod.splits)
qed

lemma loop_headers:
  assumes "checkState p = Check_Header" "pos p = length pre"
    and "input p = pre @ concat (map print_header hs) @ CRLF @ rest"
    and "list_all header_ok hs"
  shows "\<exists>pre'. length pre' = length pre + length (concat (map print_header hs)) + 2
    \<and> processRead_loop env p ls (length pre) =
      after_headers env ((foldl header_effect p hs)\<lparr>input := pre' @ rest, pos := length pre'\<rparr>)"
  using assms
proof (induction hs arbitrary: p pre ls)
  case Nil
  then show ?case
    using loop_blank_line [of p pre rest env ls] by (intro exI [of _ "pre @ [NUL, NUL]"]) simp
next
  case (Cons h hs)
  let ?pre1 = "pre @ (fst h @ '': '' @ snd h) @ [NUL, NUL]"
  let ?tail = "concat (map print_header hs) @ CRLF @ rest"
  let ?p1 = "(header_effect p h)\<lparr>input := ?pre1 @ ?tail, pos := length ?pre1\<rparr>"
  have h: "header_ok h" and hs: "list_all header_ok hs" using Cons.prems by auto
  have inp: "input p = pre @ print_header h @ ?tail" using Cons.prems by simp
  have step: "processRead_loop env p ls (length pre) = processRead_loop env ?p1 Line_OK (length ?pre1)"
    by (rule loop_header [OF Cons.prems(1) inp Cons.prems(2) h])
  have c1: "checkState ?p1 = Check_Header" using Cons.prems by simp
  have p1: "pos ?p1 = length ?pre1" by simp
  have i1: "input ?p1 = ?pre1 @ concat (map print_header hs) @ CRLF @ rest" by simp
  from Cons.IH [OF c1 p1 i1 hs, of Line_OK] obtain pre' where
    "length pre' = length ?pre1 + length (concat (map print_header hs)) + 2"
    "processRead_loop env ?p1 Line_OK (length ?pre1) =
      after_headers env ((foldl header_effect ?p1 hs)\<lparr>input := pre' @ rest, pos := length pre'\<rparr>)"
    by blast
  then show ?case
    using step by (intro exI [of _ pre']) (simp add: length_print_header)
qed

definition line_effect :: "HttpParser \<Rightarrow> Method \<Rightarrow> string \<Rightarrow> Version \<Rightarrow> HttpParser" where
  "line_effect p m uri v = p\<lparr>checkState := Check_Header,
     request := (request p)\<lparr>req_method := m, req_uri := uri, req_version := v\<rparr>,
     response := (response p)\<lparr>res_version := v\<rparr>\<rparr>"

lemma line_effect_update [simp]:
  "line_effect (p\<lparr>input := i, pos := n\<rparr>) m uri v = (line_effect p m uri v)\<lparr>input := i, pos := n\<rparr>"
  by (simp add: line_effect_def)

lemma method_name_ok: "m \<noteq> Method_Invalid \<Longrightarrow> clean (method_name m) \<and> CHR '' '' \<notin> set (method_name m)"
  by (cases m) (auto simp: clean_def)

lemma version_name_ok: "v \<noteq> Unknow \<Longrightarrow> clean (version_name v) \<and> version_name v \<noteq> []"
  by (cases v) (auto simp: clean_def)

lemma str_find_space:
  assumes "CHR '' '' \<notin> set xs"
  shows "str_find (pre @ xs @ CHR '' '' # ys) '' '' (length pre) = Some (length pre + length xs)"
  using find_sub_char [OF assms, of ys] by (simp add: str_find_def)

lemma setURI_path: "uri_ok u \<Longrightarrow> setURI p u = (True, p\<lparr>request := setUri u (request p)\<rparr>)"
  by (auto simp: uri_ok_def setURI_def substr_def substr_from_def str_find_def Let_def
      split: list.splits)

lemma parseRequestLine_printed:
  assumes "m \<noteq> Method_Invalid" "v \<noteq> Unknow" "uri_ok uri"
    and "cstr_at (input p) b = method_name m @ '' '' @ uri @ '' '' @ version_name v"
  shows "parseRequestLine p b = (NoRequest, line_effect p m uri v)"
proof -
  let ?mn = "method_name m" and ?vn = "version_name v"
  let ?line = "?mn @ '' '' @ uri @ '' '' @ ?vn"
  have s1: "str_find ?line '' '' 0 = Some (length ?mn)"
    using str_find_space [of ?mn "[]" "uri @ '' '' @ ?vn"] method_name_ok [OF assms(1)] by simp
  have s2: "str_find ?line '' '' (length ?mn + 1) = Some (length ?mn + 1 + length uri)"
    using str_find_space [of uri "?mn @ '' ''" ?vn] assms(3) by (simp add: uri_ok_def)
  have u: "uri \<noteq> []" using assms(3) by (auto simp: uri_ok_def)
  have m: "setMethod p ?mn = (True, p\<lparr>request := setMethod_req m (request p)\<rparr>)"
    using assms(1) by (cases m) (simp_all add: setMethod_def)
  have v: "setVersion q ?vn = (True, q\<lparr>request := setVersion_req v (request q),
      response := setVersion_res v (response q)\<rparr>)" for q
    using assms(2) by (cases v) (simp_all add: setVersion_def Let_def)
  show ?thesis
    unfolding parseRequestLine_def assms(4) Let_def s1
    using s2 u version_name_ok [OF assms(2)]
    by (simp add: substr_def substr_from_def m v setURI_path [OF assms(3)] line_effect_def HttpMessage_defs)
qed

lemma loop_request_line:
  assumes "m \<noteq> Method_Invalid" "v \<noteq> Unknow" "uri_ok uri" "checkState p = Check_RequestLine"
    and "input p = pre @ (method_name m @ '' '' @ uri @ '' '' @ version_name v) @ CRLF @ rest"
    and "pos p = length pre"
  shows "\<exists>pre'. length pre' = length pre + length (method_name m @ '' '' @ uri @ '' '' @ version_name v) + 2
    \<and> processRead_loop env p ls (length pre) =
      processRead_loop env ((line_effect p m uri v)\<lparr>input := pre' @ rest, pos := length pre'\<rparr>)
        Line_OK (length pre')"
proof -
  let ?line = "method_name m @ '' '' @ uri @ '' '' @ version_name v"
  let ?p1 = "p\<lparr>input := pre @ ?line @ NUL # NUL # rest, pos := length pre + length ?line + 2\<rparr>"
  have cl: "clean ?line"
    using assms(3) method_name_ok [OF assms(1)] version_name_ok [OF assms(2)]
    by (simp add: uri_ok_def) (simp add: clean_def)
  have "cstr_at (input ?p1) (length pre) = ?line"
    using cl cstr_at_line [of ?line pre "NUL # rest"] by (simp add: clean_def)
  then have "parseRequestLine ?p1 (length pre) = (NoRequest, line_effect ?p1 m uri v)"
    by (rule parseRequestLine_printed [OF assms(1-3)])
  then have "loop_body env ?p1 (length pre) Line_OK = Continue (line_effect ?p1 m uri v) Line_OK"
    using assms(4) by (simp add: loop_body_def)
  then show ?thesis
    using loop_line [OF _ assms(5,6) cl, of env ls "length pre"] assms(4)
    by (intro exI [of _ "pre @ ?line @ [NUL, NUL]"]) (simp add: add.commute)
qed

text \<open>The announced body length and the keep-alive flag the headers leave behind.\<close>

definition clen_of :: "nat \<Rightarrow> (string \<times> string) list \<Rightarrow> nat" where
  "clen_of c hs = foldl (\<lambda>c h. if fst h = ''Content-Length'' then int_to_size (atoi (snd h)) else c) c hs"

definition keep_of :: "(string \<times> string) list \<Rightarrow> bool" where
  "keep_of hs \<longleftrightarrow> list_ex (\<lambda>h. fst h = ''Connection'' \<and> (snd h = ''keep-alive'' \<or> snd h = ''Keep-Alive'')) hs"

lemma headers_clen: "contentLength (foldl header_effect p hs) = clen_of (contentLength p) hs"
  by (induction hs arbitrary: p) (auto simp: clen_of_def header_effect_def Let_def)

lemma headers_keep: "connecting (foldl header_effect p hs) \<longleftrightarrow> connecting p \<or> keep_of hs"
  by (induction hs arbitrary: p) (auto simp: keep_of_def header_effect_def Let_def)

lemma headers_request:
  "request (foldl header_effect p hs) =
     (request p)\<lparr>req_headers := req_headers (request p) ++ map_of (rev hs)\<rparr>"
  by (induction hs arbitrary: p)
     (auto simp: header_effect_def Let_def addHeader_def map_add_def fun_eq_iff split: option.splits)

lemma loop_content:
  assumes "checkState q = Check_Content" "contentLength q = length body"
    and "input q = pre @ body @ rest" "pos q = length pre" "length (input q) < size_mod"
  shows "processRead_loop env q Line_OK b =
    Inr (doRequest env (q\<lparr>request := (request q)\<lparr>req_body := body\<rparr>, pos := length pre + length body\<rparr>))"
  using assms
  by (subst processRead_loop.simps)
     (simp add: loop_test_def loop_body_def parseContent_def recvBody_def szadd_exact setBody_req_def
       split: prod.splits)

text \<open>
  The state \<open>doRequest\<close> is called in: the request's parts, the keep-alive flag, and the
  position behind the request; the rest of the input is untouched.
\<close>

lemma processRead_printed:
  assumes "m \<noteq> Method_Invalid" "v \<noteq> Unknow" "uri_ok uri" "list_all header_ok hs"
    and "checkState p = Check_RequestLine" "contentLength p = 0"
    and inp: "input p = pre @ print_head m uri v hs @ body @ rest"
    and "pos p = length pre" "length (input p) < size_mod"
    and cl: "clen_of 0 hs = length body"
  shows "\<exists>q pre'. processRead env p = Inr (doRequest env q)
    \<and> request q = (request p)\<lparr>req_method := m, req_uri := uri, req_version := v,
        req_headers := req_headers (request p) ++ map_of (rev hs),
        req_body := (if body = [] then req_body (request p) else body)\<rparr>
    \<and> (connecting q \<longleftrightarrow> connecting p \<or> keep_of hs)
    \<and> res_version (response q) = v \<and> hp_output q = hp_output p \<and> fileName q = fileName p
    \<and> filelen q = filelen p \<and> sent q = sent p \<and> connAlive q = connAlive p
    \<and> input q = pre' @ rest \<and> pos q = length pre'
    \<and> length pre' = length pre + length (print_head m uri v hs) + length body"
proof -
  let ?line = "method_name m @ '' '' @ uri @ '' '' @ version_name v"
  let ?hdrs = "concat (map print_header hs)"
  have inp1: "input p = pre @ ?line @ CRLF @ ?hdrs @ CRLF @ body @ rest"
    using inp by (simp add: print_head_def)
  from loop_request_line [OF assms(1-3,5) inp1 assms(8), of env Line_OK] obtain pre1 where
    l1: "length pre1 = length pre + length ?line + 2" and
    r1: "processRead_loop env p Line_OK (length pre) = processRead_loop env
      ((line_effect p m uri v)\<lparr>input := pre1 @ ?hdrs @ CRLF @ body @ rest, pos := length pre1\<rparr>)
      Line_OK (length pre1)" by blast
  let ?p1 = "(line_effect p m uri v)\<lparr>input := pre1 @ ?hdrs @ CRLF @ body @ rest, pos := length pre1\<rparr>"
  have "checkState ?p1 = Check_Header" "pos ?p1 = length pre1"
    "input ?p1 = pre1 @ ?hdrs @ CRLF @ body @ rest" by (simp_all add: line_effect_def)
  from loop_headers [OF this assms(4), of env Line_OK] obtain pre2 where
    l2: "length pre2 = length pre1 + length ?hdrs + 2" and
    r2: "processRead_loop env ?p1 Line_OK (length pre1) = after_headers env
      ((foldl header_effect (line_effect p m uri v) hs)\<lparr>input := pre2 @ body @ rest, pos := length pre2\<rparr>)"
    by auto
  let ?p2 = "(foldl header_effect (line_effect p m uri v) hs)\<lparr>input := pre2 @ body @ rest, pos := length pre2\<rparr>"
  have c2: "contentLength ?p2 = length body"
    using cl assms(6) by (simp add: headers_clen line_effect_def)
  have lens: "length pre2 + length body = length pre + length (print_head m uri v hs) + length body"
    using l1 l2 by (simp add: print_head_def CRLF_def)
  let ?q = "if body = [] then ?p2 else ?p2\<lparr>checkState := Check_Content,
      request := (request ?p2)\<lparr>req_body := body\<rparr>, pos := length pre2 + length body\<rparr>"
  have "processRead env p = after_headers env ?p2"
    using r1 r2 assms(8) by (simp add: processRead_def)
  also have "\<dots> = Inr (doRequest env ?q)"
  proof (cases "body = []")
    case True
    then show ?thesis using c2 by (simp add: after_headers_def)
  next
    case False
    have "length (input ?p2) < size_mod"
      using assms(9) inp lens l1 by simp
    with False c2 show ?thesis
      using loop_content [of "?p2\<lparr>checkState := Check_Content\<rparr>" body pre2 rest env "length pre2"]
      by (simp add: after_headers_def)
  qed
  finally have "processRead env p = Inr (doRequest env ?q)" .
  then show ?thesis
    using lens
    by (intro exI [of _ ?q] exI [of _ "pre2 @ body"])
       (auto simp: headers_request headers_keep line_effect_def)
qed

end
