(* ===== verification/HttpProcess.thy ===== *)
theory HttpProcess
  imports HttpRoundtrip
begin

text \<open>
  The driver \<open>process\<close>: the replies to a pipeline of requests, when the loop stops and when
  it does not, and the answers that differ from what the protocol asks for.
\<close>

section \<open>The reply to a request\<close>

text \<open>
  The specification of a reply: the status and the body for a path, and the text of the
  message.
\<close>

definition serve :: "parser_env \<Rightarrow> Method \<Rightarrow> string \<Rightarrow> (HttpState \<times> string) res" where
  "serve env m uri =
     (if m = HEAD then Inr (OnlyHead, BadRequest400_Form)
      else if uri = ''/hello'' then Inr (GetResource, ''Hello World!'' @ [LF])
      else case files env (RESOURCE_ROOT @ uri) of
          None \<Rightarrow> Inr (NotFound, NotFound404_Form)
        | Some f \<Rightarrow>
            if \<not> otherRead f \<or> isDir f then Inr (NotFound, NotFound404_Form)
            else if \<not> openable f \<or> st_size f = 0 \<or> length (fdata f) < st_size f
            then Inr (InternalError, INTERNALERROR500_Form)
            else rbind (cstr_of_block (take (st_size f) (fdata f) @ [heapByte env]))
                   (\<lambda>s. Inr (GetResource, s)))"

definition status_text :: "HttpState \<Rightarrow> string" where
  "status_text st = (case st of InternalError \<Rightarrow> INTERNALERROR | NotFound \<Rightarrow> NOTFOUND
     | OnlyHead \<Rightarrow> OK_line | GetResource \<Rightarrow> OK_line | _ \<Rightarrow> BADREQUEST)"

definition content_type :: "string \<Rightarrow> string" where
  "content_type uri = (case find_last_of uri (CHR ''.'') of
       Some i \<Rightarrow> mime_or_default (drop i uri) | None \<Rightarrow> the (mime ''default''))"

definition reply_text :: "Version \<Rightarrow> HttpState \<Rightarrow> bool \<Rightarrow> string \<Rightarrow> string \<Rightarrow> string" where
  "reply_text v st keep uri body =
     (if v = Http10 then ''HTTP/1.0 '' else ''HTTP/1.1 '') @ status_text st @ CRLF
     @ ''Connection: '' @ (if keep then ''keep-alive'' else ''close'') @ CRLF
     @ ''Content-Type: '' @ content_type uri @ CRLF @ body"

lemma out_append_output [simp]: "hp_output (out_append p s) = hp_output p @ s"
  by (simp add: out_append_def)

lemma out_append_frame [simp]:
  "hp_state (out_append p s) = hp_state p" "request (out_append p s) = request p"
  "response (out_append p s) = response p" "connecting (out_append p s) = connecting p"
  "filelen (out_append p s) = filelen p" "fileContent (out_append p s) = fileContent p"
  "input (out_append p s) = input p" "pos (out_append p s) = pos p"
  "checkState (out_append p s) = checkState p" "contentLength (out_append p s) = contentLength p"
  "sent (out_append p s) = sent p" "connAlive (out_append p s) = connAlive p"
  "fileName (out_append p s) = fileName p"
  by (simp_all add: out_append_def)

lemma out_append_append [simp]: "out_append (out_append p s) t = out_append p (s @ t)"
  by (simp add: out_append_def)

lemma appendResponseLine_text:
  "appendResponseLine p = out_append p
    ((if res_version (response p) = Http10 then ''HTTP/1.0 '' else ''HTTP/1.1 '')
     @ status_text (hp_state p) @ CRLF)"
  by (cases "hp_state p") (simp_all add: appendResponseLine_def status_text_def getVersion_def Let_def)

lemma appendHeaders_text:
  "filelen p = 0 \<Longrightarrow> appendHeaders p = out_append p
    (''Connection: '' @ (if connecting p then ''keep-alive'' else ''close'') @ CRLF
     @ ''Content-Type: '' @ content_type (req_uri (request p)) @ CRLF)"
  by (cases "find_last_of (req_uri (request p)) (CHR ''.'')")
     (simp_all add: appendHeaders_def content_type_def getURI_def substr_from_def Let_def)

lemma head_text:
  assumes "filelen p = 0"
  shows "appendHeaders (appendResponseLine p) = out_append p
    (reply_text (res_version (response p)) (hp_state p) (connecting p) (req_uri (request p)) [])"
  using assms by (simp add: appendResponseLine_text appendHeaders_text reply_text_def)

lemma reply_text_append [simp]: "reply_text v st k u [] @ b = reply_text v st k u b"
  by (simp add: reply_text_def)

lemma processWrite_text:
  assumes "filelen p = 0"
  shows "processWrite p = rbind (appendContent (out_append p
    (reply_text (res_version (response p)) (hp_state p) (connecting p) (req_uri (request p)) [])))
    Inr"
  using assms by (simp add: processWrite_def head_text rbind_def split: sum.splits)

text \<open>After \<open>doRequest\<close>, \<open>processWrite\<close> produces the specified reply.\<close>

lemma doRequest_reply:
  assumes "fileName q = RESOURCE_ROOT" "filelen q = 0" "clean (req_uri (request q))"
    and "serve env (req_method (request q)) (req_uri (request q)) = Inr (st, body)"
  shows "\<exists>q'. doRequest env q = (st, q') \<and> hp_state q' = st \<and> filelen q' = 0
    \<and> st \<in> {OnlyHead, NotFound, InternalError, GetResource}
    \<and> processWrite q' = Inr (out_append q'
        (reply_text (res_version (response q)) st (connecting q) (req_uri (request q)) body))
    \<and> input q' = input q \<and> pos q' = pos q \<and> connecting q' = connecting q
    \<and> sent q' = sent q \<and> connAlive q' = connAlive q \<and> hp_output q' = hp_output q
    \<and> request q' = request q \<and> response q' = response q"
proof -
  have root: "NUL \<notin> set RESOURCE_ROOT" by (simp add: RESOURCE_ROOT_def)
  have "takeWhile (\<lambda>c. c \<noteq> NUL) (RESOURCE_ROOT @ req_uri (request q)) = RESOURCE_ROOT @ req_uri (request q)"
    using root assms(3) by (intro takeWhile_eq_all_conv [THEN iffD2]) (auto simp: clean_def)
  then have nm: "cstr_at (fileName q @ req_uri (request q)) 0 = RESOURCE_ROOT @ req_uri (request q)"
    using assms(1) by (simp add: cstr_at_def)
  show ?thesis
  proof (cases "req_method (request q) = HEAD")
    case True
    then have "doRequest env q = (OnlyHead, q\<lparr>hp_state := OnlyHead\<rparr>)" "st = OnlyHead"
      "body = BadRequest400_Form"
      using assms(4) by (simp_all add: doRequest_def getMethod_def serve_def)
    then show ?thesis using assms(2) by (simp add: processWrite_text appendContent_def)
  next
    case False
    then show ?thesis
      using assms(2,4) nm
      by (auto simp: doRequest_def getMethod_def getURI_def getResource_def serve_def Let_def
          processWrite_text appendContent_def split: if_splits option.splits) 
         (auto simp: cstr_of_block_def split: if_splits)
  qed
qed

section \<open>A pipeline of requests\<close>

record http_req =
  rq_method :: Method
  rq_uri :: string
  rq_version :: Version
  rq_headers :: "(string \<times> string) list"
  rq_body :: string

definition print_req :: "http_req \<Rightarrow> string" where
  "print_req r = print_head (rq_method r) (rq_uri r) (rq_version r) (rq_headers r) @ rq_body r"

definition req_ok :: "http_req \<Rightarrow> bool" where
  "req_ok r \<longleftrightarrow> rq_method r \<noteq> Method_Invalid \<and> rq_version r \<noteq> Unknow \<and> uri_ok (rq_uri r)
     \<and> list_all header_ok (rq_headers r) \<and> clen_of 0 (rq_headers r) = length (rq_body r)"

definition reply :: "parser_env \<Rightarrow> http_req \<Rightarrow> string res" where
  "reply env r = rbind (serve env (rq_method r) (rq_uri r))
     (\<lambda>(st, body). Inr (reply_text (rq_version r) st True (rq_uri r) body))"

text \<open>The parser between two requests.\<close>

definition idle :: "HttpParser \<Rightarrow> bool" where
  "idle p \<longleftrightarrow> checkState p = Check_RequestLine \<and> contentLength p = 0 \<and> hp_output p = []
     \<and> fileName p = RESOURCE_ROOT \<and> filelen p = 0"

lemma idle_new: "idle (HttpParser_new rq rs alive)"
  by (simp add: idle_def HttpParser_new_def)

lemma idle_init: "idle (parser_init p c)"
  by (simp add: idle_def parser_init_def Let_def)

lemma parser_init_frame [simp]:
  "connecting (parser_init p c) = connecting p" "sent (parser_init p c) = sent p"
  "connAlive (parser_init p c) = connAlive p" "request (parser_init p c) = request p"
  "input (parser_init p c) = (if c then [] else input p)"
  "pos (parser_init p c) = (if c then 0 else pos p)"
  by (simp_all add: parser_init_def Let_def)

lemma parser_send_frame [simp]:
  "connecting (parser_send p) = connecting p" "input (parser_send p) = input p"
  "pos (parser_send p) = pos p" "connAlive (parser_send p) = connAlive p"
  "filelen (parser_send p) = filelen p" "checkState (parser_send p) = checkState p"
  "sent (parser_send p) = (if connAlive p then sent p @ [hp_output p] else sent p)"
  by (simp_all add: parser_send_def)

text \<open>One keep-alive request is answered and the parser goes on behind it.\<close>

lemma round_request:
  assumes "idle p" "req_ok r" "connecting p \<or> keep_of (rq_headers r)"
    and inp: "input p = pre @ print_req r @ rest" "pos p = length pre" "length (input p) < size_mod"
    and srv: "serve env (rq_method r) (rq_uri r) = Inr (st, body)"
  shows "\<exists>q pre'. process_round env p = Inr (Again q) \<and> idle q \<and> connecting q
    \<and> connAlive q = connAlive p
    \<and> sent q = (if connAlive p then sent p @ [reply_text (rq_version r) st True (rq_uri r) body] else sent p)
    \<and> input q = pre' @ rest \<and> pos q = length pre'
    \<and> (rest \<noteq> [] \<longrightarrow> length pre' = length pre + length (print_req r)) \<and> (rest = [] \<longrightarrow> pre' = [])"
proof -
  have inp': "input p = pre @ print_head (rq_method r) (rq_uri r) (rq_version r) (rq_headers r)
      @ rq_body r @ rest"
    using inp(1) by (simp add: print_req_def)
  have ok: "rq_method r \<noteq> Method_Invalid" "rq_version r \<noteq> Unknow" "uri_ok (rq_uri r)"
    "list_all header_ok (rq_headers r)" "clen_of 0 (rq_headers r) = length (rq_body r)"
    and idl: "checkState p = Check_RequestLine" "contentLength p = 0" "hp_output p = []"
    "fileName p = RESOURCE_ROOT" "filelen p = 0"
    using assms(1,2) by (simp_all add: req_ok_def idle_def)
  from processRead_printed [OF ok(1-4) idl(1,2) inp' inp(2,3) ok(5), of env] obtain q pre' where
    rd: "processRead env p = Inr (doRequest env q)" and
    q: "req_method (request q) = rq_method r" "req_uri (request q) = rq_uri r" "connecting q"
       "res_version (response q) = rq_version r" "hp_output q = []" "fileName q = RESOURCE_ROOT"
       "filelen q = 0" "sent q = sent p" "connAlive q = connAlive p"
       "input q = pre' @ rest" "pos q = length pre'"
       "length pre' = length pre + length (print_req r)"
    using idl assms(3) by (auto simp: print_req_def)
  have "clean (req_uri (request q))" using ok(3) q(2) by (simp add: uri_ok_def)
  from doRequest_reply [OF q(6,7) this, of env st body] srv q(1,2) obtain q1 where
    d: "doRequest env q = (st, q1)" "st \<in> {OnlyHead, NotFound, InternalError, GetResource}" and
    w: "processWrite q1 = Inr (out_append q1 (reply_text (rq_version r) st True (rq_uri r) body))" and
    fr: "input q1 = input q" "pos q1 = pos q" "connecting q1" "sent q1 = sent q"
      "connAlive q1 = connAlive q" "hp_output q1 = []"
    using q by auto
  let ?q3 = "parser_send (out_append q1 (reply_text (rq_version r) st True (rq_uri r) body))"
  let ?q4 = "parser_init ?q3 (rest = [])"
  have "process_round env p = Inr (Again ?q4)"
    using rd d w fr q by (auto simp: process_round_def Let_def)
  then show ?thesis
    using fr q
    by (intro exI [of _ ?q4] exI [of _ "if rest = [] then [] else pre'"]) (auto simp: idle_init)
qed

lemma round_open:
  assumes "checkState p \<noteq> Check_Content" "input p = pre" "pos p = length pre"
  shows "process_round env p = Inr (Leave (connecting p) (p\<lparr>hp_state := NoRequest\<rparr>))"
proof -
  have "parseLine p = Inr (Line_Open, p)"
    using assms by (simp add: parseLine_def parseLine_scan.simps)
  then have "processRead env p = Inr (NoRequest, p\<lparr>hp_state := NoRequest\<rparr>)"
    using assms by (simp add: processRead_def processRead_loop.simps loop_test_def)
  then show ?thesis by (simp add: process_round_def)
qed

lemma process_pipeline:
  assumes "idle p" "list_all req_ok rs" "list_all (\<lambda>r. keep_of (rq_headers r)) rs"
    and "list_all2 (\<lambda>r t. reply env r = Inr t) rs texts"
    and "input p = pre @ concat (map print_req rs)" "pos p = length pre" "length (input p) < size_mod"
    and "connAlive p"
  shows "\<exists>q. process env p = Some (Inr (connecting p \<or> rs \<noteq> [], q)) \<and> sent q = sent p @ texts
    \<and> idle q \<and> connAlive q \<and> input q = (if rs = [] then input p else []) \<and> pos q = (if rs = [] then pos p else 0)"
  using assms
proof (induction rs arbitrary: p pre texts)
  case Nil
  then have "process_round env p = Inr (Leave (connecting p) (p\<lparr>hp_state := NoRequest\<rparr>))"
    by (intro round_open) (auto simp: idle_def)
  then show ?case using Nil.prems by (subst process.simps) (simp add: idle_def)
next
  case (Cons r rs)
  let ?rest = "concat (map print_req rs)"
  from Cons.prems(4) obtain t ts where t: "texts = t # ts" "reply env r = Inr t"
    "list_all2 (\<lambda>r t. reply env r = Inr t) rs ts" by (auto simp: list_all2_Cons1)
  then obtain st body where srv: "serve env (rq_method r) (rq_uri r) = Inr (st, body)"
    "t = reply_text (rq_version r) st True (rq_uri r) body" by (auto simp: reply_def)
  have r: "req_ok r" "connecting p \<or> keep_of (rq_headers r)" using Cons.prems by auto
  have inp: "input p = pre @ print_req r @ ?rest" using Cons.prems by simp
  from round_request [OF Cons.prems(1) r inp Cons.prems(6,7) srv(1)] obtain q pre' where
    q: "process_round env p = Inr (Again q)" "idle q" "connecting q" "connAlive q = connAlive p"
       "sent q = (if connAlive p then sent p @ [t] else sent p)" "input q = pre' @ ?rest"
       "pos q = length pre'" "?rest \<noteq> [] \<longrightarrow> length pre' = length pre + length (print_req r)"
       "?rest = [] \<longrightarrow> pre' = []"
    using srv(2) by blast
  have "length (input q) < size_mod"
    using q(6,8,9) inp Cons.prems(7) by (cases "?rest = []") auto
  then obtain q' where q': "process env q = Some (Inr (True, q'))" "sent q' = sent q @ ts" "idle q'" "connAlive q'"
    "input q' = (if rs = [] then input q else [])" "pos q' = (if rs = [] then pos q else 0)"
    using Cons.IH [of q ts pre'] q t Cons.prems by auto
  moreover have "input q' = []" "pos q' = 0" using q' q(6,7,9) by (cases "rs = []"; simp)+
  ultimately show ?case using q(1,5) t Cons.prems(8) by (subst process.simps) simp
qed

section \<open>When the loop does not stop\<close>

text \<open>A keep-alive parser in front of a carriage return that no line feed follows.\<close>

definition stuck :: "HttpParser \<Rightarrow> bool" where
  "stuck p \<longleftrightarrow> connecting p \<and> checkState p = Check_RequestLine \<and> filelen p = 0
     \<and> pos p + 1 < length (input p) \<and> input p ! pos p = CR \<and> input p ! (pos p + 1) \<noteq> LF"

lemma processRead_bad:
  assumes "checkState p \<noteq> Check_Content" "pos p + 1 < length (input p)"
    and "input p ! pos p = CR" "input p ! (pos p + 1) \<noteq> LF"
  shows "processRead env p = Inr (Invalid, p\<lparr>hp_state := Invalid\<rparr>)"
proof -
  have "parseLine p = Inr (Line_Bad, p)"
    using assms(2-4) by (simp add: parseLine_def parseLine_scan.simps)
  then show ?thesis
    using assms(1) by (simp add: processRead_def processRead_loop.simps loop_test_def)
qed

lemma round_stuck:
  assumes "stuck p"
  shows "\<exists>q. process_round env p = Inr (Again q) \<and> stuck q"
proof -
  let ?p1 = "p\<lparr>hp_state := Invalid\<rparr>"
  have rd: "processRead env p = Inr (Invalid, ?p1)"
    using assms by (intro processRead_bad) (auto simp: stuck_def)
  obtain t where "processWrite ?p1 = Inr (out_append ?p1 t)"
    using assms by (simp add: processWrite_text appendContent_def stuck_def)
  then have "process_round env p = Inr (Again (parser_init (parser_send (out_append ?p1 t))
      (length (input p) = pos p)))"
    using rd assms by (simp add: process_round_def stuck_def Let_def)
  moreover have "stuck (parser_init (parser_send (out_append ?p1 t)) (length (input p) = pos p))"
    using assms idle_init [of "parser_send (out_append ?p1 t)"] by (auto simp: stuck_def idle_def)
  ultimately show ?thesis by blast
qed

lemma process_stuck:
  assumes "stuck p"
  shows "process env p = None"
proof (rule ccontr)
  assume "process env p \<noteq> None"
  then obtain r where ret: "process env p = Some r" by auto
  have "\<not> stuck p"
  proof (rule process.raw_induct [where P = "\<lambda>env p r. \<not> stuck p", OF _ ret])
    fix f env p r
    assume IH: "\<And>env p r. f env p = Some r \<Longrightarrow> \<not> stuck p"
      and eq: "(case process_round env p of Inl e \<Rightarrow> Some (Inl e)
        | Inr (Leave b q) \<Rightarrow> Some (Inr (b, q)) | Inr (Again q) \<Rightarrow> f env q) = Some r"
    show "\<not> stuck p"
    proof
      assume "stuck p"
      then obtain q where "process_round env p = Inr (Again q)" "stuck q"
        using round_stuck by blast
      with eq IH show False by auto
    qed
  qed
  with assms show False by simp
qed

section \<open>When it does\<close>

text \<open>Every carriage return is followed by a line feed (or ends the input), and every line
  feed comes after a carriage return.\<close>

definition lines_ok :: "string \<Rightarrow> nat \<Rightarrow> bool" where
  "lines_ok s i \<longleftrightarrow> (\<forall>j. i \<le> j \<and> j < length s \<longrightarrow>
     (s ! j = CR \<longrightarrow> j + 1 < length s \<longrightarrow> s ! (j + 1) = LF) \<and>
     (s ! j = LF \<longrightarrow> 0 < j \<and> s ! (j - 1) = CR))"

definition pinv :: "HttpParser \<Rightarrow> bool" where
  "pinv p \<longleftrightarrow> pos p \<le> length (input p) \<and> length (input p) < size_mod \<and> lines_ok (input p) (pos p)
     \<and> (checkState p = Check_Content \<longrightarrow> contentLength p \<noteq> 0)"

lemma lines_ok_mono: "lines_ok s i \<Longrightarrow> i \<le> k \<Longrightarrow> lines_ok s k"
  by (auto simp: lines_ok_def)

lemma lines_ok_two:
  assumes "lines_ok s p" "s ! p = CR" "s ! (p + 1) = LF"
  shows "lines_ok (s[p := NUL, p + 1 := NUL]) (p + 2)"
  using assms unfolding lines_ok_def
  by (auto simp: nth_list_update)

lemma lines_ok_back:
  assumes "lines_ok s p" "0 < p" "s ! (p - 1) = CR" "s ! p = LF"
  shows "lines_ok (s[p - 1 := NUL, p := NUL]) (p + 1)"
  using assms unfolding lines_ok_def
  by (auto simp: nth_list_update)

lemma scan_lines_ok:
  assumes "lines_ok s p" "p \<le> length s"
  shows "\<exists>ls s' p'. parseLine_scan s p = Inr (ls, s', p') \<and> ls \<noteq> Line_Bad \<and> lines_ok s' p'
    \<and> length s' = length s \<and> p \<le> p' \<and> p' \<le> length s \<and> (ls = Line_OK \<longrightarrow> p < p')"
  using assms
proof (induction s p rule: parseLine_scan.induct)
  case (1 s p)
  note ok = "1.prems"(1)
  show ?case
  proof (cases "p < length s")
    case False
    then show ?thesis using "1.prems" parseLine_scan.simps [of s p] by auto
  next
    case p: True
    show ?thesis
    proof (cases "s ! p = CR")
      case cr: True
      then have lf: "p + 1 < length s \<longrightarrow> s ! (p + 1) = LF" using ok p by (auto simp: lines_ok_def)
      have "parseLine_scan s p = (if p + 1 < length s then Inr (Line_OK, s[p := NUL, p + 1 := NUL], p + 2)
          else Inr (Line_Open, s, p))"
        using p cr lf by (subst parseLine_scan.simps) (auto simp: szsub_def)
      then show ?thesis using p lf ok lines_ok_two [OF ok cr] by auto
    next
      case ncr: False
      show ?thesis
      proof (cases "s ! p = LF")
        case lf: True
        then have b: "0 < p" "s ! (p - 1) = CR" using ok p by (auto simp: lines_ok_def)
        then show ?thesis
          using p ncr lf ok lines_ok_back [OF ok b lf] by (auto simp: parseLine_scan.simps [of s p])
      next
        case nlf: False
        have "lines_ok s (p + 1)" using lines_ok_mono [OF ok] by simp
        then show ?thesis
          using "1.IH" [OF p ncr nlf] p ncr nlf by (auto simp: parseLine_scan.simps [of s p])
      qed
    qed
  qed
qed

lemma parseLine_lines_ok:
  assumes "pinv p"
  shows "\<exists>ls q. parseLine p = Inr (ls, q) \<and> ls \<noteq> Line_Bad \<and> pinv q \<and> length (input q) = length (input p)
    \<and> pos p \<le> pos q \<and> (ls = Line_OK \<longrightarrow> pos p < pos q) \<and> checkState q = checkState p"
  using assms scan_lines_ok [of "input p" "pos p"] by (auto simp: parseLine_def pinv_def)

lemma doRequest_frame:
  "doRequest env p = (r, q) \<Longrightarrow> r \<noteq> NoRequest \<and> input q = input p \<and> pos q = pos p
    \<and> checkState q = checkState p \<and> contentLength q = contentLength p \<and> filelen q = filelen p"
  by (auto simp: doRequest_def getResource_def Let_def split: if_splits option.splits)

lemma parseRequestLine_pinv:
  assumes "parseRequestLine p b = (r, q)" "pinv p" "checkState p = Check_RequestLine"
  shows "pinv q \<and> r \<noteq> GetRequest"
  using assms
  by (auto simp: pinv_def parseRequestLine_def setMethod_def setURI_def setVersion_def Let_def
      split: option.splits if_splits)

lemma parseHeaders_pinv:
  assumes "parseHeaders p b = (r, q)" "pinv p" "checkState p = Check_Header"
  shows "pinv q"
  using assms by (auto simp: pinv_def parseHeaders_def Let_def split: option.splits if_splits)

lemma parseContent_pinv:
  assumes "parseContent p = (r, q)" "pinv p" "checkState p = Check_Content"
  shows "pinv q \<and> pos p \<le> pos q \<and> length (input q) = length (input p) \<and> (r = GetRequest \<longrightarrow> pos p < pos q)"
proof (cases "contentLength p \<le> length (input p) - pos p")
  case True
  with assms have "q = (recvBody p (take (contentLength p) (drop (pos p) (input p))))\<lparr>pos := pos p + contentLength p\<rparr>"
    by (auto simp: parseContent_def recvBody_def pinv_def Let_def szadd_exact)
  then show ?thesis using assms True lines_ok_mono by (auto simp: pinv_def recvBody_def)
next
  case False
  with assms show ?thesis by (auto simp: parseContent_def pinv_def)
qed

lemma doRequest_pinv: "doRequest env p = (r, q) \<Longrightarrow> pinv p \<Longrightarrow> pinv q"
  by (auto simp: pinv_def dest!: doRequest_frame)

text \<open>One execution of the body of the loop in \<open>processRead\<close>.\<close>

lemma loop_body_pinv:
  assumes "pinv p"
  shows "case loop_body env p b ls of
      Return r q \<Rightarrow> pinv q \<and> pos p \<le> pos q \<and> length (input q) = length (input p) \<and> r \<noteq> NoRequest
        \<and> (checkState p = Check_Content \<longrightarrow> pos p < pos q)
    | Continue q ls' \<Rightarrow> pinv q \<and> pos p \<le> pos q \<and> length (input q) = length (input p)"
proof (cases "checkState p")
  case Check_RequestLine
  then show ?thesis
    using assms parseRequestLine_frame [of p b] parseRequestLine_pinv [of p b]
    by (auto simp: loop_body_def pinv_def split: prod.splits)
next
  case Check_Header
  then show ?thesis
    using assms parseHeaders_frame [of p b] parseHeaders_pinv [of p b] doRequest_frame [of env]
      doRequest_pinv [of env]
    by (fastforce simp: loop_body_def pinv_def split: prod.splits)
next
  case Check_Content
  then show ?thesis
    using assms parseContent_pinv [of p] doRequest_frame [of env] doRequest_pinv [of env]
    by (fastforce simp: loop_body_def split: prod.splits)
qed

lemma processRead_loop_progress:
  assumes "pinv p"
  shows "\<exists>r q. processRead_loop env p ls b = Inr (r, q) \<and> pinv q \<and> pos p \<le> pos q
    \<and> length (input q) = length (input p) \<and> (r \<noteq> NoRequest \<longrightarrow> pos p < pos q)"
  using assms
proof (induction env p ls b rule: processRead_loop.induct)
  case (1 env p ls b)
  have step: ?case
    if t: "loop_test p ls = Inr (True, l, q)" and q: "pinv q" "length (input q) = length (input p)"
      "pos p \<le> pos q" and pr: "pos p < pos q \<or> checkState q = Check_Content" for l q
  proof (cases "loop_body env q b l")
    case (Return r q')
    then show ?thesis
      using loop_body_pinv [OF q(1), of env b l] q pr
      by (auto simp: processRead_loop.simps [of env p ls b] t)
  next
    case (Continue q' l')
    then obtain r q'' where "processRead_loop env q' l' (pos q') = Inr (r, q'')" "pinv q''"
      "pos q' \<le> pos q''" "length (input q'') = length (input q')" "r \<noteq> NoRequest \<longrightarrow> pos q' < pos q''"
      using loop_body_pinv [OF q(1), of env b l] "1.IH" [OF t, of True "(l, q)" l q q' l'] by auto
    then show ?thesis
      using loop_body_pinv [OF q(1), of env b l] q Continue
      by (auto simp: processRead_loop.simps [of env p ls b] t)
  qed
  show ?case
  proof (cases "checkState p = Check_Content \<and> ls = Line_OK")
    case True
    then have "loop_test p ls = Inr (True, ls, p)" by (simp add: loop_test_def)
    then show ?thesis using step "1.prems" True by simp
  next
    case False
    obtain l q where q: "parseLine p = Inr (l, q)" "l \<noteq> Line_Bad" "pinv q"
      "length (input q) = length (input p)" "pos p \<le> pos q" "l = Line_OK \<longrightarrow> pos p < pos q"
      using parseLine_lines_ok [OF "1.prems"] by blast
    have t: "loop_test p ls = Inr (l = Line_OK, l, q)" using False q(1) by (auto simp: loop_test_def)
    show ?thesis
    proof (cases "l = Line_OK")
      case True
      then show ?thesis using step [of l q] t q by simp
    next
      case no: False
      then show ?thesis
        using t q by (auto simp: processRead_loop.simps [of env p ls b] pinv_def)
    qed
  qed
qed

section \<open>Termination of the driver\<close>

lemma processWrite_frame:
  "processWrite p = Inr q \<Longrightarrow> input q = input p \<and> pos q = pos p \<and> connecting q = connecting p"
proof -
  have hdr: "input (appendHeaders (appendResponseLine p)) = input p"
    "pos (appendHeaders (appendResponseLine p)) = pos p"
    "connecting (appendHeaders (appendResponseLine p)) = connecting p"
    by (simp_all add: appendResponseLine_text appendHeaders_def Let_def split: option.splits)
  show "processWrite p = Inr q \<Longrightarrow> input q = input p \<and> pos q = pos p \<and> connecting q = connecting p"
    using hdr by (auto simp: processWrite_def appendContent_def Let_def
        split: HttpState.splits option.splits)
qed

lemma round_progress:
  assumes "pinv p" "process_round env p = Inr (Again q)"
  shows "pinv q \<and> length (input q) - pos q < length (input p) - pos p"
proof -
  obtain r p1 where p1: "processRead env p = Inr (r, p1)" "pinv p1" "pos p \<le> pos p1"
    "length (input p1) = length (input p)" "r \<noteq> NoRequest \<longrightarrow> pos p < pos p1"
    using processRead_loop_progress [OF assms(1)] unfolding processRead_def by blast
  with assms(2) have r: "r \<noteq> NoRequest" by (auto simp: process_round_def)
  with assms(2) p1(1) obtain p2 where p2: "processWrite p1 = Inr p2"
    "q = parser_init (parser_send p2) (length (input p2) = pos p2)"
    by (auto simp: process_round_def Let_def split: if_splits)
  have fr: "input p2 = input p1" "pos p2 = pos p1" using processWrite_frame [OF p2(1)] by auto
  have "checkState q = Check_RequestLine" using p2(2) idle_init by (auto simp: idle_def)
  moreover have "pos p1 \<le> length (input p1)" using p1(2) by (simp add: pinv_def)
  ultimately show ?thesis
    using p1 r fr p2(2) by (auto simp: pinv_def lines_ok_def)
qed

lemma process_returns:
  assumes "pinv p"
  shows "\<exists>r. process env p = Some r"
  using assms
proof (induction "length (input p) - pos p" arbitrary: p rule: less_induct)
  case less
  show ?case
  proof (cases "process_round env p")
    case (Inl e)
    then show ?thesis by (subst process.simps) simp
  next
    case (Inr x)
    show ?thesis
    proof (cases x)
      case (Leave b q)
      with Inr show ?thesis by (subst process.simps) simp
    next
      case (Again q)
      with Inr less.prems have "pinv q" "length (input q) - pos q < length (input p) - pos p"
        using round_progress [of p env q] by auto
      then have "\<exists>r. process env q = Some r" using less.hyps by blast
      with Inr Again show ?thesis by (subst process.simps) simp
    qed
  qed
qed

end
