(* ===== verification/HttpProperties.thy ===== *)
theory HttpProperties
  imports HttpProcess
begin

text \<open>
  What the HTTP parser guarantees to the server that feeds it, and where it departs from the
  protocol: the properties of \<^verbatim>\<open>http/HttpParser.cpp\<close> stated on a parser as
  \<open>HttpServer::onConnection\<close> creates it and \<open>HttpServer::onMessage\<close> feeds it.
\<close>

section \<open>A fresh parser\<close>

definition fresh :: HttpParser where
  "fresh = HttpParser_new (HttpRequest_new Method_Invalid Unknow) (HttpResponse_new Unknow OK200) True"

lemma feed_fresh [simp]: "feed (HttpParser_new rq rs alive) s = (HttpParser_new rq rs alive)\<lparr>input := s\<rparr>"
  by (simp add: feed_def hasData_def appendInput_def HttpParser_new_def)

lemma fed_idle: "idle (HttpParser_new rq rs alive\<lparr>input := s\<rparr>)"
  by (simp add: idle_def HttpParser_new_def)

lemma new_fields [simp]:
  "pos (HttpParser_new rq rs alive) = 0" "connAlive (HttpParser_new rq rs alive) = alive"
  "sent (HttpParser_new rq rs alive) = []" "connecting (HttpParser_new rq rs alive) = False"
  "checkState (HttpParser_new rq rs alive) = Check_RequestLine"
  "contentLength (HttpParser_new rq rs alive) = 0"
  "request (HttpParser_new rq rs alive) = rq" "filelen (HttpParser_new rq rs alive) = 0"
  by (simp_all add: HttpParser_new_def)

text \<open>Two requests and a file system with one page, for the witnesses.\<close>

definition get_hello :: http_req where
  "get_hello = \<lparr>rq_method = GET, rq_uri = ''/hello'', rq_version = Http11,
     rq_headers = [(''Connection'', ''keep-alive'')], rq_body = []\<rparr>"

definition post_page :: http_req where
  "post_page = \<lparr>rq_method = POST, rq_uri = ''/a.txt'', rq_version = Http10,
     rq_headers = [(''Content-Length'', ''2''), (''Connection'', ''Keep-Alive'')], rq_body = ''xy''\<rparr>"

definition one_page :: parser_env where
  "one_page = \<lparr>files = (\<lambda>n. if n = ''/home/yjh/www/html/a.txt''
       then Some \<lparr>otherRead = True, isDir = False, openable = True, st_size = 2, fdata = ''ok''\<rparr> else None),
     heapByte = NUL\<rparr>"

lemma get_hello_ok: "req_ok get_hello" "keep_of (rq_headers get_hello)"
  by (simp_all add: get_hello_def req_ok_def uri_ok_def clean_def header_ok_def clen_of_def keep_of_def)

lemma post_page_ok: "req_ok post_page" "keep_of (rq_headers post_page)"
  by (simp_all add: post_page_def req_ok_def uri_ok_def clean_def header_ok_def clen_of_def keep_of_def
      atoi_def is_space_def digit_val_def int_to_size_def Let_def)

section \<open>Requests that are read back\<close>



text \<open>C2: A pipeline of keep-alive requests that arrives in one message is answered completely
  and in order: \<open>process\<close> returns, it says that the connection stays open, and the messages
  sent are the replies to the requests, one each, in the order of the requests, nothing else.
  The premise on \<open>reply\<close> says that no served file makes the reply run over the end of its
  memory block.\<close>

theorem pipeline_replies:
  assumes "list_all req_ok rqs" "list_all (\<lambda>r. keep_of (rq_headers r)) rqs" "rqs \<noteq> []"
    and "list_all2 (\<lambda>r t. reply env r = Inr t) rqs texts"
    and "length (concat (map print_req rqs)) < size_mod"
  shows "\<exists>q. process env (feed (HttpParser_new rq rs True) (concat (map print_req rqs)))
      = Some (Inr (True, q)) \<and> sent q = texts"
proof -
  let ?p = "HttpParser_new rq rs True\<lparr>input := concat (map print_req rqs)\<rparr>"
  have "input ?p = [] @ concat (map print_req rqs)" "pos ?p = length ([] :: string)"
    "length (input ?p) < size_mod" "connAlive ?p" using assms(5) by simp_all
  from process_pipeline [OF fed_idle assms(1,2,4) this] show ?thesis
    using assms(3) by auto
qed

theorem pipeline_replies_witness:
  "\<exists>q. process one_page (feed fresh (print_req get_hello @ print_req post_page)) = Some (Inr (True, q))
     \<and> sent q =
        [''HTTP/1.1 200 OK'' @ CRLF @ ''Connection: keep-alive'' @ CRLF
           @ ''Content-Type: text/html'' @ CRLF @ CRLF @ ''Hello World!'' @ [LF],
         ''HTTP/1.0 200 OK'' @ CRLF @ ''Connection: keep-alive'' @ CRLF
           @ ''Content-Type: text/plain'' @ CRLF @ CRLF @ ''ok'']"
proof -
  let ?texts = "[''HTTP/1.1 200 OK'' @ CRLF @ ''Connection: keep-alive'' @ CRLF
           @ ''Content-Type: text/html'' @ CRLF @ CRLF @ ''Hello World!'' @ [LF],
         ''HTTP/1.0 200 OK'' @ CRLF @ ''Connection: keep-alive'' @ CRLF
           @ ''Content-Type: text/plain'' @ CRLF @ CRLF @ ''ok'']"
  have 1: "reply one_page get_hello = Inr (?texts ! 0)"
    by (simp add: reply_def serve_def get_hello_def reply_text_def status_text_def OK_line_def
        content_type_def find_last_of_def mime_def)
  have 2: "reply one_page post_page = Inr (?texts ! 1)"
    by (simp add: reply_def serve_def post_page_def one_page_def reply_text_def status_text_def OK_line_def
        content_type_def find_last_of_def mime_def mime_or_default_def RESOURCE_ROOT_def cstr_of_block_def)
  have r: "list_all2 (\<lambda>r t. reply one_page r = Inr t) [get_hello, post_page] ?texts"
    using 1 2 by simp
  have sz: "length (concat (map print_req [get_hello, post_page])) < size_mod"
    by (simp add: print_req_def print_head_def print_header_def post_page_def get_hello_def CRLF_def)
  show ?thesis
    using pipeline_replies [OF _ _ _ r sz] get_hello_ok post_page_ok unfolding fresh_def by simp
qed

section \<open>Whether the driver stops\<close>

text \<open>C19: \<open>process\<close> returns on every input in which carriage returns and line feeds come in
  pairs (a carriage return at the very end may still wait for its line feed), whatever the
  lines hold, from every state in which the position is inside the input.\<close>

theorem process_terminates:
  assumes "pos p \<le> length (input p)" "length (input p) < size_mod" "lines_ok (input p) (pos p)"
    and "checkState p = Check_Content \<longrightarrow> contentLength p \<noteq> 0"
  shows "\<exists>r. process env p = Some r"
  using process_returns [of p env] assms by (simp add: pinv_def)

theorem process_terminates_witness:
  "\<exists>r. process one_page (fresh\<lparr>input := ''x'' @ CRLF @ ''y'' @ [CR]\<rparr>) = Some r"
proof -
  have "lines_ok (''x'' @ CRLF @ ''y'' @ [CR]) 0"
    by (auto simp: lines_ok_def CRLF_def less_Suc_eq numeral_2_eq_2 numeral_3_eq_3)
  then show ?thesis
    using process_terminates [of "fresh\<lparr>input := ''x'' @ CRLF @ ''y'' @ [CR]\<rparr>" one_page]
    by (simp add: fresh_def CRLF_def)
qed

text \<open>C34: After a keep-alive request, a carriage return that no line feed follows keeps
  \<open>process\<close> in its loop for ever: the bad line is answered again and again, because no branch
  of \<open>Line_Bad\<close> moves \<open>pos_\<close>. The I/O thread of the connection never gets back to its event
  loop.\<close>

theorem keepalive_bad_line_hangs:
  assumes "req_ok r" "keep_of (rq_headers r)" "reply env r = Inr t" "c \<noteq> LF"
    and "length (print_req r @ CR # c # rest) < size_mod"
  shows "process env (feed (HttpParser_new rq rs alive) (print_req r @ CR # c # rest)) = None"
proof -
  let ?p = "HttpParser_new rq rs alive\<lparr>input := print_req r @ CR # c # rest\<rparr>"
  obtain st body where srv: "serve env (rq_method r) (rq_uri r) = Inr (st, body)"
    using assms(3) by (auto simp: reply_def)
  have inp: "input ?p = [] @ print_req r @ (CR # c # rest)" "pos ?p = length ([] :: string)"
    "length (input ?p) < size_mod" using assms(5) by simp_all
  obtain q pre' where q: "process_round env ?p = Inr (Again q)" "idle q" "connecting q"
    "input q = pre' @ CR # c # rest" "pos q = length pre'"
    using round_request [OF fed_idle assms(1) _ inp srv] assms(2) by blast
  have "stuck q" using q assms(4) by (simp add: stuck_def idle_def nth_append)
  then have "process env q = None" by (rule process_stuck)
  then show ?thesis using q(1) by (subst process.simps) simp
qed

theorem keepalive_bad_line_hangs_witness:
  "process one_page (feed fresh (print_req get_hello @ [CR, CHR ''x''])) = None"
proof -
  have "\<exists>t. reply one_page get_hello = Inr t" by (simp add: reply_def serve_def get_hello_def)
  then obtain t where t: "reply one_page get_hello = Inr t" ..
  have sz: "length (print_req get_hello @ [CR, CHR ''x'']) < size_mod"
    by (simp add: print_req_def print_head_def print_header_def get_hello_def CRLF_def)
  show ?thesis
    unfolding fresh_def
    by (rule keepalive_bad_line_hangs [OF get_hello_ok t _ sz]) simp
qed

section \<open>A request that closes the connection\<close>

lemma doRequest_overrun:
  assumes "fileName q = RESOURCE_ROOT" "filelen q = 0" "clean (req_uri (request q))"
    and "serve env (req_method (request q)) (req_uri (request q)) = Inl e"
  shows "\<exists>st q'. doRequest env q = (st, q') \<and> st \<noteq> NoRequest \<and> processWrite q' = Inl e"
proof -
  have "takeWhile (\<lambda>c. c \<noteq> NUL) (RESOURCE_ROOT @ req_uri (request q)) = RESOURCE_ROOT @ req_uri (request q)"
    using assms(3) by (intro takeWhile_eq_all_conv [THEN iffD2]) (auto simp: clean_def RESOURCE_ROOT_def)
  then have nm: "cstr_at (fileName q @ req_uri (request q)) 0 = RESOURCE_ROOT @ req_uri (request q)"
    using assms(1) by (simp add: cstr_at_def)
  show ?thesis
    using assms(2,4) nm
    by (auto simp: doRequest_def getMethod_def getURI_def getResource_def serve_def Let_def
        processWrite_text appendContent_def rbind_def split: if_splits option.splits sum.splits)
qed

text \<open>The result of \<open>process\<close> on one request without keep-alive.\<close>

lemma process_close:
  assumes ok: "req_ok r" "\<not> keep_of (rq_headers r)" "length (print_req r @ rest) < size_mod"
  shows "case serve env (rq_method r) (rq_uri r) of
      Inl e \<Rightarrow> process env (feed (HttpParser_new rq rs True) (print_req r @ rest)) = Some (Inl e)
    | Inr (st, body) \<Rightarrow> \<exists>q. process env (feed (HttpParser_new rq rs True) (print_req r @ rest)) = Some (Inr (False, q))
        \<and> sent q = [reply_text (rq_version r) st False (rq_uri r) body]"
proof -
  let ?p = "HttpParser_new rq rs True\<lparr>input := print_req r @ rest\<rparr>"
  have r: "rq_method r \<noteq> Method_Invalid" "rq_version r \<noteq> Unknow" "uri_ok (rq_uri r)"
    "list_all header_ok (rq_headers r)" "clen_of 0 (rq_headers r) = length (rq_body r)"
    using ok(1) by (simp_all add: req_ok_def)
  have inp: "input ?p = [] @ print_head (rq_method r) (rq_uri r) (rq_version r) (rq_headers r) @ rq_body r @ rest"
    "pos ?p = length ([] :: string)" "length (input ?p) < size_mod"
    "checkState ?p = Check_RequestLine" "contentLength ?p = 0"
    using ok(3) by (simp_all add: print_req_def)
  from processRead_printed [OF r(1-4) inp(4,5,1-3) r(5), of env] obtain q where
    rd: "processRead env ?p = Inr (doRequest env q)" and
    q: "req_method (request q) = rq_method r" "req_uri (request q) = rq_uri r" "\<not> connecting q"
       "res_version (response q) = rq_version r" "hp_output q = []" "fileName q = RESOURCE_ROOT"
       "filelen q = 0" "sent q = []" "connAlive q"
    using ok(2) by (auto simp: HttpParser_new_def)
  have cl: "clean (req_uri (request q))" using r(3) q(2) by (simp add: uri_ok_def)
  show ?thesis
  proof (cases "serve env (rq_method r) (rq_uri r)")
    case (Inl e)
    with doRequest_overrun [OF q(6,7) cl, of env e] q(1,2) rd show ?thesis
      by (subst process.simps) (auto simp: process_round_def)
  next
    case (Inr x)
    obtain st body where x: "x = (st, body)" by fastforce
    with Inr doRequest_reply [OF q(6,7) cl, of env st body] q rd show ?thesis
      by (subst process.simps) (auto simp: process_round_def Let_def)
  qed
qed

text \<open>C23: A request without keep-alive gets one reply, the status line, headers and body that
  \<open>serve\<close> specifies for its method and path, and \<open>process\<close> answers false, upon which the
  server shuts the connection down; what follows the request in the input is ignored. If the
  reply would run over the end of the file's memory block, \<open>process\<close> ends in that fault.\<close>

theorem close_request_reply:
  assumes "req_ok r" "\<not> keep_of (rq_headers r)" "length (print_req r @ rest) < size_mod"
  shows "case serve env (rq_method r) (rq_uri r) of
      Inl e \<Rightarrow> process env (feed (HttpParser_new rq rs True) (print_req r @ rest)) = Some (Inl e)
    | Inr (st, body) \<Rightarrow> \<exists>q. process env (feed (HttpParser_new rq rs True) (print_req r @ rest)) = Some (Inr (False, q))
        \<and> sent q = [reply_text (rq_version r) st False (rq_uri r) body]"
  by (rule process_close [OF assms])

theorem close_request_reply_witness:
  "\<exists>q. process one_page (feed fresh (print_req (get_hello\<lparr>rq_uri := ''/b'', rq_headers := []\<rparr>) @ ''x''))
       = Some (Inr (False, q))
     \<and> sent q = [''HTTP/1.1 404 Not Found'' @ CRLF @ ''Connection: close'' @ CRLF
         @ ''Content-Type: text/html'' @ CRLF @ CRLF @ NotFound404_Form]"
proof -
  let ?r = "get_hello\<lparr>rq_uri := ''/b'', rq_headers := []\<rparr>"
  have ok: "req_ok ?r" "\<not> keep_of (rq_headers ?r)"
    by (simp_all add: get_hello_def req_ok_def uri_ok_def clean_def clen_of_def keep_of_def)
  have sz: "length (print_req ?r @ ''x'') < size_mod"
    by (simp add: print_req_def print_head_def get_hello_def CRLF_def)
  have srv: "serve one_page (rq_method ?r) (rq_uri ?r) = Inr (NotFound, NotFound404_Form)"
    by (simp add: get_hello_def serve_def one_page_def RESOURCE_ROOT_def)
  have text_eq: "reply_text (rq_version ?r) NotFound False (rq_uri ?r) NotFound404_Form =
      ''HTTP/1.1 404 Not Found'' @ CRLF @ ''Connection: close'' @ CRLF
         @ ''Content-Type: text/html'' @ CRLF @ CRLF @ NotFound404_Form"
    by (simp add: reply_text_def get_hello_def status_text_def NOTFOUND_def content_type_def
        find_last_of_def mime_def)
  show ?thesis
    using close_request_reply [OF ok sz, of one_page, unfolded srv, simplified sum.case prod.case text_eq]
    unfolding fresh_def by simp
qed

text \<open>A \<open>HEAD\<close> request is answered with the status 200, headers without any
  Content-Length, and the error page of a bad request as a body: the condition
  \<open>state_ != OnlyHead || state_ != NoRequest\<close> in \<open>processWrite\<close> holds always.\<close>

theorem head_reply_has_error_body:
  assumes "req_ok r" "rq_method r = HEAD" "\<not> keep_of (rq_headers r)"
    and "length (print_req r @ rest) < size_mod"
  shows "\<exists>q. process env (feed (HttpParser_new rq rs True) (print_req r @ rest)) = Some (Inr (False, q))
    \<and> sent q = [(if rq_version r = Http10 then ''HTTP/1.0 '' else ''HTTP/1.1 '') @ ''200 OK'' @ CRLF
         @ ''Connection: close'' @ CRLF @ ''Content-Type: '' @ content_type (rq_uri r) @ CRLF
         @ BadRequest400_Form]"
  using process_close [OF assms(1,3,4), of env] assms(2)
  by (simp add: serve_def reply_text_def status_text_def OK_line_def)

theorem head_reply_has_error_body_witness:
  "\<exists>q. process one_page (feed fresh (print_req (get_hello\<lparr>rq_method := HEAD, rq_headers := []\<rparr>)))
       = Some (Inr (False, q))
     \<and> sent q = [''HTTP/1.1 200 OK'' @ CRLF @ ''Connection: close'' @ CRLF
         @ ''Content-Type: text/html'' @ CRLF @ CRLF @ BadRequest400_Form]"
proof -
  let ?r = "get_hello\<lparr>rq_method := HEAD, rq_headers := []\<rparr>"
  have ok: "req_ok ?r" "rq_method ?r = HEAD" "\<not> keep_of (rq_headers ?r)"
    by (simp_all add: get_hello_def req_ok_def uri_ok_def clean_def clen_of_def keep_of_def)
  have sz: "length (print_req ?r @ []) < size_mod"
    by (simp add: print_req_def print_head_def get_hello_def CRLF_def)
  have ct: "content_type ''/hello'' = ''text/html'' @ CRLF"
    by (simp add: content_type_def find_last_of_def mime_def)
  show ?thesis
    using head_reply_has_error_body [OF ok sz, of one_page] ct unfolding fresh_def
    by (simp add: get_hello_def)
qed

text \<open>A file is sent as a C string: of a readable, non-empty regular file the client gets
  the bytes before its first zero byte. A file without a zero byte is sent whole if the byte
  behind the block \<open>fread\<close> filled happens to be zero; otherwise the append runs over the end
  of the allocated block.\<close>

theorem file_served_as_c_string:
  assumes "req_ok r" "rq_method r = GET" "\<not> keep_of (rq_headers r)" "length (print_req r) < size_mod"
    and "rq_uri r \<noteq> ''/hello''" "files env (RESOURCE_ROOT @ rq_uri r) = Some f"
    and "otherRead f" "\<not> isDir f" "openable f" "0 < st_size f" "st_size f = length (fdata f)"
  shows "if NUL \<in> set (fdata f) \<or> heapByte env = NUL
    then \<exists>q. process env (feed (HttpParser_new rq rs True) (print_req r)) = Some (Inr (False, q))
      \<and> sent q = [reply_text (rq_version r) GetResource False (rq_uri r)
            (takeWhile (\<lambda>c. c \<noteq> NUL) (fdata f))]
    else process env (feed (HttpParser_new rq rs True) (print_req r)) = Some (Inl OutOfBounds)"
proof -
  have tw: "takeWhile (\<lambda>c. c \<noteq> NUL) (fdata f @ [heapByte env]) = takeWhile (\<lambda>c. c \<noteq> NUL) (fdata f)"
    if "NUL \<in> set (fdata f) \<or> heapByte env = NUL"
    using that by (cases "NUL \<in> set (fdata f)") (auto simp: takeWhile_tail)
  have "serve env (rq_method r) (rq_uri r) = (if NUL \<in> set (fdata f) \<or> heapByte env = NUL
      then Inr (GetResource, takeWhile (\<lambda>c. c \<noteq> NUL) (fdata f)) else Inl OutOfBounds)"
    using assms(2,5-) tw by (auto simp: serve_def cstr_of_block_def)
  then show ?thesis
    using process_close [of r "[]" env rq rs] assms(1,3,4) by (auto split: if_splits)
qed

theorem file_served_as_c_string_witness:
  "\<exists>q. process one_page (feed fresh (print_req (get_hello\<lparr>rq_uri := ''/a.txt'', rq_headers := []\<rparr>)))
       = Some (Inr (False, q))
     \<and> sent q = [reply_text Http11 GetResource False ''/a.txt'' ''ok'']"
proof -
  let ?r = "get_hello\<lparr>rq_uri := ''/a.txt'', rq_headers := []\<rparr>"
  let ?f = "\<lparr>otherRead = True, isDir = False, openable = True, st_size = 2, fdata = ''ok''\<rparr>"
  have ok: "req_ok ?r" "rq_method ?r = GET" "\<not> keep_of (rq_headers ?r)" "rq_uri ?r \<noteq> ''/hello''"
    by (simp_all add: get_hello_def req_ok_def uri_ok_def clean_def clen_of_def keep_of_def)
  have sz: "length (print_req ?r) < size_mod"
    by (simp add: print_req_def print_head_def get_hello_def CRLF_def)
  have f: "files one_page (RESOURCE_ROOT @ rq_uri ?r) = Some ?f"
    by (simp add: one_page_def RESOURCE_ROOT_def get_hello_def)
  show ?thesis
    using file_served_as_c_string [OF ok(1-3) sz ok(4) f] unfolding fresh_def
    by (simp add: one_page_def get_hello_def)
qed

section \<open>Requests that arrive in pieces\<close>

lemma scan_open:
  assumes "CR \<notin> set s" "LF \<notin> set s"
  shows "parseLine_scan (pre @ s) (length pre) = Inr (Line_Open, pre @ s, length (pre @ s))"
  using assms
proof (induction s arbitrary: pre)
  case Nil
  then show ?case by (subst parseLine_scan.simps) simp
next
  case (Cons c s)
  have "parseLine_scan (pre @ c # s) (length pre) = parseLine_scan ((pre @ [c]) @ s) (length (pre @ [c]))"
    using Cons.prems by (subst parseLine_scan.simps) auto
  then show ?case using Cons.IH [of "pre @ [c]"] Cons.prems by simp
qed

text \<open>C40: A request whose first line arrives in two pieces is lost: after the first piece
  \<open>process\<close> sends nothing and answers with the keep-alive flag, which is still false on a new
  connection, so the server shuts it down; and the next \<open>onMessage\<close> replaces the piece by the
  new data instead of appending to it, because \<open>hasData\<close> is true only for an empty input.\<close>

theorem split_request_is_dropped:
  assumes "checkState p = Check_RequestLine" "input p = pre @ s" "pos p = length pre"
    and "s \<noteq> []" "CR \<notin> set s" "LF \<notin> set s"
  shows "\<exists>q. process env p = Some (Inr (connecting p, q)) \<and> sent q = sent p
    \<and> input (feed q t) = t \<and> pos (feed q t) = 0"
proof -
  let ?q = "p\<lparr>pos := length (pre @ s), hp_state := NoRequest\<rparr>"
  have "parseLine p = Inr (Line_Open, p\<lparr>pos := length (pre @ s)\<rparr>)"
    using assms scan_open [of s pre] by (simp add: parseLine_def)
  then have "processRead env p = Inr (NoRequest, ?q)"
    using assms by (simp add: processRead_def processRead_loop.simps loop_test_def)
  then have "process env p = Some (Inr (connecting p, ?q))"
    by (subst process.simps) (simp add: process_round_def)
  then show ?thesis using assms(2,4) by (simp add: feed_def hasData_def newInput_def)
qed

theorem split_request_is_dropped_witness:
  "\<exists>q. process one_page (feed fresh ''GET /hel'') = Some (Inr (False, q)) \<and> sent q = []
     \<and> input (feed q ''lo HTTP/1.1'') = ''lo HTTP/1.1''"
proof -
  have "checkState (feed fresh ''GET /hel'') = Check_RequestLine"
    "input (feed fresh ''GET /hel'') = [] @ ''GET /hel''"
    "pos (feed fresh ''GET /hel'') = length ([] :: string)" "\<not> connecting (feed fresh ''GET /hel'')"
    "sent (feed fresh ''GET /hel'') = []"
    by (simp_all add: fresh_def)
  with split_request_is_dropped [of "feed fresh ''GET /hel''" "[]" "''GET /hel''" one_page "''lo HTTP/1.1''"]
  show ?thesis by auto
qed

text \<open>A line feed as the first byte of a connection makes \<open>parseLine\<close> read the character
  before the start of the input.\<close>

theorem leading_line_feed_out_of_bounds:
  "process env (feed (HttpParser_new rq rs alive) (LF # rest)) = Some (Inl OutOfBounds)"
proof -
  have "parseLine (HttpParser_new rq rs alive\<lparr>input := LF # rest\<rparr>) = Inl OutOfBounds"
    by (simp add: parseLine_def parseLine_scan.simps)
  then have "processRead env (HttpParser_new rq rs alive\<lparr>input := LF # rest\<rparr>) = Inl OutOfBounds"
    by (simp add: processRead_def processRead_loop.simps loop_test_def)
  then show ?thesis by (subst process.simps) (simp add: process_round_def)
qed

end
