(* ===== verification/Buffer.thy ===== *)
theory Buffer
  imports Prelude
begin

text \<open>
  The application-level byte buffer of \<^verbatim>\<open>Buffer.h\<close> and \<^verbatim>\<open>Buffer.cpp\<close>: a vector of bytes with a
  read index and a write index. The readable bytes lie between the two indices; the bytes
  before the read index are the prependable space, those from the write index on the
  writeable space. A pointer into the buffer is modelled by its offset from \<open>begin()\<close>.
  The operations follow the code line by line, asserts included; \<open>contents\<close> is the
  abstraction, the sequence of readable bytes, and each operation is related to the
  operation on sequences it promises.
\<close>

section \<open>State and accessors\<close>

record buffer =
  bufData :: "char list"
  readIndex :: nat
  writeIndex :: nat

definition CheapPrepend :: nat where
  "CheapPrepend = 8"

definition InitialSize :: nat where
  "InitialSize = 1024"

definition readableBytes :: "buffer \<Rightarrow> nat" where
  "readableBytes b = szsub (writeIndex b) (readIndex b)"

definition writeableBytes :: "buffer \<Rightarrow> nat" where
  "writeableBytes b = szsub (length (bufData b)) (writeIndex b)"

definition prependableBytes :: "buffer \<Rightarrow> nat" where
  "prependableBytes b = readIndex b"

definition peek :: "buffer \<Rightarrow> nat" where
  "peek b = readIndex b"

definition beginWrite :: "buffer \<Rightarrow> nat" where
  "beginWrite b = writeIndex b"

definition Buffer_new :: "bool \<Rightarrow> nat \<Rightarrow> buffer res" where
  "Buffer_new nd initialSize =
     (let n = szadd CheapPrepend initialSize in
      if ptrdiff_max < n then Inl LengthError
      else let b = \<lparr>bufData = replicate n (CHR 0x00),
                    readIndex = CheapPrepend, writeIndex = CheapPrepend\<rparr> in
        rbind (cassert nd (readableBytes b = 0)) (\<lambda>_.
        rbind (cassert nd (writeableBytes b = initialSize)) (\<lambda>_.
        rbind (cassert nd (prependableBytes b = CheapPrepend)) (\<lambda>_. Inr b))))"

section \<open>Moving the indices\<close>

definition hasWritten :: "bool \<Rightarrow> buffer \<Rightarrow> nat \<Rightarrow> buffer res" where
  "hasWritten nd b len =
     rbind (cassert nd (len \<le> writeableBytes b)) (\<lambda>_.
     Inr (b\<lparr>writeIndex := szadd (writeIndex b) len\<rparr>))"

definition unWrites :: "bool \<Rightarrow> buffer \<Rightarrow> nat \<Rightarrow> buffer res" where
  "unWrites nd b len =
     rbind (cassert nd (len \<le> readableBytes b)) (\<lambda>_.
     Inr (b\<lparr>writeIndex := szsub (writeIndex b) len\<rparr>))"

definition Buffer_swap :: "buffer \<Rightarrow> buffer \<Rightarrow> buffer \<times> buffer" where
  "Buffer_swap a b = (b, a)"

definition retrieveAll :: "buffer \<Rightarrow> buffer" where
  "retrieveAll b = b\<lparr>readIndex := CheapPrepend, writeIndex := CheapPrepend\<rparr>"

definition retrieve :: "bool \<Rightarrow> buffer \<Rightarrow> nat \<Rightarrow> buffer res" where
  "retrieve nd b len =
     rbind (cassert nd (len \<le> readableBytes b)) (\<lambda>_.
     if len < readableBytes b
     then Inr (b\<lparr>readIndex := szadd (readIndex b) len\<rparr>)
     else Inr (retrieveAll b))"

definition retrieveUntil :: "bool \<Rightarrow> buffer \<Rightarrow> nat \<Rightarrow> buffer res" where
  "retrieveUntil nd b endp =
     rbind (cassert nd (peek b < endp)) (\<lambda>_.
     rbind (cassert nd (endp \<le> beginWrite b)) (\<lambda>_.
     retrieve nd b (szsub endp (peek b))))"

definition retrieveInt64 :: "bool \<Rightarrow> buffer \<Rightarrow> buffer res" where
  "retrieveInt64 nd b = retrieve nd b 8"

definition retrieveInt32 :: "bool \<Rightarrow> buffer \<Rightarrow> buffer res" where
  "retrieveInt32 nd b = retrieve nd b 4"

definition retrieveInt16 :: "bool \<Rightarrow> buffer \<Rightarrow> buffer res" where
  "retrieveInt16 nd b = retrieve nd b 2"

definition retrieveInt8 :: "bool \<Rightarrow> buffer \<Rightarrow> buffer res" where
  "retrieveInt8 nd b = retrieve nd b 1"

definition retrieveAsString :: "bool \<Rightarrow> buffer \<Rightarrow> nat \<Rightarrow> (string \<times> buffer) res" where
  "retrieveAsString nd b len =
     rbind (cassert nd (len \<le> readableBytes b)) (\<lambda>_.
     rbind (mem_read (bufData b) (peek b) len) (\<lambda>result.
     rbind (retrieve nd b len) (\<lambda>b'. Inr (result, b'))))"

definition retrieveAllAsString :: "bool \<Rightarrow> buffer \<Rightarrow> (string \<times> buffer) res" where
  "retrieveAllAsString nd b = retrieveAsString nd b (readableBytes b)"

definition toStringPiece :: "buffer \<Rightarrow> string res" where
  "toStringPiece b = mem_read (bufData b) (peek b) (readableBytes b)"

section \<open>Reading integers\<close>

definition peekInt64 :: "bool \<Rightarrow> buffer \<Rightarrow> 64 word res" where
  "peekInt64 nd b =
     rbind (cassert nd (8 \<le> readableBytes b)) (\<lambda>_.
     rbind (mem_read (bufData b) (peek b) 8) (\<lambda>m.
     Inr (word_of_nat (bswap 8 (of_le m)))))"

definition peekInt32 :: "bool \<Rightarrow> buffer \<Rightarrow> 32 word res" where
  "peekInt32 nd b =
     rbind (cassert nd (4 < readableBytes b)) (\<lambda>_.
     rbind (mem_read (bufData b) (peek b) 4) (\<lambda>m.
     Inr (word_of_nat (bswap 4 (of_le m)))))"

definition peekInt16 :: "bool \<Rightarrow> buffer \<Rightarrow> 16 word res" where
  "peekInt16 nd b =
     rbind (cassert nd (2 < readableBytes b)) (\<lambda>_.
     rbind (mem_read (bufData b) (peek b) 2) (\<lambda>m.
     Inr (word_of_nat (bswap 2 (of_le m)))))"

definition peekInt8 :: "bool \<Rightarrow> buffer \<Rightarrow> 8 word res" where
  "peekInt8 nd b =
     rbind (cassert nd (1 < readableBytes b)) (\<lambda>_.
     rbind (mem_read (bufData b) (peek b) 1) (\<lambda>m.
     Inr (word_of_nat (of_le m))))"

text \<open>\<open>readInt64\<close> takes its value from \<open>peekInt16\<close>, sign-extended to 64 bits.\<close>

definition readInt64 :: "bool \<Rightarrow> buffer \<Rightarrow> (64 word \<times> buffer) res" where
  "readInt64 nd b =
     rbind (peekInt16 nd b) (\<lambda>x.
     rbind (retrieveInt64 nd b) (\<lambda>b'. Inr (scast x, b')))"

definition readInt32 :: "bool \<Rightarrow> buffer \<Rightarrow> (32 word \<times> buffer) res" where
  "readInt32 nd b =
     rbind (peekInt32 nd b) (\<lambda>x.
     rbind (retrieveInt32 nd b) (\<lambda>b'. Inr (x, b')))"

definition readInt16 :: "bool \<Rightarrow> buffer \<Rightarrow> (16 word \<times> buffer) res" where
  "readInt16 nd b =
     rbind (peekInt16 nd b) (\<lambda>x.
     rbind (retrieveInt16 nd b) (\<lambda>b'. Inr (x, b')))"

definition readInt8 :: "bool \<Rightarrow> buffer \<Rightarrow> (8 word \<times> buffer) res" where
  "readInt8 nd b =
     rbind (peekInt8 nd b) (\<lambda>x.
     rbind (retrieveInt8 nd b) (\<lambda>b'. Inr (x, b')))"

section \<open>Making room and appending\<close>

definition vector_resize :: "char list \<Rightarrow> nat \<Rightarrow> char list res" where
  "vector_resize xs n =
     (if ptrdiff_max < n then Inl LengthError
      else Inr (take n xs @ replicate (n - length xs) (CHR 0x00)))"

text \<open>
  In the second branch the two subtractions both call \<open>prependableBytes()\<close>: the second
  call sees the read index the first one has already set to zero.
\<close>

definition makeSpace :: "bool \<Rightarrow> buffer \<Rightarrow> nat \<Rightarrow> buffer res" where
  "makeSpace nd b len =
     (if szadd (writeableBytes b) (prependableBytes b) < szadd len CheapPrepend
      then rbind (vector_resize (bufData b) (szadd (writeIndex b) len)) (\<lambda>d.
           Inr (b\<lparr>bufData := d\<rparr>))
      else
        let readable = readableBytes b in
        rbind (mem_read (bufData b) (readIndex b) (szsub (writeIndex b) (readIndex b))) (\<lambda>src.
        rbind (mem_write (bufData b) CheapPrepend src) (\<lambda>d.
        let b1 = b\<lparr>bufData := d\<rparr>;
            b2 = b1\<lparr>readIndex := szsub (readIndex b1) (prependableBytes b1)\<rparr>;
            b3 = b2\<lparr>writeIndex := szsub (writeIndex b2) (prependableBytes b2)\<rparr> in
        rbind (cassert nd (readableBytes b3 = readable)) (\<lambda>_. Inr b3))))"

definition ensureWritableBytes :: "bool \<Rightarrow> buffer \<Rightarrow> nat \<Rightarrow> buffer res" where
  "ensureWritableBytes nd b len =
     rbind (if writeableBytes b < len then makeSpace nd b len else Inr b) (\<lambda>b'.
     rbind (cassert nd (len \<le> writeableBytes b')) (\<lambda>_. Inr b'))"

definition Buffer_append :: "bool \<Rightarrow> buffer \<Rightarrow> char list \<Rightarrow> buffer res" where
  "Buffer_append nd b data =
     rbind (ensureWritableBytes nd b (length data)) (\<lambda>b1.
     rbind (mem_write (bufData b1) (beginWrite b1) data) (\<lambda>d.
     hasWritten nd (b1\<lparr>bufData := d\<rparr>) (length data)))"

definition appendInt64 :: "bool \<Rightarrow> buffer \<Rightarrow> 64 word \<Rightarrow> buffer res" where
  "appendInt64 nd b x = Buffer_append nd b (le_bytes 8 (bswap 8 (unat x)))"

definition appendInt32 :: "bool \<Rightarrow> buffer \<Rightarrow> 32 word \<Rightarrow> buffer res" where
  "appendInt32 nd b x = Buffer_append nd b (le_bytes 4 (bswap 4 (unat x)))"

definition appendInt16 :: "bool \<Rightarrow> buffer \<Rightarrow> 16 word \<Rightarrow> buffer res" where
  "appendInt16 nd b x = Buffer_append nd b (le_bytes 2 (bswap 2 (unat x)))"

definition appendInt8 :: "bool \<Rightarrow> buffer \<Rightarrow> 8 word \<Rightarrow> buffer res" where
  "appendInt8 nd b x = Buffer_append nd b (le_bytes 1 (unat x))"

section \<open>Prepending, shrinking, reading from a descriptor\<close>

definition prepend :: "bool \<Rightarrow> buffer \<Rightarrow> char list \<Rightarrow> buffer res" where
  "prepend nd b data =
     rbind (cassert nd (length data \<le> prependableBytes b)) (\<lambda>_.
     let b1 = b\<lparr>readIndex := szsub (readIndex b) (length data)\<rparr> in
     rbind (mem_write (bufData b1) (readIndex b1) data) (\<lambda>d.
     Inr (b1\<lparr>bufData := d\<rparr>)))"

definition prependInt64 :: "bool \<Rightarrow> buffer \<Rightarrow> 64 word \<Rightarrow> buffer res" where
  "prependInt64 nd b x = prepend nd b (le_bytes 8 (bswap 8 (unat x)))"

definition prependInt32 :: "bool \<Rightarrow> buffer \<Rightarrow> 32 word \<Rightarrow> buffer res" where
  "prependInt32 nd b x = prepend nd b (le_bytes 4 (bswap 4 (unat x)))"

definition prependInt16 :: "bool \<Rightarrow> buffer \<Rightarrow> 16 word \<Rightarrow> buffer res" where
  "prependInt16 nd b x = prepend nd b (le_bytes 2 (bswap 2 (unat x)))"

definition prependInt8 :: "bool \<Rightarrow> buffer \<Rightarrow> 8 word \<Rightarrow> buffer res" where
  "prependInt8 nd b x = prepend nd b (le_bytes 1 (unat x))"

definition shrink :: "bool \<Rightarrow> buffer \<Rightarrow> nat \<Rightarrow> buffer res" where
  "shrink nd b reserve =
     rbind (Buffer_new nd InitialSize) (\<lambda>other.
     rbind (ensureWritableBytes nd other (szadd (readableBytes b) reserve)) (\<lambda>other.
     rbind (toStringPiece b) (\<lambda>s.
     rbind (Buffer_append nd other s) (\<lambda>other.
     Inr (fst (Buffer_swap b other))))))"

text \<open>
  \<open>readv\<close> is the kernel's: its outcome is an argument, either an errno or the bytes it
  delivered. It fills the writeable space first and the 65535 bytes of \<open>extrabuf\<close> after it,
  so it delivers at most that much. The result pairs the return value \<open>n\<close> (with the errno
  stored through \<open>saveErrno\<close> when it is negative) with the buffer.
\<close>

definition extrabuf_size :: nat where
  "extrabuf_size = 65535"

datatype readv_result = ReadError int | ReadBytes "char list"

definition readFd :: "bool \<Rightarrow> buffer \<Rightarrow> readv_result \<Rightarrow> ((int \<times> int option) \<times> buffer) res" where
  "readFd nd b r =
     (case r of
        ReadError e \<Rightarrow> Inr ((-1, Some e), b)
      | ReadBytes bs \<Rightarrow>
          let writeable = writeableBytes b; n = length bs in
          rbind (mem_write (bufData b) (writeIndex b) (take writeable bs)) (\<lambda>d.
          let b1 = b\<lparr>bufData := d\<rparr> in
          if n \<le> writeable
          then Inr ((int n, None), b1\<lparr>writeIndex := szadd (writeIndex b1) n\<rparr>)
          else rbind (Buffer_append nd (b1\<lparr>writeIndex := length (bufData b1)\<rparr>) (drop writeable bs))
                 (\<lambda>b2. Inr ((int n, None), b2))))"

section \<open>Abstraction and invariant\<close>

definition contents :: "buffer \<Rightarrow> char list" where
  "contents b = take (writeIndex b - readIndex b) (drop (readIndex b) (bufData b))"

definition binv :: "buffer \<Rightarrow> bool" where
  "binv b \<longleftrightarrow> readIndex b \<le> writeIndex b \<and> writeIndex b \<le> length (bufData b)
     \<and> CheapPrepend \<le> length (bufData b) \<and> length (bufData b) \<le> ptrdiff_max"

text \<open>The second branch of \<open>makeSpace\<close>: no room at the end, enough with the prependable space.\<close>

definition compacting :: "buffer \<Rightarrow> nat \<Rightarrow> bool" where
  "compacting b n \<longleftrightarrow> writeableBytes b < n
     \<and> n + CheapPrepend \<le> writeableBytes b + prependableBytes b"

definition roomFor :: "buffer \<Rightarrow> nat \<Rightarrow> bool" where
  "roomFor b n \<longleftrightarrow> \<not> compacting b n \<and> (n \<le> writeableBytes b \<or> writeIndex b + n \<le> ptrdiff_max)"

lemmas buffer_access_defs = readableBytes_def writeableBytes_def prependableBytes_def
  peek_def beginWrite_def CheapPrepend_def

lemma binvD:
  assumes "binv b"
  shows "readIndex b \<le> writeIndex b" "writeIndex b \<le> length (bufData b)"
    "8 \<le> length (bufData b)" "length (bufData b) \<le> ptrdiff_max"
  using assms by (auto simp: binv_def CheapPrepend_def)

lemma length_contents: "binv b \<Longrightarrow> length (contents b) = writeIndex b - readIndex b"
  by (auto simp: binv_def contents_def)

lemma readable_contents: "binv b \<Longrightarrow> readableBytes b = length (contents b)"
  by (simp add: length_contents readableBytes_def binvD)

lemma writeable_eq: "binv b \<Longrightarrow> writeableBytes b = length (bufData b) - writeIndex b"
  by (auto simp: binv_def writeableBytes_def)

lemma read_contents: "binv b \<Longrightarrow> mem_read (bufData b) (peek b) (readableBytes b) = Inr (contents b)"
  by (auto simp: binv_def readableBytes_def contents_def peek_def)

lemma contents_prefix:
  "binv b \<Longrightarrow> n \<le> length (contents b) \<Longrightarrow>
   mem_read (bufData b) (peek b) n = Inr (take n (contents b))"
  using binvD [of b] length_contents [of b]
  by (auto simp: contents_def peek_def min_absorb1)

lemma contents_retrieveAll [simp]: "contents (retrieveAll b) = []"
  by (simp add: retrieveAll_def contents_def)

section \<open>Construction and retrieval\<close>

lemma Buffer_new_ok:
  assumes "n \<le> ptrdiff_max - 8"
  shows "\<exists>b. Buffer_new nd n = Inr b \<and> binv b \<and> contents b = [] \<and> writeableBytes b = n
           \<and> readIndex b = CheapPrepend"
  using assms
  by (simp add: Buffer_new_def Let_def szadd_def binv_def contents_def buffer_access_defs)

lemma hasWritten_inv:
  "binv b \<Longrightarrow> len \<le> writeableBytes b \<Longrightarrow>
   hasWritten nd b len = Inr (b\<lparr>writeIndex := writeIndex b + len\<rparr>) \<and>
   binv (b\<lparr>writeIndex := writeIndex b + len\<rparr>)"
  by (auto simp: hasWritten_def binv_def writeableBytes_def szadd_def)

lemma unWrites_contents:
  assumes "binv b" "len \<le> length (contents b)"
  shows "\<exists>b'. unWrites nd b len = Inr b' \<and> binv b' \<and>
           contents b' = take (length (contents b) - len) (contents b)"
proof -
  let ?b' = "b\<lparr>writeIndex := writeIndex b - len\<rparr>"
  from assms have len: "len \<le> writeIndex b - readIndex b" by (simp add: length_contents)
  with assms have "unWrites nd b len = Inr ?b'"
    by (simp add: unWrites_def readable_contents szsub_def)
  moreover from assms len have "binv ?b'" by (auto simp: binv_def)
  moreover from assms(1) len have "contents ?b' = take (length (contents b) - len) (contents b)"
    by (subst length_contents) (auto simp: contents_def min_def add.commute)
  ultimately show ?thesis by auto
qed

lemma retrieve_contents:
  assumes "binv b" "len \<le> length (contents b)"
  shows "\<exists>b'. retrieve nd b len = Inr b' \<and> binv b' \<and> contents b' = drop len (contents b)
           \<and> bufData b' = bufData b
           \<and> readIndex b' = (if len < length (contents b) then readIndex b + len else CheapPrepend)"
proof (cases "len < length (contents b)")
  case True
  let ?b' = "b\<lparr>readIndex := readIndex b + len\<rparr>"
  from True assms(1) have len: "len < writeIndex b - readIndex b" by (simp add: length_contents)
  with True assms binvD [of b] have "retrieve nd b len = Inr ?b'"
    by (simp add: retrieve_def readable_contents szadd_exact)
  moreover from len assms have "binv ?b'" by (auto simp: binv_def)
  moreover have "contents ?b' = drop len (contents b)"
    by (simp add: contents_def drop_take add.commute)
  ultimately show ?thesis using True by auto
next
  case False
  with assms have "retrieve nd b len = Inr (retrieveAll b)"
    by (simp add: retrieve_def readable_contents)
  moreover from assms have "binv (retrieveAll b)"
    by (simp add: binv_def retrieveAll_def)
  ultimately show ?thesis using False
    by (simp add: retrieveAll_def contents_def [of "retrieveAll b", unfolded retrieveAll_def])
qed

section \<open>Appending\<close>

lemma contents_mem_write:
  assumes "binv b" "writeIndex b + length data \<le> length (bufData b)"
    and d: "mem_write (bufData b) (writeIndex b) data = Inr d"
  shows "contents (b\<lparr>bufData := d, writeIndex := writeIndex b + length data\<rparr>) = contents b @ data"
proof -
  from assms have "d = take (writeIndex b) (bufData b) @ data @ drop (writeIndex b + length data) (bufData b)"
    by simp
  with assms binvD [of b] show ?thesis by (simp add: contents_def drop_take)
qed

lemma append_in_place:
  assumes "binv b" "length data \<le> writeableBytes b"
  shows "\<exists>b'. Buffer_append nd b data = Inr b' \<and> binv b' \<and> contents b' = contents b @ data
           \<and> readIndex b' = readIndex b \<and> writeIndex b' = writeIndex b + length data
           \<and> length (bufData b') = length (bufData b)"
proof -
  from assms have fits: "writeIndex b + length data \<le> length (bufData b)"
    by (auto simp: writeable_eq dest: binvD)
  let ?d = "take (writeIndex b) (bufData b) @ data @ drop (writeIndex b + length data) (bufData b)"
  let ?b' = "b\<lparr>bufData := ?d, writeIndex := writeIndex b + length data\<rparr>"
  from assms fits have w: "mem_write (bufData b) (writeIndex b) data = Inr ?d" by simp
  from assms(1) fits have inv: "binv (b\<lparr>bufData := ?d\<rparr>)" by (auto simp: binv_def)
  have "Buffer_append nd b data = Inr ?b'"
    using assms fits w binvD [OF assms(1)] inv
    by (simp add: Buffer_append_def ensureWritableBytes_def beginWrite_def hasWritten_def
        writeable_eq szadd_exact)
  moreover from inv fits have "binv ?b'" by (auto simp: binv_def)
  moreover have "contents ?b' = contents b @ data"
    using contents_mem_write [OF assms(1) fits w] .
  ultimately show ?thesis using fits by simp
qed

text \<open>After growing, the buffer is the old one with zero bytes added at the end.\<close>

lemma makeSpace_grows:
  assumes "binv b" "\<not> compacting b n" "writeableBytes b < n" "writeIndex b + n \<le> ptrdiff_max"
  shows "\<exists>d. makeSpace nd b n = Inr (b\<lparr>bufData := d\<rparr>) \<and> length d = writeIndex b + n
           \<and> take (length (bufData b)) d = bufData b"
proof -
  from assms binvD [OF assms(1)] have branch:
    "szadd (writeableBytes b) (prependableBytes b) < szadd n CheapPrepend"
    by (auto simp: compacting_def writeable_eq szadd_def prependableBytes_def CheapPrepend_def)
  from assms binvD [OF assms(1)] have grow: "length (bufData b) < writeIndex b + n"
    by (simp add: writeable_eq)
  show ?thesis
    using branch grow assms(4)
    by (intro exI [of _ "bufData b @ replicate (writeIndex b + n - length (bufData b)) (CHR 0x00)"])
       (simp add: makeSpace_def vector_resize_def szadd_exact)
qed

lemma append_growing:
  assumes "binv b" "\<not> compacting b (length data)" "writeableBytes b < length data"
    and "writeIndex b + length data \<le> ptrdiff_max"
  shows "\<exists>b'. Buffer_append nd b data = Inr b' \<and> binv b' \<and> contents b' = contents b @ data
           \<and> readIndex b' = readIndex b \<and> writeIndex b' = writeIndex b + length data
           \<and> length (bufData b') = writeIndex b + length data"
proof -
  obtain d where d: "makeSpace nd b (length data) = Inr (b\<lparr>bufData := d\<rparr>)"
    "length d = writeIndex b + length data" "take (length (bufData b)) d = bufData b"
    using makeSpace_grows [OF assms] by blast
  let ?b1 = "b\<lparr>bufData := d\<rparr>"
  have "length (bufData b) < writeIndex b + length data"
    using assms(1,3) by (simp add: writeable_eq)
  then have inv1: "binv ?b1" using binvD [OF assms(1)] d(2) assms(4)
    by (simp add: binv_def CheapPrepend_def)
  have room1: "length data \<le> writeableBytes ?b1" using inv1 d by (simp add: writeable_eq)
  have "contents ?b1 = contents b"
    unfolding contents_def using d(3) binvD [OF assms(1)]
    by simp (metis drop_take min.absorb1 take_take)
  then obtain b' where "Buffer_append nd ?b1 data = Inr b'" "binv b'"
    "contents b' = contents b @ data" "readIndex b' = readIndex b"
    "writeIndex b' = writeIndex b + length data" "length (bufData b') = writeIndex b + length data"
    using append_in_place [OF inv1 room1, of nd] d by auto
  moreover have "Buffer_append nd b data = Buffer_append nd ?b1 data"
    using assms(3) d(1) room1 by (simp add: Buffer_append_def ensureWritableBytes_def)
  ultimately show ?thesis by auto
qed

lemma append_contents:
  assumes "binv b" "roomFor b (length data)"
  shows "\<exists>b'. Buffer_append nd b data = Inr b' \<and> binv b' \<and> contents b' = contents b @ data
           \<and> readIndex b' = readIndex b \<and> writeIndex b' = writeIndex b + length data
           \<and> length (bufData b') \<le> length (bufData b) + length data"
proof (cases "length data \<le> writeableBytes b")
  case True
  then show ?thesis using append_in_place [OF assms(1) True, of nd] by auto
next
  case False
  with assms show ?thesis
    using append_growing [OF assms(1), of data nd] binvD [OF assms(1)] by (fastforce simp: roomFor_def)
qed

text \<open>
  The second branch of \<open>makeSpace\<close> moves the readable bytes but leaves the write index where
  it was, so the space it was called to make does not exist.
\<close>

lemma makeSpace_compacting:
  assumes "binv b" "compacting b n"
  shows "\<exists>d. makeSpace True b n = Inr (b\<lparr>bufData := d, readIndex := 0\<rparr>)
           \<and> length d = length (bufData b)"
    and "makeSpace False b n = Inl AssertionFailed"
proof -
  have r: "8 < readIndex b" and branch:
    "\<not> szadd (writeableBytes b) (prependableBytes b) < szadd n CheapPrepend"
    using assms binvD [OF assms(1)]
    by (auto simp: compacting_def writeable_eq szadd_def prependableBytes_def CheapPrepend_def)
  let ?src = "take (writeIndex b - readIndex b) (drop (readIndex b) (bufData b))"
  have len: "CheapPrepend + length ?src \<le> length (bufData b)"
    using r binvD [OF assms(1)] by (simp add: CheapPrepend_def)
  note step = branch r len binvD [OF assms(1)]
  show "\<exists>d. makeSpace True b n = Inr (b\<lparr>bufData := d, readIndex := 0\<rparr>)
           \<and> length d = length (bufData b)"
    using step
    by (intro exI [of _ "take CheapPrepend (bufData b) @ ?src
          @ drop (CheapPrepend + length ?src) (bufData b)"])
       (simp add: makeSpace_def prependableBytes_def Let_def)
  show "makeSpace False b n = Inl AssertionFailed"
    using step by (simp add: makeSpace_def prependableBytes_def Let_def readableBytes_def)
qed

lemma append_compacting:
  assumes "binv b" "compacting b (length data)"
  shows "Buffer_append True b data = Inl OutOfBounds"
    and "Buffer_append False b data = Inl AssertionFailed"
proof -
  have w: "writeableBytes b < length data" using assms(2) by (simp add: compacting_def)
  then have over: "length (bufData b) < writeIndex b + length data"
    using assms(1) by (simp add: writeable_eq)
  obtain d where "makeSpace True b (length data) = Inr (b\<lparr>bufData := d, readIndex := 0\<rparr>)"
    "length d = length (bufData b)"
    using makeSpace_compacting(1) [OF assms] by blast
  then show "Buffer_append True b data = Inl OutOfBounds"
    using w over by (simp add: Buffer_append_def ensureWritableBytes_def beginWrite_def)
  show "Buffer_append False b data = Inl AssertionFailed"
    using w makeSpace_compacting(2) [OF assms]
    by (simp add: Buffer_append_def ensureWritableBytes_def)
qed

lemma append_success:
  assumes "binv b" "length data \<le> ptrdiff_max" "Buffer_append nd b data = Inr b'"
  shows "binv b' \<and> contents b' = contents b @ data"
proof -
  have "\<not> compacting b (length data)"
    using assms append_compacting [of b data] by (cases nd) auto
  moreover have "length data \<le> writeableBytes b \<or> writeIndex b + length data \<le> ptrdiff_max"
  proof (rule ccontr)
    assume "\<not> ?thesis"
    then have w: "writeableBytes b < length data" "ptrdiff_max < writeIndex b + length data" by auto
    then have "makeSpace nd b (length data) = Inl LengthError"
      using calculation binvD [OF assms(1)] assms(2)
      by (auto simp: makeSpace_def compacting_def vector_resize_def szadd_exact
          writeable_eq [OF assms(1)] prependableBytes_def CheapPrepend_def)
    with assms(3) w show False by (simp add: Buffer_append_def ensureWritableBytes_def)
  qed
  ultimately have "roomFor b (length data)" by (simp add: roomFor_def)
  then show ?thesis using append_contents [OF assms(1), of data nd] assms(3) by auto
qed

lemma ensureWritable_ok:
  assumes "binv b" "roomFor b n"
  shows "\<exists>b'. ensureWritableBytes nd b n = Inr b' \<and> binv b' \<and> contents b' = contents b
           \<and> n \<le> writeableBytes b' \<and> readIndex b' = readIndex b \<and> writeIndex b' = writeIndex b
           \<and> length (bufData b) \<le> length (bufData b')
           \<and> length (bufData b') \<le> max (length (bufData b)) (writeIndex b + n)"
proof (cases "n \<le> writeableBytes b")
  case True
  then show ?thesis using assms by (simp add: ensureWritableBytes_def)
next
  case False
  with assms obtain d where d: "makeSpace nd b n = Inr (b\<lparr>bufData := d\<rparr>)"
    "length d = writeIndex b + n" "take (length (bufData b)) d = bufData b"
    using makeSpace_grows [OF assms(1), of n nd] by (auto simp: roomFor_def)
  have "length (bufData b) < writeIndex b + n" using False assms(1) by (simp add: writeable_eq)
  with d False assms binvD [OF assms(1)] have inv: "binv (b\<lparr>bufData := d\<rparr>)"
    by (simp add: binv_def CheapPrepend_def roomFor_def)
  moreover have "contents (b\<lparr>bufData := d\<rparr>) = contents b"
    unfolding contents_def using d(3) binvD [OF assms(1)]
    by simp (metis drop_take min.absorb1 take_take)
  ultimately show ?thesis using d False \<open>length (bufData b) < writeIndex b + n\<close>
    by (simp add: ensureWritableBytes_def writeable_eq)
qed

section \<open>Retrieval as strings, prepending, reading from a descriptor, shrinking\<close>

lemma retrieveAsString_contents:
  assumes "binv b" "len \<le> length (contents b)"
  shows "\<exists>b'. retrieveAsString nd b len = Inr (take len (contents b), b') \<and> binv b'
           \<and> contents b' = drop len (contents b) \<and> bufData b' = bufData b
           \<and> readIndex b' = (if len < length (contents b) then readIndex b + len else CheapPrepend)"
  using retrieve_contents [OF assms, of nd] contents_prefix [OF assms] assms
  by (auto simp: retrieveAsString_def readable_contents)

lemma retrieveAll_contents:
  assumes "binv b"
  shows "\<exists>b'. retrieveAllAsString nd b = Inr (contents b, b') \<and> binv b' \<and> contents b' = []
           \<and> readIndex b' = CheapPrepend \<and> bufData b' = bufData b"
  using retrieveAsString_contents [OF assms, of "length (contents b)" nd] assms
  by (auto simp: retrieveAllAsString_def readable_contents)

lemma prepend_contents:
  assumes "binv b" "length data \<le> prependableBytes b"
  shows "\<exists>b'. prepend nd b data = Inr b' \<and> binv b' \<and> contents b' = data @ contents b
           \<and> readIndex b' = readIndex b - length data \<and> writeIndex b' = writeIndex b"
proof -
  let ?r = "readIndex b - length data"
  let ?d = "take ?r (bufData b) @ data @ drop (readIndex b) (bufData b)"
  let ?b' = "b\<lparr>readIndex := ?r, bufData := ?d\<rparr>"
  from assms have le: "length data \<le> readIndex b" by (simp add: prependableBytes_def)
  with assms binvD [OF assms(1)] have "prepend nd b data = Inr ?b'"
    by (simp add: prepend_def Let_def)
  moreover from le binvD [OF assms(1)] have "binv ?b'"
    by (simp add: binv_def CheapPrepend_def)
  moreover from le binvD [OF assms(1)] have "contents ?b' = data @ contents b"
    by (simp add: contents_def Suc_diff_le)
  ultimately show ?thesis by auto
qed

lemma readFd_contents:
  assumes "binv b" "readIndex b \<le> CheapPrepend"
    and "length (bufData b) + length bs \<le> ptrdiff_max"
  shows "\<exists>b'. readFd nd b (ReadBytes bs) = Inr ((int (length bs), None), b') \<and> binv b'
           \<and> contents b' = contents b @ bs \<and> readIndex b' = readIndex b
           \<and> length (bufData b') \<le> length (bufData b) + length bs"
proof -
  let ?w = "writeableBytes b" and ?t = "take (writeableBytes b) bs"
  note B = binvD [OF assms(1)]
  have w: "?w = length (bufData b) - writeIndex b" by (rule writeable_eq [OF assms(1)])
  then have fit: "writeIndex b + length ?t \<le> length (bufData b)" using B by simp
  obtain d where d: "mem_write (bufData b) (writeIndex b) ?t = Inr d" using fit by simp
  let ?b1 = "b\<lparr>bufData := d, writeIndex := writeIndex b + length ?t\<rparr>"
  have c1: "contents ?b1 = contents b @ ?t" by (rule contents_mem_write [OF assms(1) fit d])
  have ld: "length d = length (bufData b)" using d by (rule mem_write_length)
  have inv1: "binv ?b1" using B ld fit by (simp add: binv_def CheapPrepend_def)
  show ?thesis
  proof (cases "length bs \<le> ?w")
    case True
    then have "readFd nd b (ReadBytes bs) = Inr ((int (length bs), None), ?b1)"
      using d B ld w by (simp add: readFd_def szadd_exact Let_def)
    then show ?thesis using c1 inv1 True ld by simp
  next
    case False
    then have len: "writeIndex b + length ?t = length d" using B ld w by simp
    have "\<not> compacting ?b1 (length (drop ?w bs))"
      using False assms(2) len inv1
      by (simp add: compacting_def writeable_eq prependableBytes_def CheapPrepend_def)
    then have "roomFor ?b1 (length (drop ?w bs))"
      using assms(3) ld len by (auto simp: roomFor_def)
    from append_contents [OF inv1 this, of nd] obtain b' where
      "Buffer_append nd ?b1 (drop ?w bs) = Inr b'" "binv b'"
      "contents b' = contents b @ bs" "readIndex b' = readIndex b" "length (bufData b') \<le> length d + length (drop ?w bs)"
      using c1 by auto
    then show ?thesis using False d len ld by (simp add: readFd_def)
  qed
qed

lemma shrink_contents:
  assumes "binv b" "length (contents b) + reserve \<le> ptrdiff_max - 8"
  shows "\<exists>b'. shrink nd b reserve = Inr b' \<and> binv b' \<and> contents b' = contents b
           \<and> reserve \<le> writeableBytes b' \<and> readIndex b' = CheapPrepend"
proof -
  let ?n = "length (contents b) + reserve"
  obtain b0 where b0: "Buffer_new nd InitialSize = Inr b0" "binv b0" "contents b0 = []"
    "readIndex b0 = CheapPrepend" "writeableBytes b0 = InitialSize"
    using Buffer_new_ok [of InitialSize nd] by (auto simp: InitialSize_def)
  have w0: "writeIndex b0 = CheapPrepend"
    using b0 length_contents [of b0] binvD [OF b0(2)] by simp
  have sz: "szadd (readableBytes b) reserve = ?n"
    using assms by (simp add: readable_contents szadd_exact)
  have "roomFor b0 ?n" using assms(2) b0 w0
    by (simp add: roomFor_def compacting_def prependableBytes_def CheapPrepend_def)
  from ensureWritable_ok [OF b0(2) this, of nd] obtain b1 where b1:
    "ensureWritableBytes nd b0 ?n = Inr b1" "binv b1" "contents b1 = []"
    "?n \<le> writeableBytes b1" "readIndex b1 = CheapPrepend"
    using b0 by auto
  from append_in_place [OF b1(2), of "contents b" nd] obtain b2 where b2:
    "Buffer_append nd b1 (contents b) = Inr b2" "binv b2" "contents b2 = contents b"
    "readIndex b2 = CheapPrepend" "writeIndex b2 = writeIndex b1 + length (contents b)"
    "length (bufData b2) = length (bufData b1)"
    using b1 by auto
  have "reserve \<le> writeableBytes b2" using b1 b2 by (simp add: writeable_eq)
  then show ?thesis using b0 b1 b2 sz assms(1)
    by (simp add: shrink_def toStringPiece_def read_contents Buffer_swap_def)
qed

section \<open>Integers in network byte order\<close>

lemma be_bytes_append: "le_bytes n (bswap n x) = rev (le_bytes n x)"
  by (rule le_bytes_bswap)

lemma peek_be:
  assumes "binv b" "contents b = rev (le_bytes n x) @ rest"
  shows "mem_read (bufData b) (peek b) n = Inr (rev (le_bytes n x))"
  using contents_prefix [OF assms(1), of n] assms(2) by simp

lemma peekInt32_be:
  assumes "binv b" "contents b = rev (le_bytes 4 (unat x)) @ rest" "nd \<or> rest \<noteq> []"
  shows "peekInt32 nd b = Inr x"
proof -
  have "unat x mod 256 ^ 4 = unat x" using unsigned_less [of x, where ?'a = nat] by simp
  then show ?thesis using assms peek_be [OF assms(1,2)]
    by (auto simp: peekInt32_def readable_contents bswap_be_bytes cassert_def)
qed

lemma peekInt64_be:
  assumes "binv b" "contents b = rev (le_bytes 8 (unat x)) @ rest"
  shows "peekInt64 nd b = Inr x"
proof -
  have "unat x mod 256 ^ 8 = unat x" using unsigned_less [of x, where ?'a = nat] by simp
  then show ?thesis using assms peek_be [OF assms(1,2)]
    by (simp add: peekInt64_def readable_contents bswap_be_bytes)
qed

lemma peekInt16_be:
  assumes "binv b" "contents b = rev (le_bytes 2 x) @ rest" "nd \<or> rest \<noteq> []"
  shows "peekInt16 nd b = Inr (word_of_nat x)"
proof -
  have "(word_of_nat (x mod 256 ^ 2) :: 16 word) = word_of_nat x"
    by (simp add: word_of_nat_eq_iff take_bit_eq_mod)
  then show ?thesis using assms peek_be [OF assms(1,2)]
    by (auto simp: peekInt16_def readable_contents bswap_be_bytes cassert_def)
qed

section \<open>The contract of a byte queue\<close>

text \<open>
  What a connection relies on when it keeps unsent bytes in a buffer: bytes come out in the
  order they went in. A script is a list of puts and gets; \<open>fifo_run\<close> executes it and
  collects the bytes that came out.
\<close>

datatype fifo_op = Put string | Get nat

fun fifo_puts :: "fifo_op list \<Rightarrow> string" where
  "fifo_puts [] = []"
| "fifo_puts (Put d # ops) = d @ fifo_puts ops"
| "fifo_puts (Get n # ops) = fifo_puts ops"

fun fifo_run :: "('b \<Rightarrow> string \<Rightarrow> 'b res) \<Rightarrow> ('b \<Rightarrow> nat \<Rightarrow> (string \<times> 'b) res) \<Rightarrow> 'b \<Rightarrow>
    fifo_op list \<Rightarrow> (string \<times> 'b) res" where
  "fifo_run put get b [] = Inr ([], b)"
| "fifo_run put get b (Put d # ops) = rbind (put b d) (\<lambda>b'. fifo_run put get b' ops)"
| "fifo_run put get b (Get n # ops) =
     rbind (get b n) (\<lambda>(s, b'). rbind (fifo_run put get b' ops) (\<lambda>(out, b''). Inr (s @ out, b'')))"

text \<open>Every string handed to the queue is an object, at most \<open>PTRDIFF_MAX\<close> bytes long.\<close>

definition op_object :: "fifo_op \<Rightarrow> bool" where
  "op_object p = (case p of Put d \<Rightarrow> length d \<le> ptrdiff_max | Get n \<Rightarrow> True)"

locale byte_fifo =
  fixes bytes :: "'b \<Rightarrow> string" and valid :: "'b \<Rightarrow> bool" and can_put :: "'b \<Rightarrow> nat \<Rightarrow> bool"
    and put :: "'b \<Rightarrow> string \<Rightarrow> 'b res" and get :: "'b \<Rightarrow> nat \<Rightarrow> (string \<times> 'b) res"
  assumes put_ok: "valid b \<Longrightarrow> can_put b (length d) \<Longrightarrow> \<exists>b'. put b d = Inr b'"
    and put_bytes: "valid b \<Longrightarrow> length d \<le> ptrdiff_max \<Longrightarrow> put b d = Inr b' \<Longrightarrow>
      valid b' \<and> bytes b' = bytes b @ d"
    and get_ok: "valid b \<Longrightarrow> n \<le> length (bytes b) \<Longrightarrow> \<exists>s b'. get b n = Inr (s, b')"
    and get_bytes: "valid b \<Longrightarrow> get b n = Inr (s, b') \<Longrightarrow>
      valid b' \<and> s @ bytes b' = bytes b \<and> length s = n"
begin

lemma fifo_stream:
  assumes "valid b" "list_all op_object ops" "fifo_run put get b ops = Inr (out, b')"
  shows "valid b' \<and> out @ bytes b' = bytes b @ fifo_puts ops"
  using assms
proof (induction ops arbitrary: b out)
  case Nil
  then show ?case by simp
next
  case (Cons p ops)
  show ?case
  proof (cases p)
    case (Put d)
    with Cons.prems obtain b1 where b1: "put b d = Inr b1" "fifo_run put get b1 ops = Inr (out, b')"
      by auto
    with Put Cons.prems have "valid b1" "bytes b1 = bytes b @ d"
      using put_bytes [of b d b1] by (auto simp: op_object_def)
    with b1 Cons show ?thesis using Cons.IH [of b1 out] Put by simp
  next
    case (Get n)
    with Cons.prems obtain s b1 out' where b1: "get b n = Inr (s, b1)"
      "fifo_run put get b1 ops = Inr (out', b')" "out = s @ out'"
      by auto
    with Cons.prems have "valid b1" "s @ bytes b1 = bytes b" using get_bytes [of b n s b1] by auto
    with b1 Cons show ?thesis using Cons.IH [of b1 out'] Get by simp
  qed
qed

end

lemma retrieveAsString_success:
  assumes "binv b" "retrieveAsString False b n = Inr (s, b')"
  shows "binv b' \<and> s @ contents b' = contents b \<and> length s = n"
proof -
  have n: "n \<le> length (contents b)"
    using assms by (auto simp: retrieveAsString_def readable_contents)
  with retrieveAsString_contents [OF assms(1) n, of False] assms(2) show ?thesis by auto
qed

interpretation buffer_fifo: byte_fifo contents binv roomFor "Buffer_append False" "retrieveAsString False"
proof unfold_locales
  show "\<exists>b'. Buffer_append False b d = Inr b'" if "binv b" "roomFor b (length d)" for b d
    using append_contents [OF that, of False] by auto
  show "binv b' \<and> contents b' = contents b @ d"
    if "binv b" "length d \<le> ptrdiff_max" "Buffer_append False b d = Inr b'" for b d b'
    by (rule append_success [OF that])
  show "\<exists>s b'. retrieveAsString False b n = Inr (s, b')" if "binv b" "n \<le> length (contents b)" for b n
    using retrieveAsString_contents [OF that, of False] by auto
  show "binv b' \<and> s @ contents b' = contents b \<and> length s = n"
    if "binv b" "retrieveAsString False b n = Inr (s, b')" for b n s b'
    by (rule retrieveAsString_success [OF that])
qed

section \<open>Every operation keeps the invariant\<close>

text \<open>
  A step the debug build completes is completed by the \<^verbatim>\<open>NDEBUG\<close> build with the same result:
  removing the asserts changes nothing where they hold.
\<close>

lemma makeSpace_ndebug: "makeSpace False b n = Inr b' \<Longrightarrow> makeSpace True b n = Inr b'"
  by (auto simp: makeSpace_def Let_def split: if_splits)

lemma ensureWritable_ndebug:
  "ensureWritableBytes False b n = Inr b' \<Longrightarrow> ensureWritableBytes True b n = Inr b'"
  by (auto simp: ensureWritableBytes_def dest: makeSpace_ndebug split: if_splits)

lemma append_ndebug: "Buffer_append False b d = Inr b' \<Longrightarrow> Buffer_append True b d = Inr b'"
  by (auto simp: Buffer_append_def hasWritten_def dest: ensureWritable_ndebug)

lemma Buffer_new_ndebug: "Buffer_new False n = Inr b \<Longrightarrow> Buffer_new True n = Inr b"
  by (auto simp: Buffer_new_def Let_def split: if_splits)

lemma retrieve_ndebug: "retrieve False b n = Inr b' \<Longrightarrow> retrieve True b n = Inr b'"
  by (auto simp: retrieve_def)

lemma shrink_ndebug: "shrink False b n = Inr b' \<Longrightarrow> shrink True b n = Inr b'"
  by (auto simp: shrink_def dest!: Buffer_new_ndebug ensureWritable_ndebug append_ndebug)

lemma readFd_ndebug: "readFd False b r = Inr x \<Longrightarrow> readFd True b r = Inr x"
  by (cases r) (auto simp: readFd_def Let_def dest!: append_ndebug split: if_splits)

datatype buffer_op =
    HasWritten nat | UnWrites nat | Retrieve nat | RetrieveUntil nat | RetrieveAll
  | EnsureWritable nat | Append "char list" | Prepend "char list" | Shrink nat
  | ReadFd readv_result

fun buffer_step :: "bool \<Rightarrow> buffer \<Rightarrow> buffer_op \<Rightarrow> buffer res" where
  "buffer_step nd b (HasWritten n) = hasWritten nd b n"
| "buffer_step nd b (UnWrites n) = unWrites nd b n"
| "buffer_step nd b (Retrieve n) = retrieve nd b n"
| "buffer_step nd b (RetrieveUntil p) = retrieveUntil nd b p"
| "buffer_step nd b RetrieveAll = Inr (retrieveAll b)"
| "buffer_step nd b (EnsureWritable n) = ensureWritableBytes nd b n"
| "buffer_step nd b (Append d) = Buffer_append nd b d"
| "buffer_step nd b (Prepend d) = prepend nd b d"
| "buffer_step nd b (Shrink n) = shrink nd b n"
| "buffer_step nd b (ReadFd r) = rbind (readFd nd b r) (\<lambda>(_, b'). Inr b')"

text \<open>Sizes are sizes of objects; \<open>shrink\<close> adds its argument to the readable size.\<close>

fun op_args :: "buffer_op \<Rightarrow> bool" where
  "op_args (Append d) \<longleftrightarrow> length d \<le> ptrdiff_max"
| "op_args (EnsureWritable n) \<longleftrightarrow> n \<le> ptrdiff_max - 16"
| "op_args (Shrink n) \<longleftrightarrow> n \<le> ptrdiff_max - 16"
| "op_args (ReadFd (ReadBytes bs)) \<longleftrightarrow> length bs \<le> ptrdiff_max"
| "op_args _ \<longleftrightarrow> True"

lemma retrieve_inv: "binv b \<Longrightarrow> retrieve False b n = Inr b' \<Longrightarrow> binv b'"
  using retrieve_contents [of b n False]
  by (cases "n \<le> length (contents b)") (auto simp: retrieve_def readable_contents)

lemma ensureWritable_inv:
  assumes "binv b" "n < size_mod - writeIndex b - 8" "ensureWritableBytes False b n = Inr b'"
  shows "binv b' \<and> contents b' = contents b"
proof (cases "roomFor b n")
  case True
  then show ?thesis using ensureWritable_ok [OF assms(1) True, of False] assms(3) by auto
next
  case False
  then have "writeableBytes b < n" using assms(1) by (auto simp: roomFor_def compacting_def)
  with assms(3) obtain b1 where m: "makeSpace False b n = Inr b1"
    by (auto simp: ensureWritableBytes_def)
  then have "\<not> compacting b n" using makeSpace_compacting(2) [OF assms(1), of n] by auto
  with False \<open>writeableBytes b < n\<close> have "ptrdiff_max < writeIndex b + n"
    by (auto simp: roomFor_def)
  moreover have "szadd (writeableBytes b) (prependableBytes b) < szadd n CheapPrepend"
    using \<open>\<not> compacting b n\<close> \<open>writeableBytes b < n\<close> assms(2) binvD [OF assms(1)]
    by (auto simp: compacting_def szadd_exact writeable_eq [OF assms(1)] prependableBytes_def
        CheapPrepend_def)
  ultimately have "makeSpace False b n = Inl LengthError"
    using assms(2) by (simp add: makeSpace_def vector_resize_def szadd_exact)
  with m show ?thesis by simp
qed

lemma readFd_inv:
  assumes "binv b" "length bs \<le> ptrdiff_max" "readFd False b (ReadBytes bs) = Inr (x, b')"
  shows "binv b' \<and> contents b' = contents b @ bs"
proof -
  let ?w = "writeableBytes b" and ?t = "take (writeableBytes b) bs"
  note B = binvD [OF assms(1)]
  have fit: "writeIndex b + length ?t \<le> length (bufData b)"
    using B by (simp add: writeable_eq [OF assms(1)])
  obtain d where d: "mem_write (bufData b) (writeIndex b) ?t = Inr d" using fit by simp
  let ?b1 = "b\<lparr>bufData := d, writeIndex := writeIndex b + length ?t\<rparr>"
  have c1: "contents ?b1 = contents b @ ?t" by (rule contents_mem_write [OF assms(1) fit d])
  have ld: "length d = length (bufData b)" using d by (rule mem_write_length)
  have inv1: "binv ?b1" using B ld fit by (simp add: binv_def CheapPrepend_def)
  show ?thesis
  proof (cases "length bs \<le> ?w")
    case True
    then have "b' = ?b1" using assms(3) d B fit ld
      by (simp add: readFd_def szadd_exact Let_def)
    then show ?thesis using inv1 c1 True by simp
  next
    case False
    then have "writeIndex b + length ?t = length d"
      using B ld by (simp add: writeable_eq [OF assms(1)])
    then have "Buffer_append False ?b1 (drop ?w bs) = Inr b'"
      using assms(3) d False by (auto simp: readFd_def Let_def)
    then show ?thesis
      using append_success [OF inv1, of "drop ?w bs" False b'] assms(2) c1 by simp
  qed
qed

lemma shrink_inv:
  assumes "binv b" "n \<le> ptrdiff_max - 16" "shrink False b n = Inr b'"
  shows "binv b'"
proof -
  obtain b0 where b0: "Buffer_new False InitialSize = Inr b0" "binv b0" "contents b0 = []"
    "readIndex b0 = CheapPrepend"
    using Buffer_new_ok [of InitialSize False] by (auto simp: InitialSize_def)
  have w0: "writeIndex b0 = CheapPrepend"
    using b0 length_contents [of b0] binvD [OF b0(2)] by simp
  have rd: "readableBytes b \<le> ptrdiff_max" "length (contents b) \<le> ptrdiff_max"
    using assms(1) binvD [of b] by (simp_all add: readable_contents length_contents)
  from assms(3) b0(1) obtain b1 where
    e: "ensureWritableBytes False b0 (szadd (readableBytes b) n) = Inr b1" and
    a: "Buffer_append False b1 (contents b) = Inr b'"
    using read_contents [OF assms(1)]
    by (auto simp: shrink_def toStringPiece_def Buffer_swap_def)
  have "binv b1"
    using ensureWritable_inv [OF b0(2) _ e] w0 rd assms(2)
    by (simp add: szadd_exact CheapPrepend_def)
  then show ?thesis using append_success [OF _ rd(2) a] by simp
qed

lemma buffer_step_inv:
  assumes "binv b" "op_args op" "buffer_step False b op = Inr b'"
  shows "binv b'"
proof (cases op)
  case (HasWritten n)
  with assms show ?thesis using hasWritten_inv [of b n False] by (auto simp: hasWritten_def)
next
  case (UnWrites n)
  with assms show ?thesis using unWrites_contents [of b n False]
    by (auto simp: unWrites_def readable_contents)
next
  case (Retrieve n)
  with assms show ?thesis using retrieve_inv by auto
next
  case (RetrieveUntil p)
  with assms show ?thesis using retrieve_inv by (auto simp: retrieveUntil_def)
next
  case RetrieveAll
  with assms show ?thesis by (auto simp: retrieveAll_def binv_def)
next
  case (EnsureWritable n)
  with assms show ?thesis using ensureWritable_inv [of b n b'] binvD [OF assms(1)] by auto
next
  case (Append d)
  with assms show ?thesis using append_success [of b d False b'] by auto
next
  case (Prepend d)
  with assms show ?thesis using prepend_contents [of b d False]
    by (auto simp: prepend_def Let_def prependableBytes_def)
next
  case (Shrink n)
  with assms show ?thesis using shrink_inv by auto
next
  case (ReadFd r)
  with assms show ?thesis using readFd_inv [of b]
    by (cases r) (fastforce simp: readFd_def)+
qed

lemma buffer_step_ndebug: "buffer_step False b op = Inr b' \<Longrightarrow> buffer_step True b op = Inr b'"
  by (cases op) (auto simp: hasWritten_def unWrites_def retrieveUntil_def prepend_def
      dest: retrieve_ndebug ensureWritable_ndebug append_ndebug shrink_ndebug readFd_ndebug)

section \<open>Properties\<close>

text \<open>A fresh buffer of eight bytes, for the witnesses.\<close>

definition buffer8 :: buffer where
  "buffer8 = \<lparr>bufData = replicate 16 (CHR 0x00), readIndex = 8, writeIndex = 8\<rparr>"

lemma buffer8_new: "Buffer_new nd 8 = Inr buffer8"
  by (simp add: Buffer_new_def Let_def szadd_def buffer_access_defs buffer8_def)

lemma buffer8_binv: "binv buffer8"
  by (simp add: binv_def CheapPrepend_def buffer8_def)

lemma buffer8_empty: "contents buffer8 = []"
  by (simp add: contents_def buffer8_def)



text \<open>C20: The outcome of \<open>append\<close> on a well-formed buffer, on every branch and in both
  builds. Where \<open>makeSpace\<close> takes its second branch, the debug build stops at an assert and
  the \<^verbatim>\<open>NDEBUG\<close> build writes past the end of the vector; where the vector would exceed its
  maximal size, \<open>resize\<close> throws; in every other case the bytes are added at the end.\<close>

theorem append_outcome:
  assumes "binv b" "length data \<le> ptrdiff_max"
  shows "if compacting b (length data)
         then Buffer_append nd b data = Inl (if nd then OutOfBounds else AssertionFailed)
         else if length data \<le> writeableBytes b \<or> writeIndex b + length data \<le> ptrdiff_max
         then \<exists>b'. Buffer_append nd b data = Inr b' \<and> binv b' \<and> contents b' = contents b @ data
         else Buffer_append nd b data = Inl LengthError"
proof (cases "compacting b (length data)")
  case True
  then show ?thesis using append_compacting [OF assms(1), of data] by (cases nd) auto
next
  case nc: False
  show ?thesis
  proof (cases "length data \<le> writeableBytes b \<or> writeIndex b + length data \<le> ptrdiff_max")
    case True
    with nc have "roomFor b (length data)" by (simp add: roomFor_def)
    then show ?thesis using append_contents [OF assms(1), of data nd] nc True by auto
  next
    case False
    then have "makeSpace nd b (length data) = Inl LengthError"
      using nc binvD [OF assms(1)] assms(2)
      by (auto simp: makeSpace_def compacting_def vector_resize_def szadd_exact
          writeable_eq [OF assms(1)] prependableBytes_def CheapPrepend_def)
    then show ?thesis using nc False by (simp add: Buffer_append_def ensureWritableBytes_def)
  qed
qed

theorem append_outcome_witness:
  "Buffer_append True (buffer8\<lparr>readIndex := 14, writeIndex := 16\<rparr>) ''abcde'' = Inl OutOfBounds"
proof -
  let ?b = "buffer8\<lparr>readIndex := 14, writeIndex := 16\<rparr>"
  have "binv ?b" by (simp add: binv_def CheapPrepend_def buffer8_def)
  moreover have "compacting ?b (length ''abcde'')"
    by (simp add: compacting_def buffer_access_defs buffer8_def)
  ultimately show ?thesis using append_outcome [of ?b "''abcde''" True] by simp
qed

text \<open>Reachable heap overflow. Fill a fresh buffer of any size \<open>n\<close>, retrieve \<open>k\<close> of
  the bytes (\<open>0 < k < n\<close>) and append between 1 and \<open>k\<close> bytes: the \<^verbatim>\<open>NDEBUG\<close> build writes
  outside the vector, although \<open>k\<close> bytes of the buffer are free again.\<close>

theorem append_after_partial_retrieve_overflows:
  assumes "0 < k" "k < length xs" "length xs \<le> ptrdiff_max - 8" "0 < length ys" "length ys \<le> k"
  shows "rbind (Buffer_new True (length xs)) (\<lambda>b.
         rbind (Buffer_append True b xs) (\<lambda>b.
         rbind (retrieve True b k) (\<lambda>b. Buffer_append True b ys))) = Inl OutOfBounds"
proof -
  obtain b where b: "Buffer_new True (length xs) = Inr b" "binv b" "contents b = []"
    "writeableBytes b = length xs" "readIndex b = CheapPrepend"
    using Buffer_new_ok [OF assms(3), of True] by blast
  have wi: "writeIndex b = CheapPrepend"
    using b length_contents [of b] binvD [OF b(2)] by simp
  obtain b1 where b1: "Buffer_append True b xs = Inr b1" "binv b1" "contents b1 = xs"
    "readIndex b1 = CheapPrepend" "writeIndex b1 = CheapPrepend + length xs"
    "length (bufData b1) = length (bufData b)"
    using append_in_place [OF b(2), of xs True] b wi by auto
  obtain b2 where b2: "retrieve True b1 k = Inr b2" "binv b2" "contents b2 = drop k xs"
    "bufData b2 = bufData b1" "readIndex b2 = CheapPrepend + k"
    using retrieve_contents [OF b1(2), of k True] b1 assms(2) by auto
  have "writeIndex b2 = CheapPrepend + length xs"
    using length_contents [OF b2(2)] b2 assms(2) binvD [OF b2(2)] by simp
  then have "compacting b2 (length ys)"
    using assms b b1 b2 wi binvD [OF b(2)]
    by (simp add: compacting_def writeable_eq prependableBytes_def CheapPrepend_def)
  then have "Buffer_append True b2 ys = Inl OutOfBounds"
    by (rule append_compacting(1) [OF b2(2)])
  then show ?thesis using b b1 b2 by simp
qed

theorem append_after_partial_retrieve_overflows_witness:
  "rbind (Buffer_new True 4) (\<lambda>b. rbind (Buffer_append True b ''abcd'') (\<lambda>b.
     rbind (retrieve True b 2) (\<lambda>b. Buffer_append True b ''e''))) = Inl OutOfBounds"
proof -
  have len: "length ''abcd'' = 4" "length ''e'' = 1" by simp_all
  show ?thesis
    by (rule append_after_partial_retrieve_overflows [of 2 "''abcd''" "''e''", unfolded len]) simp_all
qed

text \<open>C21: Every mutating operation of the buffer keeps the invariant, and the \<^verbatim>\<open>NDEBUG\<close>
  build agrees with the debug build wherever the asserts hold.\<close>

theorem buffer_ops_keep_invariant:
  assumes "binv b" "op_args op" "buffer_step False b op = Inr b'"
  shows "binv b' \<and> buffer_step True b op = Inr b'"
  using buffer_step_inv [OF assms] buffer_step_ndebug [OF assms(3)] by simp

theorem buffer_ops_keep_invariant_witness:
  "\<exists>b'. buffer_step False buffer8 (Prepend ''ab'') = Inr b' \<and> binv b'
     \<and> buffer_step True buffer8 (Prepend ''ab'') = Inr b'"
proof -
  obtain b' where r: "buffer_step False buffer8 (Prepend ''ab'') = Inr b'"
    by (simp add: prepend_def Let_def prependableBytes_def buffer8_def)
  show ?thesis using r buffer_ops_keep_invariant [OF buffer8_binv _ r] by auto
qed



text \<open>\<open>shrink\<close> keeps the readable bytes and leaves at least the reserve it is given as
  writeable space.\<close>

theorem shrink_keeps_contents:
  assumes "binv b" "length (contents b) + reserve \<le> ptrdiff_max - 8"
  shows "\<exists>b'. shrink nd b reserve = Inr b' \<and> binv b' \<and> contents b' = contents b
           \<and> reserve \<le> writeableBytes b'"
  using shrink_contents [OF assms, of nd] by auto

theorem shrink_keeps_contents_witness:
  "\<exists>b'. shrink True buffer8 5000 = Inr b' \<and> binv b' \<and> contents b' = [] \<and> 5000 \<le> writeableBytes b'"
  using shrink_keeps_contents [OF buffer8_binv, of 5000 True] by (simp add: buffer8_empty)

text \<open>A length header written with \<open>prependInt32\<close> in front of a payload reads back
  with \<open>readInt32\<close>, and leaves the payload, in both builds.\<close>

theorem prependInt32_readInt32:
  assumes "binv b" "4 \<le> prependableBytes b" "contents b \<noteq> []"
  shows "\<exists>b1 b2. prependInt32 nd b x = Inr b1 \<and> readInt32 nd b1 = Inr (x, b2)
           \<and> contents b2 = contents b"
proof -
  obtain b1 where b1: "prependInt32 nd b x = Inr b1" "binv b1"
    "contents b1 = rev (le_bytes 4 (unat x)) @ contents b"
    using prepend_contents [OF assms(1), of "rev (le_bytes 4 (unat x))" nd] assms(2)
    by (auto simp: prependInt32_def le_bytes_bswap)
  have "peekInt32 nd b1 = Inr x"
    using peekInt32_be [OF b1(2,3), of nd] assms(3) by simp
  moreover obtain b2 where "retrieve nd b1 4 = Inr b2" "contents b2 = contents b"
    using retrieve_contents [OF b1(2), of 4 nd] b1(3) by auto
  ultimately show ?thesis using b1 by (simp add: readInt32_def retrieveInt32_def)
qed

theorem prependInt32_readInt32_witness:
  "\<exists>b1 b2. prependInt32 False (buffer8\<lparr>writeIndex := 9\<rparr>) 258 = Inr b1
     \<and> readInt32 False b1 = Inr (258, b2) \<and> contents b2 = [CHR 0x00]"
proof -
  let ?b = "buffer8\<lparr>writeIndex := 9\<rparr>"
  have c: "contents ?b = [CHR 0x00]" by (simp add: contents_def buffer8_def)
  have "binv ?b" "4 \<le> prependableBytes ?b" "contents ?b \<noteq> []"
    using c by (simp_all add: binv_def CheapPrepend_def prependableBytes_def buffer8_def)
  from prependInt32_readInt32 [OF this, of False 258] show ?thesis unfolding c .
qed

text \<open>\<open>readInt64\<close> does not read what \<open>appendInt64\<close> wrote: it consumes eight bytes and
  returns the sixteen most significant bits, sign-extended. (\<open>peekInt64\<close> does read it.)\<close>

theorem readInt64_loses_bits:
  assumes "binv b" "contents b = []" "roomFor b 8"
  shows "\<exists>b1 b2. appendInt64 nd b x = Inr b1 \<and> peekInt64 nd b1 = Inr x
           \<and> readInt64 nd b1 = Inr (scast (word_of_nat (unat x div 2 ^ 48) :: 16 word), b2)
           \<and> contents b2 = []"
proof -
  let ?bs = "rev (le_bytes 8 (unat x))"
  obtain b1 where b1: "appendInt64 nd b x = Inr b1" "binv b1" "contents b1 = ?bs"
    using append_contents [OF assms(1), of ?bs nd] assms
    by (auto simp: appendInt64_def le_bytes_bswap)
  have "contents b1 = take 2 ?bs @ drop 2 ?bs" using b1(3) by simp
  then have "contents b1 = rev (le_bytes 2 (unat x div 2 ^ 48)) @ drop 2 ?bs"
    by (simp add: take_be_bytes)
  then have "peekInt16 nd b1 = Inr (word_of_nat (unat x div 2 ^ 48))"
    by (rule peekInt16_be [OF b1(2)]) simp
  moreover obtain b2 where "retrieve nd b1 8 = Inr b2" "contents b2 = []"
    using retrieve_contents [OF b1(2), of 8 nd] b1(3) by auto
  moreover have "peekInt64 nd b1 = Inr x"
    using peekInt64_be [OF b1(2), of x "[]"] b1(3) by simp
  ultimately show ?thesis using b1 by (simp add: readInt64_def retrieveInt64_def)
qed

theorem readInt64_loses_bits_witness:
  "\<exists>b1 b2. appendInt64 True buffer8 1 = Inr b1 \<and> readInt64 True b1 = Inr (0, b2)"
proof -
  have "roomFor buffer8 8" by (simp add: roomFor_def compacting_def buffer_access_defs buffer8_def)
  from readInt64_loses_bits [OF buffer8_binv buffer8_empty this, of True 1] show ?thesis
    by auto
qed

text \<open>A 32-bit integer that is alone in the buffer reads back in the \<^verbatim>\<open>NDEBUG\<close> build,
  but the strict assert of \<open>peekInt32\<close> stops the debug build.\<close>

theorem appendInt32_alone:
  assumes "binv b" "contents b = []" "roomFor b 4"
  shows "\<exists>b1. appendInt32 nd b x = Inr b1
           \<and> peekInt32 nd b1 = (if nd then Inr x else Inl AssertionFailed)"
proof -
  let ?bs = "rev (le_bytes 4 (unat x))"
  obtain b1 where b1: "appendInt32 nd b x = Inr b1" "binv b1" "contents b1 = ?bs"
    using append_contents [OF assms(1), of ?bs nd] assms
    by (auto simp: appendInt32_def le_bytes_bswap)
  have "peekInt32 True b1 = Inr x" using peekInt32_be [OF b1(2), of x "[]"] b1(3) by simp
  moreover have "peekInt32 False b1 = Inl AssertionFailed"
    using b1 by (simp add: peekInt32_def readable_contents)
  ultimately show ?thesis using b1 by (cases nd) auto
qed

theorem appendInt32_alone_witness:
  "\<exists>b1. appendInt32 False buffer8 7 = Inr b1 \<and> peekInt32 False b1 = Inl AssertionFailed"
proof -
  have "roomFor buffer8 4" by (simp add: roomFor_def compacting_def buffer_access_defs buffer8_def)
  from appendInt32_alone [OF buffer8_binv buffer8_empty this, of False 7] show ?thesis by auto
qed

end
