(* ===== verification/Channel.thy ===== *)
theory Channel
  imports Strings
begin

text \<open>
  \<^verbatim>\<open>Channel.h\<close> and \<^verbatim>\<open>Channel.cpp\<close>: the events a file descriptor is watched for, and the dispatch
  of the events that happened to the callbacks. Event masks are 32-bit words. A callback is
  present or absent; which callbacks run, and in which order, is the result of
  \<open>handleEvent\<close>. \<open>tie_\<close> is the owner, given by the flag \<open>ownerAlive\<close> of the call.
\<close>

unbundle bit_operations_syntax

section \<open>State\<close>

definition EPOLLIN :: "32 word" where "EPOLLIN = 0x001"
definition EPOLLPRI :: "32 word" where "EPOLLPRI = 0x002"
definition EPOLLOUT :: "32 word" where "EPOLLOUT = 0x004"
definition EPOLLERR :: "32 word" where "EPOLLERR = 0x008"
definition EPOLLHUP :: "32 word" where "EPOLLHUP = 0x010"
definition EPOLLRDHUP :: "32 word" where "EPOLLRDHUP = 0x2000"

definition NoneEvent :: "32 word" where "NoneEvent = 0"
definition ReadEvent :: "32 word" where "ReadEvent = EPOLLIN OR EPOLLPRI"
definition WriteEvent :: "32 word" where "WriteEvent = EPOLLOUT"

record Channel =
  logHup :: bool
  tied :: bool
  ch_eventHandling :: bool
  fd :: int
  events :: "32 word"
  revents :: "32 word"
  index :: int
  ch_loop :: nat
  hasRead :: bool
  hasWrite :: bool
  hasClose :: bool
  hasError :: bool

definition Channel_new :: "nat \<Rightarrow> int \<Rightarrow> Channel" where
  "Channel_new loop f = \<lparr>logHup = True, tied = False, ch_eventHandling = False, fd = f, events = 0,
     revents = 0, index = -1, ch_loop = loop, hasRead = False, hasWrite = False, hasClose = False,
     hasError = False\<rparr>"

definition setReadCallback :: "bool \<Rightarrow> Channel \<Rightarrow> Channel" where
  "setReadCallback cb c = c\<lparr>hasRead := cb\<rparr>"

definition setWriteCallback :: "bool \<Rightarrow> Channel \<Rightarrow> Channel" where
  "setWriteCallback cb c = c\<lparr>hasWrite := cb\<rparr>"

definition setCloseCallback :: "bool \<Rightarrow> Channel \<Rightarrow> Channel" where
  "setCloseCallback cb c = c\<lparr>hasClose := cb\<rparr>"

definition setErrorCallback :: "bool \<Rightarrow> Channel \<Rightarrow> Channel" where
  "setErrorCallback cb c = c\<lparr>hasError := cb\<rparr>"

definition Channel_tie :: "Channel \<Rightarrow> Channel" where
  "Channel_tie c = c\<lparr>tied := True\<rparr>"

definition setRevrnts :: "32 word \<Rightarrow> Channel \<Rightarrow> Channel" where
  "setRevrnts ev c = c\<lparr>revents := ev\<rparr>"

definition set_index :: "int \<Rightarrow> Channel \<Rightarrow> Channel" where
  "set_index i c = c\<lparr>index := i\<rparr>"

definition doNotLogHup :: "Channel \<Rightarrow> Channel" where
  "doNotLogHup c = c\<lparr>logHup := False\<rparr>"

definition isNoneEvent :: "Channel \<Rightarrow> bool" where
  "isNoneEvent c \<longleftrightarrow> NoneEvent = events c"

definition isReading :: "Channel \<Rightarrow> bool" where
  "isReading c \<longleftrightarrow> ReadEvent AND events c \<noteq> 0"

definition isWriting :: "Channel \<Rightarrow> bool" where
  "isWriting c \<longleftrightarrow> WriteEvent AND events c \<noteq> 0"

text \<open>The change of the mask in \<open>enableReading\<close> and its siblings; each then calls \<open>update()\<close>.\<close>

datatype interest_op = EnableReading | DisableReading | EnableWriting | DisableWriting | DisableAll

fun new_events :: "interest_op \<Rightarrow> 32 word \<Rightarrow> 32 word" where
  "new_events EnableReading ev = ev OR ReadEvent"
| "new_events DisableReading ev = ev AND NOT ReadEvent"
| "new_events EnableWriting ev = ev OR WriteEvent"
| "new_events DisableWriting ev = ev AND NOT WriteEvent"
| "new_events DisableAll ev = NoneEvent"

section \<open>Dispatch\<close>

datatype callback = CloseCb | ErrorCb | ReadCb | WriteCb

definition handleEventWithGuard :: "Channel \<Rightarrow> callback list \<times> Channel" where
  "handleEventWithGuard c =
     (let c = c\<lparr>ch_eventHandling := True\<rparr>; r = revents c;
          c1 = (if r AND EPOLLHUP \<noteq> 0 \<and> \<not> (r AND EPOLLIN \<noteq> 0) then if hasClose c then [CloseCb] else [] else []);
          c2 = (if r AND EPOLLERR \<noteq> 0 then if hasError c then [ErrorCb] else [] else []);
          c3 = (if r AND (EPOLLIN OR EPOLLPRI OR EPOLLRDHUP) \<noteq> 0 then if hasRead c then [ReadCb] else [] else []);
          c4 = (if r AND EPOLLOUT \<noteq> 0 then if hasWrite c then [WriteCb] else [] else [])
      in (c1 @ c2 @ c3 @ c4, c\<lparr>ch_eventHandling := False\<rparr>))"

definition handleEvent :: "bool \<Rightarrow> Channel \<Rightarrow> callback list \<times> Channel" where
  "handleEvent ownerAlive c =
     (if tied c then if ownerAlive then handleEventWithGuard c else ([], c)
      else handleEventWithGuard c)"

definition reventsToString :: "Channel \<Rightarrow> string" where
  "reventsToString c =
     (let r = revents c; opt = (\<lambda>m s. if r AND m \<noteq> 0 then s else [])
      in dec_int (fd c) @ '' : '' @ opt EPOLLHUP ''EPOLLHUP '' @ opt EPOLLERR ''EPOLLERR ''
         @ opt EPOLLIN ''EPOLLIN '' @ opt EPOLLPRI ''EPOLLPRI '' @ opt EPOLLRDHUP ''EPOLLRDHUP ''
         @ opt EPOLLOUT ''EPOLLOUT '')"

lemmas event_masks = EPOLLIN_def EPOLLPRI_def EPOLLOUT_def EPOLLERR_def EPOLLHUP_def EPOLLRDHUP_def
  NoneEvent_def ReadEvent_def WriteEvent_def

lemma bit_lt_32: "bit (w :: 32 word) n \<Longrightarrow> n < 32"
  using bit_imp_le_length by force

lemma mask_nonzero: "(w :: 32 word) AND m \<noteq> 0 \<longleftrightarrow> (\<exists>n. bit w n \<and> bit m n)"
  using bit_lt_32 by (auto simp: bit_eq_iff bit_and_iff)

lemma mask_ops:
  "isReading (c\<lparr>events := new_events k (events c)\<rparr>) =
     (case k of EnableReading \<Rightarrow> True | DisableReading \<Rightarrow> False | DisableAll \<Rightarrow> False | _ \<Rightarrow> isReading c)
   \<and> isWriting (c\<lparr>events := new_events k (events c)\<rparr>) =
     (case k of EnableWriting \<Rightarrow> True | DisableWriting \<Rightarrow> False | DisableAll \<Rightarrow> False | _ \<Rightarrow> isWriting c)
   \<and> isNoneEvent (c\<lparr>events := new_events DisableAll (events c)\<rparr>)"
proof -
  have disj: "ReadEvent AND WriteEvent = 0" by (simp add: event_masks)
  have ne: "ReadEvent \<noteq> 0" "WriteEvent \<noteq> 0" by (simp_all add: event_masks)
  have r: "bit ReadEvent n \<Longrightarrow> \<not> bit WriteEvent n" for n
    using disj by (metis bit_and_iff bit_0_eq bot_apply bot_bool_def)
  have e: "\<exists>n. bit ReadEvent n" "\<exists>n. bit WriteEvent n" using ne by (auto simp: bit_eq_iff)
  show ?thesis
    using e by (cases k)
      (auto simp: isReading_def isWriting_def isNoneEvent_def mask_nonzero bit_or_iff bit_and_iff bit_not_iff
        NoneEvent_def dest: r bit_lt_32)
qed

text \<open>Enabling and disabling one direction leaves the other alone, whatever the mask holds:
  after each of the five operations of a channel, reading and writing are watched exactly as
  the operation says, and \<open>isNoneEvent\<close> holds after \<open>disableAll\<close>.\<close>

theorem interest_ops_independent:
  "isReading (c\<lparr>events := new_events k (events c)\<rparr>) =
     (case k of EnableReading \<Rightarrow> True | DisableReading \<Rightarrow> False | DisableAll \<Rightarrow> False | _ \<Rightarrow> isReading c)
   \<and> isWriting (c\<lparr>events := new_events k (events c)\<rparr>) =
     (case k of EnableWriting \<Rightarrow> True | DisableWriting \<Rightarrow> False | DisableAll \<Rightarrow> False | _ \<Rightarrow> isWriting c)
   \<and> isNoneEvent (c\<lparr>events := new_events DisableAll (events c)\<rparr>)"
  by (rule mask_ops)

end
