(* ===== verification/Timestamp.thy ===== *)
theory Timestamp
  imports Strings Complex_Main "HOL-Library.Signed_Division"
begin

text \<open>
  \<^verbatim>\<open>base/Timestamp.h\<close> and \<^verbatim>\<open>base/Timestamp.cpp\<close>: a moment in microseconds since the Unix epoch,
  its order, the arithmetic on it and its two textual forms. A \<open>double\<close> number of seconds is
  a rational number, and the product with a million is taken exactly; the 64-bit counter is
  an integer (it overflows in the year 294247). \<open>gettimeofday\<close> is an argument of \<open>now\<close>,
  \<open>gmtime_r\<close> is the function \<open>gmtime\<close> below.
\<close>

section \<open>The class\<close>

datatype Timestamp = Timestamp (microSecondsSinceEpoch: int)

definition MicroSecondsPerSecond :: int where
  "MicroSecondsPerSecond = 1000 * 1000"

text \<open>\<open>operator<\<close>, which makes the class ordered.\<close>

definition Timestamp_less :: "Timestamp \<Rightarrow> Timestamp \<Rightarrow> bool" where
  "Timestamp_less s t \<longleftrightarrow> microSecondsSinceEpoch s < microSecondsSinceEpoch t"

instantiation Timestamp :: linorder
begin

definition less_Timestamp :: "Timestamp \<Rightarrow> Timestamp \<Rightarrow> bool" where
  "less_Timestamp = Timestamp_less"

definition less_eq_Timestamp :: "Timestamp \<Rightarrow> Timestamp \<Rightarrow> bool" where
  "less_eq_Timestamp s t \<longleftrightarrow> microSecondsSinceEpoch s \<le> microSecondsSinceEpoch t"

instance
  by intro_classes (auto simp: less_Timestamp_def Timestamp_less_def less_eq_Timestamp_def intro: Timestamp.expand)

end

definition Timestamp_invalid :: Timestamp where
  "Timestamp_invalid = Timestamp 0"

definition Timestamp_valid :: "Timestamp \<Rightarrow> bool" where
  "Timestamp_valid t \<longleftrightarrow> microSecondsSinceEpoch t > 0"

definition Timestamp_now :: "int \<Rightarrow> int \<Rightarrow> Timestamp" where
  "Timestamp_now tv_sec tv_usec = Timestamp (tv_sec * MicroSecondsPerSecond + tv_usec)"

definition double_to_ll :: "rat \<Rightarrow> int" where
  "double_to_ll d = (if 0 \<le> d then \<lfloor>d\<rfloor> else \<lceil>d\<rceil>)"

definition addTime :: "Timestamp \<Rightarrow> rat \<Rightarrow> Timestamp" where
  "addTime t seconds =
     (let delta = double_to_ll (seconds * of_int MicroSecondsPerSecond)
      in Timestamp (microSecondsSinceEpoch t + delta))"

definition fromUnixTime :: "int \<Rightarrow> int \<Rightarrow> Timestamp" where
  "fromUnixTime t microseconds = Timestamp (t * MicroSecondsPerSecond + microseconds)"

definition Timestamp_swap :: "Timestamp \<Rightarrow> Timestamp \<Rightarrow> Timestamp \<times> Timestamp" where
  "Timestamp_swap s t = (t, s)"

definition secondsSinceEpoch :: "Timestamp \<Rightarrow> int" where
  "secondsSinceEpoch t = microSecondsSinceEpoch t sdiv MicroSecondsPerSecond"

section \<open>Printing\<close>

text \<open>The conversions \<open>%0wd\<close> and \<open>%wd\<close> of \<open>sprintf\<close>.\<close>

definition pad :: "char \<Rightarrow> nat \<Rightarrow> string \<Rightarrow> string" where
  "pad c w s = replicate (w - length s) c @ s"

definition fmt_zero :: "nat \<Rightarrow> int \<Rightarrow> string" where
  "fmt_zero w i = (if i < 0 then CHR ''-'' # pad (CHR ''0'') (w - 1) (dec_nat (nat (- i)))
                   else pad (CHR ''0'') w (dec_nat (nat i)))"

definition fmt_width :: "nat \<Rightarrow> int \<Rightarrow> string" where
  "fmt_width w i = pad (CHR '' '') w (dec_int i)"

definition Timestamp_toString :: "Timestamp \<Rightarrow> string" where
  "Timestamp_toString t =
     (let seconds = microSecondsSinceEpoch t sdiv MicroSecondsPerSecond;
          microseconds = microSecondsSinceEpoch t smod MicroSecondsPerSecond
      in dec_int seconds @ ''.'' @ fmt_zero 6 microseconds)"

text \<open>
  \<open>gmtime_r\<close> for moments that are not before the epoch: the year is found by taking whole
  years off the number of days, then the month; \<open>tm_year\<close> counts from 1900 and \<open>tm_mon\<close> from 0.
\<close>

record tm =
  tm_year :: int
  tm_mon :: int
  tm_mday :: int
  tm_hour :: int
  tm_min :: int
  tm_sec :: int

definition leap :: "nat \<Rightarrow> bool" where
  "leap y \<longleftrightarrow> y mod 4 = 0 \<and> (y mod 100 \<noteq> 0 \<or> y mod 400 = 0)"

definition year_days :: "nat \<Rightarrow> nat" where
  "year_days y = (if leap y then 366 else 365)"

definition month_days :: "nat \<Rightarrow> nat list" where
  "month_days y = [31, if leap y then 29 else 28, 31, 30, 31, 30, 31, 31, 30, 31, 30, 31]"

function find_year :: "nat \<Rightarrow> nat \<Rightarrow> nat \<times> nat" where
  "find_year y d = (if d < year_days y then (y, d) else find_year (y + 1) (d - year_days y))"
  by pat_completeness auto
termination
  by (relation "measure snd") (auto simp: year_days_def)

declare find_year.simps [simp del]

fun find_month :: "nat list \<Rightarrow> nat \<Rightarrow> nat \<Rightarrow> nat \<times> nat" where
  "find_month [] i d = (i, d)"
| "find_month (l # ls) i d = (if d < l then (i, d) else find_month ls (i + 1) (d - l))"

definition gmtime :: "int \<Rightarrow> tm" where
  "gmtime s =
     (let n = nat s; (y, yd) = find_year 1970 (n div 86400);
          (mo, md) = find_month (month_days y) 0 yd
      in \<lparr>tm_year = int y - 1900, tm_mon = int mo, tm_mday = int md + 1,
          tm_hour = int (n mod 86400 div 3600), tm_min = int (n mod 3600 div 60),
          tm_sec = int (n mod 60)\<rparr>)"

definition toFormattedString :: "Timestamp \<Rightarrow> bool \<Rightarrow> string" where
  "toFormattedString t showMicroseconds =
     (let seconds = microSecondsSinceEpoch t sdiv MicroSecondsPerSecond;
          time = gmtime seconds;
          date = fmt_width 4 (tm_year time + 1990) @ fmt_zero 2 (tm_mon time + 1) @ fmt_zero 2 (tm_mday time)
                 @ '' '' @ fmt_zero 2 (tm_hour time) @ '':'' @ fmt_zero 2 (tm_min time)
                 @ '':'' @ fmt_zero 2 (tm_sec time)
      in if showMicroseconds
         then date @ ''.'' @ fmt_zero 6 (microSecondsSinceEpoch t smod MicroSecondsPerSecond) @ ''Z''
         else date)"

section \<open>Decimal printing with a width\<close>

lemma read_digits_zeros: "read_digits 0 (replicate k (CHR ''0'') @ s) = read_digits 0 s"
  by (induction k) (simp_all add: digit_val_def)

lemma read_digits_acc:
  "list_all (\<lambda>c. digit_val c \<noteq> None) s \<Longrightarrow> read_digits a s = a * 10 ^ length s + read_digits 0 s"
proof (induction s arbitrary: a)
  case Nil
  then show ?case by simp
next
  case (Cons c s)
  then obtain d where d: "digit_val c = Some d" by auto
  have "read_digits (10 * a + d) s = (10 * a + d) * 10 ^ length s + read_digits 0 s"
    "read_digits d s = d * 10 ^ length s + read_digits 0 s"
    using Cons.IH [of "10 * a + d"] Cons.IH [of d] Cons.prems by simp_all
  then show ?case using d by (simp add: algebra_simps)
qed

lemma length_pad: "length s \<le> w \<Longrightarrow> length (pad c w s) = w"
  by (simp add: pad_def)

lemma pad_zero_digits: "list_all (\<lambda>c. digit_val c \<noteq> None) (pad (CHR ''0'') w (dec_nat n))"
  using dec_nat_digits [of n] by (auto simp: pad_def list_all_iff digit_val_def)

lemma digits_no_dot: "list_all (\<lambda>c. digit_val c \<noteq> None) s \<Longrightarrow> filter (\<lambda>c. c \<noteq> CHR ''.'') s = s"
  by (induction s) (auto simp: digit_val_def)

text \<open>\<open>toString\<close> loses nothing: the digits of the text, read as one number, are the
  microseconds of the timestamp, and the text is the seconds, a point and six digits.\<close>

theorem toString_roundtrip:
  assumes "0 \<le> microSecondsSinceEpoch t"
  shows "int (read_digits 0 (filter (\<lambda>c. c \<noteq> CHR ''.'') (Timestamp_toString t))) = microSecondsSinceEpoch t
    \<and> (\<exists>ds. Timestamp_toString t = dec_int (secondsSinceEpoch t) @ ''.'' @ ds \<and> length ds = 6)"
proof -
  define n where "n = nat (microSecondsSinceEpoch t)"
  have t: "microSecondsSinceEpoch t = int n" using assms by (simp add: n_def)
  have sd: "int n sdiv MicroSecondsPerSecond = int (n div 1000000)"
    "int n smod MicroSecondsPerSecond = int (n mod 1000000)"
    by (cases "n = 0"; simp add: MicroSecondsPerSecond_def signed_divide_int_def signed_modulo_int_def
        zdiv_int zmod_int)+
  let ?hi = "dec_nat (n div 1000000)" and ?lo = "pad (CHR ''0'') 6 (dec_nat (n mod 1000000))"
  have str: "Timestamp_toString t = ?hi @ ''.'' @ ?lo"
    by (simp add: Timestamp_toString_def t sd dec_int_def fmt_zero_def Let_def)
  have "length (dec_nat (n mod 1000000)) \<le> 6" by (simp add: length_dec_nat)
  then have lo: "length ?lo = 6" by (rule length_pad)
  have "read_digits 0 (filter (\<lambda>c. c \<noteq> CHR ''.'') (Timestamp_toString t)) = read_digits 0 (?hi @ ?lo)"
    using digits_no_dot [OF dec_nat_digits] digits_no_dot [OF pad_zero_digits] by (simp add: str)
  also have "\<dots> = read_digits (n div 1000000) ?lo"
    by (simp only: read_digits_append [OF dec_nat_digits] read_digits_dec_nat)
  also have "\<dots> = n div 1000000 * 10 ^ 6 + read_digits 0 ?lo"
    using read_digits_acc [OF pad_zero_digits, of "n div 1000000" 6 "n mod 1000000"] lo by simp
  also have "\<dots> = n" by (simp add: pad_def read_digits_zeros read_digits_dec_nat)
  finally show ?thesis using t lo str by (auto simp: secondsSinceEpoch_def sd dec_int_def)
qed

theorem toString_roundtrip_witness:
  "int (read_digits 0 (filter (\<lambda>c. c \<noteq> CHR ''.'') (Timestamp_toString (Timestamp 5000042)))) = 5000042"
  using toString_roundtrip [of "Timestamp 5000042"] by simp

section \<open>The calendar year\<close>

text \<open>The number of days from the first of January 1970 to the first of January of a year.\<close>

definition year_start :: "nat \<Rightarrow> nat" where
  "year_start y = (\<Sum>k = 1970..<y. year_days k)"

lemma year_start_Suc: "1970 \<le> y \<Longrightarrow> year_start (Suc y) = year_start y + year_days y"
  by (simp add: year_start_def)

lemma find_year_spec:
  assumes "1970 \<le> y" "year_start y + d < year_start z" "year_start x \<le> year_start y + d" "x < z" "z = Suc x"
    "1970 \<le> x"
  shows "fst (find_year y d) = x"
  using assms
proof (induction y d rule: find_year.induct)
  case (1 y d)
  have mono: "a \<le> b \<Longrightarrow> 1970 \<le> a \<Longrightarrow> year_start a \<le> year_start b" for a b
    by (auto simp: year_start_def intro!: sum_mono2)
  show ?case
  proof (cases "d < year_days y")
    case True
    then have "year_start y + d < year_start (Suc y)" using "1.prems"(1) by (simp add: year_start_Suc)
    then have "\<not> Suc y \<le> x" using mono [of "Suc y" x] "1.prems" by force
    moreover have "\<not> Suc x \<le> y" using mono [of "Suc x" y] "1.prems" by force
    ultimately show ?thesis using True by (simp add: find_year.simps [of y d])
  next
    case False
    then have "year_start (y + 1) + (d - year_days y) = year_start y + d"
      using "1.prems"(1) by (simp add: year_start_Suc)
    then show ?thesis using "1.IH" [OF False] "1.prems" False by (simp add: find_year.simps [of y d])
  qed
qed

text \<open>The year printed by \<open>toFormattedString\<close> is 90 too large for every moment of the years
  1970 to 9909: the code adds 1990 to \<open>tm_year\<close>, which counts from 1900.\<close>

theorem formatted_year_90_late:
  assumes "1970 \<le> y" "y \<le> 9909" "0 \<le> microSecondsSinceEpoch t"
    and "int (year_start y) * 86400 \<le> secondsSinceEpoch t"
    and "secondsSinceEpoch t < int (year_start (Suc y)) * 86400"
  shows "take 4 (toFormattedString t b) = dec_nat (y + 90)"
proof -
  define n where "n = nat (secondsSinceEpoch t)"
  have n: "year_start y \<le> n div 86400" "n div 86400 < year_start (Suc y)"
    using assms(4,5) by (auto simp: n_def less_eq_div_iff_mult_less_eq div_less_iff_less_mult nat_less_iff
        le_nat_iff)
  have "fst (find_year 1970 (n div 86400)) = y"
    by (rule find_year_spec [where z = "Suc y"]) (use n assms in \<open>auto simp: year_start_def\<close>)
  then have yr: "tm_year (gmtime (secondsSinceEpoch t)) = int y - 1900"
    by (auto simp: gmtime_def Let_def n_def split: prod.splits)
  have fc: "dec_int (tm_year (gmtime (secondsSinceEpoch t)) + 1990) = dec_nat (y + 90)"
    unfolding yr by (simp add: dec_int_def nat_add_distrib add.commute)
  have "length (dec_nat (y + 90)) \<le> 4" "\<not> length (dec_nat (y + 90)) \<le> 3"
    using assms(1,2) by (simp_all add: length_dec_nat)
  then have len: "length (dec_nat (y + 90)) = 4" by simp
  show ?thesis
    using len fc
    by (simp add: toFormattedString_def Let_def fmt_width_def pad_def secondsSinceEpoch_def)
qed

theorem formatted_year_90_late_witness:
  "take 4 (toFormattedString (Timestamp 1000000) True) = ''2060''"
proof -
  have "year_start 1970 = 0" "year_start (Suc 1970) = 365"
    using year_start_Suc [of 1970] by (simp_all add: year_start_def year_days_def leap_def)
  then have "take 4 (toFormattedString (Timestamp 1000000) True) = dec_nat (1970 + 90)"
    by (intro formatted_year_90_late)
       (simp_all add: secondsSinceEpoch_def MicroSecondsPerSecond_def
         signed_divide_int_def)
  also have "dec_nat (1970 + 90) = ''2060''" by code_simp
  finally show ?thesis .
qed

end
