(* ===== verification/TimerQueue.thy ===== *)
theory TimerQueue
  imports Timestamp "HOL-Library.Product_Lexorder"
begin

text \<open>
  The timers: \<^verbatim>\<open>Timer.h/.cpp\<close>, \<^verbatim>\<open>TimerId.h\<close>, \<^verbatim>\<open>TimerQueue.h/.cpp\<close>. Timers live on an explicit
  heap, a map from addresses to objects, so that a use of a deleted timer is a fault;
  \<open>std::set\<close> of (expiration, pointer) pairs is a list in ascending order without duplicates.

  Arguments of the model: the clock (the reading of each call of \<open>Timestamp::now()\<close>), the
  allocator, and what the callbacks do to the queue (each callback is a number, and \<open>script\<close>
  gives the calls of \<open>addTimer\<close> and \<open>cancel\<close> it makes). The timer file descriptor holds the
  value \<open>timerfd_settime\<close> set, until the event is read.
\<close>

section \<open>Timers\<close>

record Timer =
  t_repeat :: bool
  t_sequence :: int
  t_interval :: rat
  t_expration :: Timestamp
  t_cb :: nat

definition Timer_new :: "nat \<Rightarrow> Timestamp \<Rightarrow> rat \<Rightarrow> int \<Rightarrow> Timer" where
  "Timer_new cb when iv numCreated =
     \<lparr>t_repeat = (iv > 0), t_sequence = numCreated + 1, t_interval = iv, t_expration = when, t_cb = cb\<rparr>"

definition restart :: "Timer \<Rightarrow> Timestamp \<Rightarrow> Timer" where
  "restart t now =
     (if t_repeat t then t\<lparr>t_expration := addTime now (t_interval t)\<rparr>
      else t\<lparr>t_expration := Timestamp_invalid\<rparr>)"

record TimerId =
  id_timer :: nat
  id_sequence :: int

section \<open>The queue\<close>

type_synonym Entry = "Timestamp \<times> nat"

record timespec =
  tv_sec :: int
  tv_nsec :: int

record TimerQueue =
  callingExpiredTimers :: bool
  timers :: "Entry list"
  cancelingTimers :: "nat \<rightharpoonup> int"
  heap :: "nat \<rightharpoonup> Timer"
  numCreated :: int
  timerfd :: "timespec option"
  clockReads :: nat
  ranCbs :: "nat list"
  timerfdWatched :: bool
  timerfdOpen :: bool

datatype cmd = AddTimer nat Timestamp rat | CancelTimer TimerId

record tq_env =
  clk :: "nat \<Rightarrow> Timestamp"
  malloc :: "nat set \<Rightarrow> nat option"
  script :: "nat \<Rightarrow> cmd list"

definition UINTPTR_MAX :: nat where
  "UINTPTR_MAX = 18446744073709551615"

definition assertInLoopThread :: "bool \<Rightarrow> bool \<Rightarrow> unit res" where
  "assertInLoopThread nd here = cassert nd here"

definition deref :: "TimerQueue \<Rightarrow> nat \<Rightarrow> Timer res" where
  "deref q a = (case heap q a of None \<Rightarrow> Inl UseAfterFree | Some t \<Rightarrow> Inr t)"

text \<open>The operations of \<open>std::set\<close> the queue uses.\<close>

definition set_emplace :: "Entry \<Rightarrow> Entry list \<Rightarrow> Entry list" where
  "set_emplace e es = (if e \<in> set es then es else insort e es)"

definition set_before :: "Entry \<Rightarrow> Entry list \<Rightarrow> Entry list" where
  "set_before key es = takeWhile (\<lambda>e. e < key) es"

text \<open>The constructor: the answer of \<open>timerfd_create\<close> is an argument; the channel of the descriptor is watched
  for reading.\<close>

definition createTimerfd :: "int \<Rightarrow> int res" where
  "createTimerfd answer = (if answer < 0 then Inl ProcessAbort else Inr answer)"

definition TimerQueue_new :: TimerQueue where
  "TimerQueue_new = \<lparr>callingExpiredTimers = False, timers = [], cancelingTimers = Map.empty,
     heap = Map.empty, numCreated = 0, timerfd = None, clockReads = 0, ranCbs = [],
     timerfdWatched = True, timerfdOpen = True\<rparr>"

definition TimerQueue_construct :: "int \<Rightarrow> TimerQueue res" where
  "TimerQueue_construct answer = rbind (createTimerfd answer) (\<lambda>_. Inr TimerQueue_new)"

definition read_clock :: "tq_env \<Rightarrow> TimerQueue \<Rightarrow> Timestamp \<times> TimerQueue" where
  "read_clock env q = (clk env (clockReads q), q\<lparr>clockReads := clockReads q + 1\<rparr>)"

definition howMuchTImeFromNow :: "Timestamp \<Rightarrow> Timestamp \<Rightarrow> timespec" where
  "howMuchTImeFromNow when now =
     (let us = microSecondsSinceEpoch when - microSecondsSinceEpoch now;
          us = (if us < 100 then 100 else us)
      in \<lparr>tv_sec = us sdiv MicroSecondsPerSecond, tv_nsec = (us smod MicroSecondsPerSecond) * 1000\<rparr>)"

definition resetTimerfd :: "tq_env \<Rightarrow> TimerQueue \<Rightarrow> Timestamp \<Rightarrow> TimerQueue" where
  "resetTimerfd env q expiration =
     (case read_clock env q of (now, q1) \<Rightarrow> q1\<lparr>timerfd := Some (howMuchTImeFromNow expiration now)\<rparr>)"

definition readTimerfd :: "TimerQueue \<Rightarrow> TimerQueue" where
  "readTimerfd q = q\<lparr>timerfd := None\<rparr>"

definition insert_timer :: "bool \<Rightarrow> bool \<Rightarrow> TimerQueue \<Rightarrow> nat \<Rightarrow> (bool \<times> TimerQueue) res" where
  "insert_timer nd here q a =
     rbind (assertInLoopThread nd here) (\<lambda>_.
     rbind (deref q a) (\<lambda>t.
       let earliestChanged = (timers q = [] \<or> t_expration t < fst (hd (timers q)))
       in Inr (earliestChanged, q\<lparr>timers := set_emplace (t_expration t, a) (timers q)\<rparr>)))"

definition addTimerInLoop :: "tq_env \<Rightarrow> bool \<Rightarrow> bool \<Rightarrow> TimerQueue \<Rightarrow> nat \<Rightarrow> TimerQueue res" where
  "addTimerInLoop env nd here q a =
     rbind (assertInLoopThread nd here) (\<lambda>_.
     rbind (insert_timer nd here q a) (\<lambda>(earliestChanged, q1).
       if earliestChanged then rbind (deref q1 a) (\<lambda>t. Inr (resetTimerfd env q1 (t_expration t)))
       else Inr q1))"

definition addTimer :: "tq_env \<Rightarrow> bool \<Rightarrow> bool \<Rightarrow> TimerQueue \<Rightarrow> nat \<Rightarrow> Timestamp \<Rightarrow> rat \<Rightarrow> (TimerId \<times> TimerQueue) res" where
  "addTimer env nd here q cb when iv =
     (case malloc env (dom (heap q)) of
        None \<Rightarrow> Inl BadAlloc
      | Some a \<Rightarrow>
          let t = Timer_new cb when iv (numCreated q);
              q1 = q\<lparr>heap := (heap q)(a \<mapsto> t), numCreated := numCreated q + 1\<rparr>
          in rbind (addTimerInLoop env nd here q1 a) (\<lambda>q2.
             Inr (\<lparr>id_timer = a, id_sequence = t_sequence t\<rparr>, q2)))"

text \<open>\<open>cancelInLoop\<close> reads \<open>itor->second\<close> after \<open>timers_.erase(itor)\<close>, in a deleted node.\<close>

definition cancelInLoop :: "bool \<Rightarrow> bool \<Rightarrow> TimerQueue \<Rightarrow> TimerId \<Rightarrow> TimerQueue res" where
  "cancelInLoop nd here q tid =
     rbind (assertInLoopThread nd here) (\<lambda>_.
     rbind (deref q (id_timer tid)) (\<lambda>t.
       if (t_expration t, id_timer tid) \<in> set (timers q) then Inl UseAfterFree
       else if callingExpiredTimers q then
         Inr (if cancelingTimers q (id_timer tid) = None
              then q\<lparr>cancelingTimers := (cancelingTimers q)(id_timer tid \<mapsto> id_sequence tid)\<rparr> else q)
       else Inr q))"

definition cancel :: "bool \<Rightarrow> bool \<Rightarrow> TimerQueue \<Rightarrow> TimerId \<Rightarrow> TimerQueue res" where
  "cancel nd here q tid = cancelInLoop nd here q tid"

definition getExpired :: "bool \<Rightarrow> bool \<Rightarrow> TimerQueue \<Rightarrow> Timestamp \<Rightarrow> (Entry list \<times> TimerQueue) res" where
  "getExpired nd here q now =
     rbind (assertInLoopThread nd here) (\<lambda>_.
       let expired = set_before (now, UINTPTR_MAX) (timers q)
       in Inr (expired, q\<lparr>timers := drop (length expired) (timers q)\<rparr>))"

fun run_cmds :: "tq_env \<Rightarrow> bool \<Rightarrow> bool \<Rightarrow> TimerQueue \<Rightarrow> cmd list \<Rightarrow> TimerQueue res" where
  "run_cmds env nd here q [] = Inr q"
| "run_cmds env nd here q (AddTimer cb when iv # cs) =
     rbind (addTimer env nd here q cb when iv) (\<lambda>(_, q1). run_cmds env nd here q1 cs)"
| "run_cmds env nd here q (CancelTimer tid # cs) =
     rbind (cancel nd here q tid) (\<lambda>q1. run_cmds env nd here q1 cs)"

definition Timer_run :: "tq_env \<Rightarrow> bool \<Rightarrow> bool \<Rightarrow> TimerQueue \<Rightarrow> nat \<Rightarrow> TimerQueue res" where
  "Timer_run env nd here q a =
     rbind (deref q a) (\<lambda>t. run_cmds env nd here (q\<lparr>ranCbs := ranCbs q @ [t_cb t]\<rparr>) (script env (t_cb t)))"

fun run_expired :: "tq_env \<Rightarrow> bool \<Rightarrow> bool \<Rightarrow> TimerQueue \<Rightarrow> Entry list \<Rightarrow> TimerQueue res" where
  "run_expired env nd here q [] = Inr q"
| "run_expired env nd here q (e # es) =
     rbind (Timer_run env nd here q (snd e)) (\<lambda>q1. run_expired env nd here q1 es)"

fun reset_loop :: "bool \<Rightarrow> bool \<Rightarrow> Timestamp \<Rightarrow> TimerQueue \<Rightarrow> bool \<Rightarrow> Entry list \<Rightarrow> (bool \<times> TimerQueue) res" where
  "reset_loop nd here now q changed [] = Inr (changed, q)"
| "reset_loop nd here now q changed (e # es) =
     rbind (deref q (snd e)) (\<lambda>t.
       if t_repeat t \<and> cancelingTimers q (snd e) = None then
         rbind (insert_timer nd here (q\<lparr>heap := (heap q)(snd e \<mapsto> restart t now)\<rparr>) (snd e)) (\<lambda>(b, q1).
           reset_loop nd here now q1 (changed \<or> b) es)
       else reset_loop nd here now (q\<lparr>heap := (heap q)(snd e := None)\<rparr>) changed es)"

definition reset :: "tq_env \<Rightarrow> bool \<Rightarrow> bool \<Rightarrow> TimerQueue \<Rightarrow> Entry list \<Rightarrow> Timestamp \<Rightarrow> TimerQueue res" where
  "reset env nd here q expired now =
     rbind (reset_loop nd here now q False expired) (\<lambda>(earliestChanged, q1).
       if earliestChanged \<and> timers q1 \<noteq> [] then
         let nextExpired = fst (hd (timers q1))
         in Inr (if Timestamp_valid nextExpired then resetTimerfd env q1 nextExpired else q1)
       else Inr q1)"

definition tq_handleRead :: "tq_env \<Rightarrow> bool \<Rightarrow> bool \<Rightarrow> TimerQueue \<Rightarrow> TimerQueue res" where
  "tq_handleRead env nd here q =
     rbind (assertInLoopThread nd here) (\<lambda>_.
       case read_clock env q of (now, q0) \<Rightarrow>
       rbind (getExpired nd here (readTimerfd q0) now) (\<lambda>(expired, q1).
       rbind (run_expired env nd here (q1\<lparr>callingExpiredTimers := True, cancelingTimers := Map.empty\<rparr>) expired) (\<lambda>q2.
       reset env nd here (q2\<lparr>callingExpiredTimers := False\<rparr>) expired now)))"

fun delete_all :: "TimerQueue \<Rightarrow> Entry list \<Rightarrow> TimerQueue res" where
  "delete_all q [] = Inr q"
| "delete_all q (e # es) = rbind (deref q (snd e)) (\<lambda>_. delete_all (q\<lparr>heap := (heap q)(snd e := None)\<rparr>) es)"

definition TimerQueue_destroy :: "TimerQueue \<Rightarrow> TimerQueue res" where
  "TimerQueue_destroy q =
     (let q1 = q\<lparr>timerfdWatched := False\<rparr>;
          q2 = q1\<lparr>timerfdOpen := False, timerfd := None\<rparr>
      in delete_all q2 (timers q2))"

section \<open>The ordered set\<close>

lemma set_emplace_set [simp]: "set (set_emplace e es) = insert e (set es)"
  by (auto simp: set_emplace_def set_insort_key)

lemma set_emplace_sorted: "sorted es \<Longrightarrow> distinct es \<Longrightarrow> sorted (set_emplace e es) \<and> distinct (set_emplace e es)"
  by (simp add: set_emplace_def sorted_insort distinct_insort)

lemma set_emplace_nonempty [simp]: "set_emplace e es \<noteq> []"
  by (metis set_emplace_set empty_set insert_not_empty)

lemma set_before_split:
  assumes "sorted es"
  shows "set (set_before k es) = {e \<in> set es. e < k}"
    and "set (drop (length (set_before k es)) es) = {e \<in> set es. \<not> e < k}"
proof -
  have "e \<in> set (takeWhile (\<lambda>e. e < k) es) \<longleftrightarrow> e \<in> set es \<and> e < k" for e
    using assms
  proof (induction es)
    case Nil
    then show ?case by simp
  next
    case (Cons x xs)
    then show ?case by (auto dest: order.strict_trans1)
  qed
  then show "set (set_before k es) = {e \<in> set es. e < k}" by (auto simp: set_before_def)
  have "drop (length (set_before k es)) es = dropWhile (\<lambda>e. e < k) es"
    by (simp add: set_before_def dropWhile_eq_drop)
  moreover have "e \<in> set (dropWhile (\<lambda>e. e < k) es) \<longleftrightarrow> e \<in> set es \<and> \<not> e < k" for e
    using assms
  proof (induction es)
    case Nil
    then show ?case by simp
  next
    case (Cons x xs)
    then show ?case by (auto dest: order.strict_trans1)
  qed
  ultimately show "set (drop (length (set_before k es)) es) = {e \<in> set es. \<not> e < k}" by auto
qed

lemma set_before_append: "set_before k es @ drop (length (set_before k es)) es = es"
  by (metis set_before_def dropWhile_eq_drop takeWhile_dropWhile_id)

lemma hd_set_emplace:
  assumes "sorted es"
  shows "fst (hd (set_emplace e es)) = (if es = [] then fst e else min (fst e) (fst (hd es)))"
proof (cases es)
  case Nil
  then show ?thesis by (simp add: set_emplace_def)
next
  case (Cons x xs)
  then show ?thesis using assms
    by (cases e; cases x) (auto simp: set_emplace_def min_def less_eq_prod_def less_prod_def)
qed

section \<open>The invariant\<close>

text \<open>
  The set is ordered, every entry points to a live timer that expires at the entry's time, no
  timer has two entries, and the live timers are those of the set and those of \<open>E\<close>, the
  expired ones a call of \<open>handleRead\<close> holds.
\<close>

definition entry_ok :: "(nat \<rightharpoonup> Timer) \<Rightarrow> Entry \<Rightarrow> bool" where
  "entry_ok h e \<longleftrightarrow> (case h (snd e) of None \<Rightarrow> False | Some t \<Rightarrow> t_expration t = fst e)"

definition tq_inv :: "nat set \<Rightarrow> TimerQueue \<Rightarrow> bool" where
  "tq_inv E q \<longleftrightarrow> sorted (timers q) \<and> distinct (map snd (timers q))
     \<and> (\<forall>e \<in> set (timers q). entry_ok (heap q) e)
     \<and> dom (heap q) = snd ` set (timers q) \<union> E \<and> snd ` set (timers q) \<inter> E = {}
     \<and> (\<forall>a \<in> dom (heap q). a < UINTPTR_MAX)"

definition malloc_ok :: "tq_env \<Rightarrow> bool" where
  "malloc_ok env \<longleftrightarrow> (\<forall>S a. malloc env S = Some a \<longrightarrow> a \<notin> S \<and> a < UINTPTR_MAX)"

lemma entry_ok_update [simp]:
  "a \<notin> snd ` set es \<Longrightarrow> e \<in> set es \<Longrightarrow> entry_ok (h(a := x)) e = entry_ok h e"
  by (force simp: entry_ok_def image_iff)

lemma tq_inv_frame:
  "timers q' = timers q \<Longrightarrow> heap q' = heap q \<Longrightarrow> tq_inv E q' = tq_inv E q"
  by (simp add: tq_inv_def)

lemma resetTimerfd_frame [simp]:
  "timers (resetTimerfd env q t) = timers q" "heap (resetTimerfd env q t) = heap q"
  "ranCbs (resetTimerfd env q t) = ranCbs q"
  "timerfd (resetTimerfd env q t) = Some (howMuchTImeFromNow t (clk env (clockReads q)))"
  by (simp_all add: resetTimerfd_def read_clock_def)

lemma deref_Some [simp]: "deref q a = Inr t \<longleftrightarrow> heap q a = Some t"
  by (simp add: deref_def split: option.splits)

lemma insert_timer_inv:
  assumes "tq_inv (insert a E) q" "a \<notin> E" "insert_timer nd here q a = Inr (b, q')"
  shows "tq_inv E q'"
proof -
  obtain t where t: "heap q a = Some t" and q': "q' = q\<lparr>timers := set_emplace (t_expration t, a) (timers q)\<rparr>"
    using assms(3) by (auto simp: insert_timer_def Let_def)
  have na: "a \<notin> snd ` set (timers q)" using assms(1) by (auto simp: tq_inv_def)
  then have new: "(t_expration t, a) \<notin> set (timers q)" by (force simp: image_iff)
  have inj: "inj_on snd (set (timers q))" "distinct (timers q)"
    using assms(1) by (auto simp: tq_inv_def distinct_map)
  have "distinct (map snd (set_emplace (t_expration t, a) (timers q)))"
    using new inj na by (auto simp: distinct_map set_emplace_def distinct_insort set_insort_key)
  then show ?thesis
    using assms(1,2) t na inj new
    by (auto simp: tq_inv_def q' set_emplace_def sorted_insort set_insort_key entry_ok_def)
qed

lemma addTimer_inv:
  assumes "tq_inv E q" "malloc_ok env" "addTimer env nd here q cb when iv = Inr (i, q')"
  shows "tq_inv E q'"
proof -
  obtain a where a: "malloc env (dom (heap q)) = Some a"
    using assms(3) by (auto simp: addTimer_def split: option.splits)
  then have fresh: "a \<notin> dom (heap q)" "a < UINTPTR_MAX" using assms(2) by (auto simp: malloc_ok_def)
  let ?q1 = "q\<lparr>heap := (heap q)(a \<mapsto> Timer_new cb when iv (numCreated q)), numCreated := numCreated q + 1\<rparr>"
  have nE: "a \<notin> E" "a \<notin> snd ` set (timers q)" using assms(1) fresh by (auto simp: tq_inv_def)
  have i1: "tq_inv (insert a E) ?q1" using assms(1) fresh nE(2) by (auto simp: tq_inv_def)
  obtain b q2 where ins: "insert_timer nd here ?q1 a = Inr (b, q2)"
    and q': "timers q' = timers q2" "heap q' = heap q2"
    using assms(3) a by (auto simp: addTimer_def addTimerInLoop_def Let_def split: if_splits)
  then show ?thesis
    using insert_timer_inv [OF i1 nE(1) ins] tq_inv_frame [OF q'] by simp
qed

lemma cancel_inv: "tq_inv E q \<Longrightarrow> cancel nd here q tid = Inr q' \<Longrightarrow> tq_inv E q'"
  by (auto simp: cancel_def cancelInLoop_def split: if_splits elim: tq_inv_frame [THEN iffD1, rotated 2])

lemma run_cmds_inv:
  assumes "malloc_ok env"
  shows "tq_inv E q \<Longrightarrow> run_cmds env nd here q cs = Inr q' \<Longrightarrow> tq_inv E q'"
proof (induction cs arbitrary: q)
  case Nil
  then show ?case by simp
next
  case (Cons c cs)
  then show ?case by (cases c) (auto dest: addTimer_inv [OF _ assms] cancel_inv)
qed

lemma run_expired_inv:
  assumes "malloc_ok env"
  shows "tq_inv E q \<Longrightarrow> run_expired env nd here q es = Inr q' \<Longrightarrow> tq_inv E q'"
proof (induction es arbitrary: q)
  case Nil
  then show ?case by simp
next
  case (Cons e es)
  from Cons.prems(2) obtain t :: Timer and q1 where
    "run_cmds env nd here (q\<lparr>ranCbs := ranCbs q @ [t_cb t]\<rparr>) (script env (t_cb t)) = Inr q1"
    and rest: "run_expired env nd here q1 es = Inr q'"
    unfolding run_expired.simps Timer_run_def rbind_eq_Inr by blast
  moreover have "tq_inv E (q\<lparr>ranCbs := ranCbs q @ [t_cb t]\<rparr>)" using Cons.prems(1) by (simp add: tq_inv_def)
  ultimately have "tq_inv E q1" using run_cmds_inv [OF assms] by blast
  then show ?case using Cons.IH rest by blast
qed

lemma getExpired_inv:
  assumes "tq_inv {} q" "getExpired nd here q now = Inr (es, q')"
  shows "tq_inv (snd ` set es) q' \<and> distinct (map snd es)"
proof -
  let ?es = "set_before (now, UINTPTR_MAX) (timers q)"
  have es: "es = ?es" and q': "q' = q\<lparr>timers := drop (length ?es) (timers q)\<rparr>"
    using assms(2) by (auto simp: getExpired_def Let_def)
  have split: "timers q = es @ timers q'" using set_before_append by (simp add: es q')
  have "sorted (timers q')" "distinct (map snd (es @ timers q'))"
    using assms(1) split by (simp_all add: tq_inv_def sorted_append)
  moreover have "heap q' = heap q" by (simp add: q')
  ultimately show ?thesis
    using assms(1) split unfolding tq_inv_def by auto
qed

lemma reset_loop_inv:
  assumes "tq_inv (snd ` set es) q" "distinct (map snd es)"
    and "reset_loop nd here now q c es = Inr (c', q')"
  shows "tq_inv {} q'"
  using assms
proof (induction es arbitrary: q c)
  case Nil
  then show ?case by simp
next
  case (Cons e es)
  obtain t where t: "heap q (snd e) = Some t" using Cons.prems(3) by auto
  have ne: "snd e \<notin> snd ` set es" using Cons.prems(2) by simp
  have na: "snd e \<notin> snd ` set (timers q)" using Cons.prems(1) by (auto simp: tq_inv_def)
  show ?case
  proof (cases "t_repeat t \<and> cancelingTimers q (snd e) = None")
    case True
    let ?q1 = "q\<lparr>heap := (heap q)(snd e \<mapsto> restart t now)\<rparr>"
    have i1: "tq_inv (insert (snd e) (snd ` set es)) ?q1"
      using Cons.prems(1) na t by (auto simp: tq_inv_def)
    obtain b q2 where ins: "insert_timer nd here ?q1 (snd e) = Inr (b, q2)"
      and rl: "reset_loop nd here now q2 (c \<or> b) es = Inr (c', q')"
      using Cons.prems(3) t True by auto
    show ?thesis
      using Cons.IH [OF insert_timer_inv [OF i1 ne ins] _ rl] Cons.prems(2) by simp
  next
    case False
    let ?q1 = "q\<lparr>heap := (heap q)(snd e := None)\<rparr>"
    have "tq_inv (snd ` set es) ?q1"
      using Cons.prems(1) na ne t by (auto simp: tq_inv_def)
    then show ?thesis using Cons.IH Cons.prems(2,3) t False by auto
  qed
qed

lemma handleRead_inv:
  assumes "tq_inv {} q" "malloc_ok env" "tq_handleRead env nd here q = Inr q'"
  shows "tq_inv {} q'"
proof -
  let ?now = "clk env (clockReads q)"
  let ?q0 = "readTimerfd (q\<lparr>clockReads := clockReads q + 1\<rparr>)"
  obtain es q1 q2 where 1: "getExpired nd here ?q0 ?now = Inr (es, q1)"
    and 2: "run_expired env nd here (q1\<lparr>callingExpiredTimers := True, cancelingTimers := Map.empty\<rparr>) es = Inr q2"
    and 3: "reset env nd here (q2\<lparr>callingExpiredTimers := False\<rparr>) es ?now = Inr q'"
    using assms(3) by (auto simp: tq_handleRead_def read_clock_def)
  have "tq_inv {} ?q0" using assms(1) by (simp add: tq_inv_def readTimerfd_def)
  with getExpired_inv 1 have es: "tq_inv (snd ` set es) q1" "distinct (map snd es)" by blast+
  then have "tq_inv (snd ` set es) (q1\<lparr>callingExpiredTimers := True, cancelingTimers := Map.empty\<rparr>)"
    by (simp add: tq_inv_def)
  then have "tq_inv (snd ` set es) q2" using run_expired_inv [OF assms(2)] 2 by blast
  then have i3: "tq_inv (snd ` set es) (q2\<lparr>callingExpiredTimers := False\<rparr>)" by (simp add: tq_inv_def)
  obtain c q3 where "reset_loop nd here ?now (q2\<lparr>callingExpiredTimers := False\<rparr>) False es = Inr (c, q3)"
    and q': "timers q' = timers q3" "heap q' = heap q3"
    using 3 by (auto simp: reset_def Let_def split: if_splits)
  then have "tq_inv {} q3" using reset_loop_inv [OF i3 es(2)] by blast
  then show ?thesis using tq_inv_frame [OF q'] by simp
qed

text \<open>The states of a queue over its life: the constructor, then calls of \<open>addTimer\<close>, of
  \<open>cancel\<close> and of \<open>handleRead\<close>, in any order, with any callbacks.\<close>

inductive tq_reachable :: "tq_env \<Rightarrow> bool \<Rightarrow> bool \<Rightarrow> TimerQueue \<Rightarrow> bool" for env nd here where
  created: "tq_reachable env nd here TimerQueue_new"
| added: "tq_reachable env nd here q \<Longrightarrow> addTimer env nd here q cb w iv = Inr (i, q') \<Longrightarrow>
    tq_reachable env nd here q'"
| cancelled: "tq_reachable env nd here q \<Longrightarrow> cancel nd here q tid = Inr q' \<Longrightarrow> tq_reachable env nd here q'"
| fired: "tq_reachable env nd here q \<Longrightarrow> tq_handleRead env nd here q = Inr q' \<Longrightarrow> tq_reachable env nd here q'"

lemma reachable_inv: "tq_reachable env nd here q \<Longrightarrow> malloc_ok env \<Longrightarrow> tq_inv {} q"
proof (induction rule: tq_reachable.induct)
  case created
  then show ?case by (simp add: tq_inv_def TimerQueue_new_def)
next
  case (added q cb w iv i q')
  then show ?case using addTimer_inv by blast
next
  case (cancelled q tid q')
  then show ?case using cancel_inv by blast
next
  case (fired q q')
  then show ?case using handleRead_inv by blast
qed

section \<open>What one expiration does\<close>

definition due :: "Timestamp \<Rightarrow> TimerQueue \<Rightarrow> Entry list" where
  "due now q = filter (\<lambda>e. fst e \<le> now) (timers q)"

definition waiting :: "Timestamp \<Rightarrow> TimerQueue \<Rightarrow> Entry list" where
  "waiting now q = filter (\<lambda>e. now < fst e) (timers q)"

definition timer_at :: "TimerQueue \<Rightarrow> Entry \<Rightarrow> Timer" where
  "timer_at q e = the (heap q (snd e))"

definition restarted :: "Timestamp \<Rightarrow> TimerQueue \<Rightarrow> Entry list \<Rightarrow> Entry set" where
  "restarted now q es =
     (\<lambda>e. (addTime now (t_interval (timer_at q e)), snd e)) ` {e \<in> set es. t_repeat (timer_at q e)}"

lemma restarted_cong:
  "(\<And>e. e \<in> set es \<Longrightarrow> timer_at q e = timer_at q' e) \<Longrightarrow> restarted now q es = restarted now q' es"
  unfolding restarted_def by (rule image_cong) auto

lemma restarted_Cons:
  "restarted now q (e # es) = (if t_repeat (timer_at q e)
     then insert (addTime now (t_interval (timer_at q e)), snd e) (restarted now q es)
     else restarted now q es)"
  by (auto simp: restarted_def)

text \<open>The first entry of the set is new: it comes before all those that were waiting.\<close>

definition earlier :: "Entry list \<Rightarrow> Entry list \<Rightarrow> bool" where
  "earlier rest cur \<longleftrightarrow> cur \<noteq> [] \<and> (rest = [] \<or> fst (hd cur) < fst (hd rest))"

lemma getExpired_due:
  assumes "tq_inv {} q" "nd \<or> here"
  shows "getExpired nd here q now = Inr (due now q, q\<lparr>timers := waiting now q\<rparr>)"
proof -
  let ?k = "(now, UINTPTR_MAX)"
  have srt: "sorted (timers q)" and adr: "e \<in> set (timers q) \<Longrightarrow> snd e < UINTPTR_MAX" for e
    using assms(1) by (auto simp: tq_inv_def)
  have lt: "e < ?k \<longleftrightarrow> fst e \<le> now" if "e \<in> set (timers q)" for e
    using adr [OF that] by (cases e) (auto simp: less_prod_def)
  have "\<not> e < ?k" if "e \<in> set (dropWhile (\<lambda>e. e < ?k) (timers q))" for e
    using set_before_split(2) [OF srt, of ?k] that by (simp add: set_before_def dropWhile_eq_drop)
  then have "set_before ?k (timers q) = filter (\<lambda>e. e < ?k) (timers q)"
    unfolding set_before_def by (rule takeWhile_eq_filter)
  also have "\<dots> = due now q" unfolding due_def using lt by (intro filter_cong) auto
  finally have es: "set_before ?k (timers q) = due now q" .
  have "timers q = due now q @ drop (length (due now q)) (timers q)"
    using set_before_append [of ?k "timers q"] es by simp
  then have "filter (\<lambda>e. now < fst e) (timers q) =
      filter (\<lambda>e. now < fst e) (due now q) @ filter (\<lambda>e. now < fst e) (drop (length (due now q)) (timers q))"
    by (metis filter_append)
  moreover have "filter (\<lambda>e. now < fst e) (due now q) = []" by (auto simp: due_def filter_empty_conv)
  moreover have "filter (\<lambda>e. now < fst e) (drop (length (due now q)) (timers q)) = drop (length (due now q)) (timers q)"
  proof (intro filter_True ballI)
    fix e assume "e \<in> set (drop (length (due now q)) (timers q))"
    then have "e \<in> set (timers q)" "\<not> e < ?k" using set_before_split(2) [OF srt, of ?k] unfolding es by blast+
    then show "now < fst e" using lt by (meson not_le)
  qed
  ultimately have "drop (length (due now q)) (timers q) = waiting now q" by (simp add: waiting_def)
  then show ?thesis using assms(2) es by (simp add: getExpired_def assertInLoopThread_def Let_def cassert_def)
qed

lemma run_expired_inert:
  assumes "\<And>e. e \<in> set es \<Longrightarrow> \<exists>t. heap q (snd e) = Some t \<and> script env (t_cb t) = []"
  shows "run_expired env nd here q es = Inr (q\<lparr>ranCbs := ranCbs q @ map (\<lambda>e. t_cb (timer_at q e)) es\<rparr>)"
  using assms
proof (induction es arbitrary: q)
  case Nil
  then show ?case by simp
next
  case (Cons e es)
  obtain t where t: "heap q (snd e) = Some t" "script env (t_cb t) = []" using Cons.prems [of e] by auto
  let ?q1 = "q\<lparr>ranCbs := ranCbs q @ [t_cb t]\<rparr>"
  have "run_expired env nd here ?q1 es = Inr (?q1\<lparr>ranCbs := ranCbs ?q1 @ map (\<lambda>e. t_cb (timer_at ?q1 e)) es\<rparr>)"
    using Cons.prems by (intro Cons.IH) auto
  then show ?case using t by (simp add: Timer_run_def deref_def timer_at_def)
qed

lemma earlier_emplace:
  assumes "sorted cur" "rest = [] \<or> cur \<noteq> [] \<and> fst (hd cur) \<le> fst (hd rest)"
  shows "earlier rest (set_emplace e cur) \<longleftrightarrow> earlier rest cur \<or> cur = [] \<or> fst e < fst (hd cur)"
    and "rest = [] \<or> fst (hd (set_emplace e cur)) \<le> fst (hd rest)"
  using assms by (auto simp: earlier_def hd_set_emplace min_def)

lemma reset_loop_inert:
  assumes "tq_inv (snd ` set es) q" "distinct (map snd es)" "nd \<or> here" "cancelingTimers q = Map.empty"
    and "rest = [] \<or> timers q \<noteq> [] \<and> fst (hd (timers q)) \<le> fst (hd rest)" "c = earlier rest (timers q)"
  shows "\<exists>q'. reset_loop nd here now q c es = Inr (earlier rest (timers q'), q')
    \<and> set (timers q') = set (timers q) \<union> restarted now q es
    \<and> ranCbs q' = ranCbs q \<and> timerfd q' = timerfd q \<and> clockReads q' = clockReads q"
  using assms
proof (induction es arbitrary: q c)
  case Nil
  then show ?case by (simp add: restarted_def)
next
  case (Cons e es)
  have "snd e \<in> dom (heap q)" using Cons.prems(1) by (auto simp: tq_inv_def)
  then obtain t where t: "heap q (snd e) = Some t" by auto
  have ne: "snd e \<notin> snd ` set es" and dist: "distinct (map snd es)" using Cons.prems(2) by auto
  have na: "snd e \<notin> snd ` set (timers q)" and srt: "sorted (timers q)"
    using Cons.prems(1) by (auto simp: tq_inv_def)
  have same: "restarted now q' es = restarted now q es" if "heap q' = (heap q)(snd e := x)" for x q'
  proof (rule restarted_cong)
    fix e' assume "e' \<in> set es"
    then have "snd e' \<noteq> snd e" using ne by (metis imageI)
    then show "timer_at q' e' = timer_at q e'" using that by (simp add: timer_at_def)
  qed
  show ?case
  proof (cases "t_repeat t")
    case True
    let ?q1 = "q\<lparr>heap := (heap q)(snd e \<mapsto> restart t now)\<rparr>"
    let ?n = "(addTime now (t_interval t), snd e)"
    let ?q2 = "?q1\<lparr>timers := set_emplace ?n (timers q)\<rparr>"
    have i1: "tq_inv (insert (snd e) (snd ` set es)) ?q1" using Cons.prems(1) na t by (auto simp: tq_inv_def)
    have ins: "insert_timer nd here ?q1 (snd e) = Inr (timers q = [] \<or> fst ?n < fst (hd (timers q)), ?q2)"
      using Cons.prems(3) True
      by (simp add: insert_timer_def assertInLoopThread_def cassert_def deref_def restart_def Let_def)
    have "\<exists>q'. reset_loop nd here now ?q2 (c \<or> timers q = [] \<or> fst ?n < fst (hd (timers q))) es =
        Inr (earlier rest (timers q'), q') \<and> set (timers q') = set (timers ?q2) \<union> restarted now ?q2 es
        \<and> ranCbs q' = ranCbs ?q2 \<and> timerfd q' = timerfd ?q2 \<and> clockReads q' = clockReads ?q2"
      using insert_timer_inv [OF i1 ne ins] dist Cons.prems(3-6) earlier_emplace [OF srt Cons.prems(5), of ?n]
      by (intro Cons.IH) auto
    moreover have "restarted now q (e # es) = insert ?n (restarted now ?q2 es)"
      using same [of ?q2] t True by (simp add: restarted_Cons timer_at_def)
    ultimately show ?thesis using t True Cons.prems(4) ins by (auto simp: deref_def)
  next
    case False
    let ?q1 = "q\<lparr>heap := (heap q)(snd e := None)\<rparr>"
    have i1: "tq_inv (snd ` set es) ?q1" using Cons.prems(1) na ne t by (auto simp: tq_inv_def)
    have "\<exists>q'. reset_loop nd here now ?q1 c es = Inr (earlier rest (timers q'), q')
        \<and> set (timers q') = set (timers ?q1) \<union> restarted now ?q1 es
        \<and> ranCbs q' = ranCbs ?q1 \<and> timerfd q' = timerfd ?q1 \<and> clockReads q' = clockReads ?q1"
      using i1 dist Cons.prems(3-6) by (intro Cons.IH) auto
    moreover have "restarted now q (e # es) = restarted now ?q1 es"
      using same [of ?q1] t False by (simp add: restarted_Cons timer_at_def)
    ultimately show ?thesis using t False by (auto simp: deref_def)
  qed
qed

lemma handleRead_inert:
  fixes q :: TimerQueue
  defines "now \<equiv> \<lambda>env. clk env (clockReads q)"
  assumes inv: "tq_inv {} q" and thr: "nd \<or> here"
    and inert: "\<And>e. e \<in> set (due (now env) q) \<Longrightarrow> script env (t_cb (timer_at q e)) = []"
  shows "\<exists>q'. tq_handleRead env nd here q = Inr q'
    \<and> ranCbs q' = ranCbs q @ map (\<lambda>e. t_cb (timer_at q e)) (due (now env) q)
    \<and> set (timers q') = set (waiting (now env) q) \<union> restarted (now env) q (due (now env) q)
    \<and> timerfd q' = (if earlier (waiting (now env) q) (timers q') \<and> Timestamp_valid (fst (hd (timers q')))
         then Some (howMuchTImeFromNow (fst (hd (timers q'))) (clk env (clockReads q + 1))) else None)"
proof -
  let ?now = "now env" and ?es = "due (now env) q" and ?rest = "waiting (now env) q"
  let ?q0 = "readTimerfd (q\<lparr>clockReads := clockReads q + 1\<rparr>)"
  let ?q1 = "q\<lparr>clockReads := clockReads q + 1, timerfd := None, timers := ?rest,
      callingExpiredTimers := True, cancelingTimers := Map.empty\<rparr>"
  let ?q2 = "?q1\<lparr>ranCbs := ranCbs q @ map (\<lambda>e. t_cb (timer_at q e)) ?es\<rparr>"
  let ?q3 = "?q2\<lparr>callingExpiredTimers := False\<rparr>"
  have inv0: "tq_inv {} ?q0" using inv by (simp add: tq_inv_def readTimerfd_def)
  have ge: "getExpired nd here ?q0 ?now = Inr (?es, ?q0\<lparr>timers := ?rest\<rparr>)"
    using getExpired_due [OF inv0 thr] by (simp add: due_def waiting_def readTimerfd_def)
  have inv1: "tq_inv (snd ` set ?es) ?q3" and dist: "distinct (map snd ?es)"
    using getExpired_inv [OF inv0 ge] by (simp_all add: tq_inv_def readTimerfd_def)
  have live: "\<exists>t. heap q (snd e) = Some t \<and> script env (t_cb t) = []" if "e \<in> set ?es" for e
  proof -
    have "entry_ok (heap q) e" using that inv by (auto simp: tq_inv_def due_def)
    then show ?thesis using inert [OF that] by (auto simp: entry_ok_def timer_at_def split: option.splits)
  qed
  have re: "run_expired env nd here ?q1 ?es = Inr ?q2"
    using run_expired_inert [of ?es ?q1 env nd here] live by (simp add: timer_at_def)
  have "earlier ?rest ?rest = False" by (simp add: earlier_def)
  with reset_loop_inert [OF inv1 dist thr, of ?rest False ?now] obtain q4 where
    q4: "reset_loop nd here ?now ?q3 False ?es = Inr (earlier ?rest (timers q4), q4)"
      "set (timers q4) = set ?rest \<union> restarted ?now ?q3 ?es" "ranCbs q4 = ranCbs ?q2"
      "timerfd q4 = None" "clockReads q4 = clockReads q + 1" by auto
  have rs: "restarted ?now ?q3 ?es = restarted ?now q ?es"
    by (rule restarted_cong) (simp add: timer_at_def)
  have "tq_handleRead env nd here q = reset env nd here ?q3 ?es ?now"
    using ge re thr by (simp add: tq_handleRead_def assertInLoopThread_def cassert_def read_clock_def
        readTimerfd_def now_def)
  then show ?thesis
    using q4 rs by (auto simp: reset_def Let_def earlier_def)
qed

text \<open>The destructor deletes every timer of the set, each once.\<close>

lemma delete_all_result:
  assumes "distinct (map snd es)" "snd ` set es \<subseteq> dom (heap q)"
  shows "\<exists>q'. delete_all q es = Inr q' \<and> heap q' = heap q |` (- snd ` set es) \<and> timerfdOpen q' = timerfdOpen q"
  using assms
proof (induction es arbitrary: q)
  case (Cons e es)
  let ?q = "q\<lparr>heap := (heap q)(snd e := None)\<rparr>"
  obtain t where t: "heap q (snd e) = Some t" using Cons.prems(2) by auto
  have "snd e \<notin> snd ` set es" "snd ` set es \<subseteq> dom (heap q)" using Cons.prems by simp_all
  then have "snd ` set es \<subseteq> dom (heap q) - {snd e}" by blast
  then have "snd ` set es \<subseteq> dom (heap ?q)" by simp
  then obtain q' where "delete_all ?q es = Inr q'" "heap q' = heap ?q |` (- snd ` set es)" "timerfdOpen q' = timerfdOpen ?q"
    using Cons.IH [of ?q] Cons.prems(1) unfolding list.map distinct.simps by blast
  then show ?case using t by (auto simp: deref_def restrict_map_def fun_eq_iff)
qed (simp add: restrict_map_def)

lemma destroy_frees:
  assumes "tq_inv {} q"
  shows "\<exists>q'. TimerQueue_destroy q = Inr q' \<and> heap q' = Map.empty \<and> \<not> timerfdOpen q'"
proof -
  let ?q = "q\<lparr>timerfdWatched := False, timerfdOpen := False, timerfd := None\<rparr>"
  have i: "distinct (map snd (timers q))" "dom (heap q) = snd ` set (timers q)" using assms by (auto simp: tq_inv_def)
  obtain q' where "delete_all ?q (timers q) = Inr q'" "heap q' = heap q |` (- dom (heap q))" "\<not> timerfdOpen q'"
    using delete_all_result [of "timers q" ?q] i by auto
  then show ?thesis by (auto simp: TimerQueue_destroy_def restrict_map_def domIff fun_eq_iff)
qed

section \<open>Properties\<close>

text \<open>A queue of two timers, one of them periodic, and an allocator that takes the lowest
  free address below the limit.\<close>

definition first_free :: "nat set \<Rightarrow> nat option" where
  "first_free S = find (\<lambda>a. a \<notin> S) [16, 32, 48]"

definition demo_env :: tq_env where
  "demo_env = \<lparr>clk = (\<lambda>n. Timestamp (1000000 * (int n + 1))), malloc = first_free, script = (\<lambda>_. [])\<rparr>"

lemma demo_malloc_ok: "malloc_ok demo_env"
  by (auto simp: malloc_ok_def demo_env_def first_free_def UINTPTR_MAX_def)

lemmas tq_run_simps = TimerQueue_new_def addTimer_def addTimerInLoop_def insert_timer_def
  assertInLoopThread_def Timer_new_def demo_env_def first_free_def resetTimerfd_def read_clock_def
  set_emplace_def deref_def Let_def

definition demo_queue :: TimerQueue where
  "demo_queue = (case rbind (addTimer demo_env True True TimerQueue_new 7 (Timestamp 1500000) 0)
      (\<lambda>(_, q). addTimer demo_env True True q 8 (Timestamp 9000000) 0) of Inr (_, q) \<Rightarrow> q | Inl _ \<Rightarrow> TimerQueue_new)"

lemma demo_queue_eq:
  "demo_queue = \<lparr>callingExpiredTimers = False,
     timers = [(Timestamp 1500000, 16), (Timestamp 9000000, 32)], cancelingTimers = Map.empty,
     heap = [16 \<mapsto> \<lparr>t_repeat = False, t_sequence = 1, t_interval = 0, t_expration = Timestamp 1500000, t_cb = 7\<rparr>,
             32 \<mapsto> \<lparr>t_repeat = False, t_sequence = 2, t_interval = 0, t_expration = Timestamp 9000000, t_cb = 8\<rparr>],
     numCreated = 2, timerfd = Some (howMuchTImeFromNow (Timestamp 1500000) (Timestamp 1000000)),
     clockReads = 1, ranCbs = [], timerfdWatched = True, timerfdOpen = True\<rparr>"
  by (simp add: demo_queue_def tq_run_simps less_Timestamp_def Timestamp_less_def less_eq_Timestamp_def less_eq_prod_def)

lemma demo_reachable: "tq_reachable demo_env True True demo_queue"
proof -
  obtain i q1 where q1: "addTimer demo_env True True TimerQueue_new 7 (Timestamp 1500000) 0 = Inr (i, q1)"
    by (simp add: tq_run_simps)
  have "\<exists>j q2. addTimer demo_env True True q1 8 (Timestamp 9000000) 0 = Inr (j, q2)"
    using q1 by (auto simp: tq_run_simps)
  then obtain j q2 where q2: "addTimer demo_env True True q1 8 (Timestamp 9000000) 0 = Inr (j, q2)"
    by blast
  have "demo_queue = q2" using q1 q2 by (simp add: demo_queue_def)
  then show ?thesis using tq_reachable.added [OF tq_reachable.added [OF tq_reachable.created q1] q2] by simp
qed

text \<open>C10: In every state a queue reaches (any order of \<open>addTimer\<close>, \<open>cancel\<close> and expirations,
  with callbacks that themselves add and cancel timers), \<open>timers_\<close> is ordered, every entry
  points to a live timer with the entry's expiration, no timer is in the set twice, and there
  is no other live timer: nothing dangles and nothing leaks. The destructor deletes each of them
  once and closes the timer descriptor. Of the allocator this uses that
  \<open>new\<close> returns no address in use and none as large as \<open>UINTPTR_MAX\<close>.\<close>

theorem timer_queue_invariant:
  assumes "tq_reachable env nd here q" "malloc_ok env"
  shows "sorted (timers q) \<and> distinct (map snd (timers q)) \<and> dom (heap q) = snd ` set (timers q)
    \<and> (\<forall>(t, a) \<in> set (timers q). \<exists>tm. heap q a = Some tm \<and> t_expration tm = t)
    \<and> (\<exists>q'. TimerQueue_destroy q = Inr q' \<and> heap q' = Map.empty \<and> \<not> timerfdOpen q')"
  using reachable_inv [OF assms] destroy_frees [OF reachable_inv [OF assms]]
  by (auto simp: tq_inv_def entry_ok_def split: option.splits)

theorem timer_queue_invariant_witness:
  "sorted (timers demo_queue) \<and> dom (heap demo_queue) = {16, 32} \<and> (\<exists>q'. TimerQueue_destroy demo_queue = Inr q' \<and> heap q' = Map.empty)"
  using timer_queue_invariant [OF demo_reachable demo_malloc_ok] by (auto simp: demo_queue_eq)



text \<open>C37: When only one-shot timers were due, \<open>handleRead\<close> leaves the timer descriptor
  disarmed although timers are waiting: \<open>reset\<close> arms it only if it restarted a timer. Without
  another \<open>addTimer\<close> that becomes the earliest, the waiting timers never fire.\<close>

theorem waiting_timers_starve:
  assumes "tq_inv {} q" "nd \<or> here" "waiting (clk env (clockReads q)) q \<noteq> []"
    and "\<forall>e \<in> set (due (clk env (clockReads q)) q).
           script env (t_cb (timer_at q e)) = [] \<and> \<not> t_repeat (timer_at q e)"
  shows "\<exists>q'. tq_handleRead env nd here q = Inr q' \<and> timerfd q' = None
    \<and> set (timers q') = set (waiting (clk env (clockReads q)) q) \<and> timers q' \<noteq> []"
proof -
  let ?now = "clk env (clockReads q)"
  obtain q' where q': "tq_handleRead env nd here q = Inr q'"
    "set (timers q') = set (waiting ?now q) \<union> restarted ?now q (due ?now q)"
    "timerfd q' = (if earlier (waiting ?now q) (timers q') \<and> Timestamp_valid (fst (hd (timers q')))
         then Some (howMuchTImeFromNow (fst (hd (timers q'))) (clk env (clockReads q + 1))) else None)"
    using handleRead_inert [OF assms(1,2), of env] assms(4) by blast
  have "restarted ?now q (due ?now q) = {}" using assms(4) by (auto simp: restarted_def)
  then have eq: "set (timers q') = set (waiting ?now q)" using q'(2) by simp
  then have ne: "timers q' \<noteq> []" using assms(3) by auto
  have srt: "sorted (waiting ?now q)"
    using assms(1) sorted_filter [of id "timers q"] by (simp add: waiting_def tq_inv_def)
  have "hd (waiting ?now q) \<le> e" if "e \<in> set (waiting ?now q)" for e
    using srt that by (cases "waiting ?now q") auto
  then have "hd (waiting ?now q) \<le> hd (timers q')" using eq ne hd_in_set by blast
  then have "\<not> earlier (waiting ?now q) (timers q')"
    using assms(3) by (auto simp: earlier_def less_eq_prod_def)
  then show ?thesis using q' eq ne by auto
qed

theorem waiting_timers_starve_witness:
  "\<exists>q'. tq_handleRead demo_env True True demo_queue = Inr q' \<and> timerfd q' = None \<and> timers q' \<noteq> []"
proof -
  have i: "tq_inv {} demo_queue" using reachable_inv [OF demo_reachable demo_malloc_ok] .
  have d: "due (clk demo_env (clockReads demo_queue)) demo_queue = [(Timestamp 1500000, 16)]"
    "waiting (clk demo_env (clockReads demo_queue)) demo_queue = [(Timestamp 9000000, 32)]"
    by (simp_all add: demo_queue_eq demo_env_def due_def waiting_def less_eq_Timestamp_def less_Timestamp_def Timestamp_less_def)
  have s: "script demo_env n = []" for n by (simp add: demo_env_def)
  have r: "\<not> t_repeat (timer_at demo_queue (Timestamp 1500000, 16))"
    by (simp add: timer_at_def demo_queue_eq)
  show ?thesis
    using waiting_timers_starve [OF i, of True True demo_env] unfolding d using s r by auto
qed

text \<open>Cancelling a timer that is still waiting always uses freed memory: \<open>cancelInLoop\<close>
  erases the set node and then reads the pointer out of it.\<close>

theorem cancel_waiting_use_after_free:
  assumes "tq_reachable env nd here q" "malloc_ok env" "nd \<or> here" "(t, a) \<in> set (timers q)"
  shows "cancel nd here q \<lparr>id_timer = a, id_sequence = s\<rparr> = Inl UseAfterFree"
proof -
  have "entry_ok (heap q) (t, a)" using reachable_inv [OF assms(1,2)] assms(4) by (auto simp: tq_inv_def)
  then show ?thesis
    using assms(3,4)
    by (auto simp: cancel_def cancelInLoop_def assertInLoopThread_def cassert_def deref_def entry_ok_def
        split: option.splits)
qed

theorem cancel_waiting_use_after_free_witness:
  "cancel True True demo_queue \<lparr>id_timer = 32, id_sequence = 2\<rparr> = Inl UseAfterFree"
  by (rule cancel_waiting_use_after_free [OF demo_reachable demo_malloc_ok])
     (simp_all add: demo_queue_eq)

end
