(* ===== verification/EpollPoller.thy ===== *)
theory EpollPoller
  imports Channel TimerQueue
begin

text \<open>
  \<^verbatim>\<open>Poller.h\<close>, \<^verbatim>\<open>EpollPoller.h\<close>, \<^verbatim>\<open>EpollPoller.cpp\<close>, and the functions of \<^verbatim>\<open>Channel.cpp\<close> and
  \<^verbatim>\<open>EventLoop.cpp\<close> that reach the poller. Channels are objects at addresses; the kernel's
  interest list of the epoll descriptor is a map from file descriptors to a mask and the
  registered pointer, with the documented errors of \<open>epoll_ctl\<close> (\<open>EEXIST\<close> for an add of a
  present descriptor, \<open>ENOENT\<close> for a change of an absent one). The abstract class \<open>Poller\<close> is
  the locale \<open>poller\<close>: what its clients rely on; \<open>EpollPoller\<close> is shown to provide it.
\<close>

section \<open>State\<close>

record EpollPoller =
  ownerLoop :: nat
  channels :: "int \<rightharpoonup> nat"
  eventListSize :: nat
  chans :: "nat \<rightharpoonup> Channel"
  interest :: "int \<rightharpoonup> 32 word \<times> nat"

definition kNew :: int where "kNew = -1"
definition kAdded :: int where "kAdded = 1"
definition kDeleted :: int where "kDeleted = 2"

definition InitEventListSize :: nat where "InitEventListSize = 16"

definition EpollPoller_new :: "nat \<Rightarrow> EpollPoller" where
  "EpollPoller_new loop = \<lparr>ownerLoop = loop, channels = Map.empty, eventListSize = InitEventListSize,
     chans = Map.empty, interest = Map.empty\<rparr>"

definition chan_deref :: "EpollPoller \<Rightarrow> nat \<Rightarrow> Channel res" where
  "chan_deref s a = (case chans s a of None \<Rightarrow> Inl UseAfterFree | Some c \<Rightarrow> Inr c)"

definition chan_put :: "EpollPoller \<Rightarrow> nat \<Rightarrow> Channel \<Rightarrow> EpollPoller" where
  "chan_put s a c = s\<lparr>chans := (chans s)(a \<mapsto> c)\<rparr>"

section \<open>The kernel's interest list\<close>

datatype ctl_op = EPOLL_CTL_ADD | EPOLL_CTL_MOD | EPOLL_CTL_DEL

definition epoll_ctl :: "(int \<rightharpoonup> 32 word \<times> nat) \<Rightarrow> ctl_op \<Rightarrow> int \<Rightarrow> 32 word \<times> nat
    \<Rightarrow> bool \<times> (int \<rightharpoonup> 32 word \<times> nat)" where
  "epoll_ctl i oper f ev =
     (case oper of
        EPOLL_CTL_ADD \<Rightarrow> if i f = None then (True, i(f \<mapsto> ev)) else (False, i)
      | EPOLL_CTL_MOD \<Rightarrow> if i f \<noteq> None then (True, i(f \<mapsto> ev)) else (False, i)
      | EPOLL_CTL_DEL \<Rightarrow> if i f \<noteq> None then (True, i(f := None)) else (False, i))"

section \<open>Operations\<close>

definition epoll_update :: "EpollPoller \<Rightarrow> ctl_op \<Rightarrow> nat \<Rightarrow> Channel \<Rightarrow> EpollPoller res" where
  "epoll_update s oper a c =
     (case epoll_ctl (interest s) oper (fd c) (events c, a) of
        (True, i) \<Rightarrow> Inr (s\<lparr>interest := i\<rparr>)
      | (False, i) \<Rightarrow> if oper = EPOLL_CTL_DEL then Inr s else Inl ProcessAbort)"

definition epoll_updateChannel :: "bool \<Rightarrow> bool \<Rightarrow> EpollPoller \<Rightarrow> nat \<Rightarrow> EpollPoller res" where
  "epoll_updateChannel nd here s a =
     rbind (assertInLoopThread nd here) (\<lambda>_.
     rbind (chan_deref s a) (\<lambda>c.
       let f = fd c; idx = index c in
       if idx = kNew \<or> idx = kDeleted then
         rbind (if idx = kNew
                then rbind (cassert nd (channels s f = None)) (\<lambda>_. Inr (s\<lparr>channels := (channels s)(f \<mapsto> a)\<rparr>))
                else rbind (cassert nd (channels s f \<noteq> None)) (\<lambda>_.
                     rbind (cassert nd (channels s f = Some a)) (\<lambda>_. Inr s))) (\<lambda>s1.
         let c1 = set_index kAdded c in epoll_update (chan_put s1 a c1) EPOLL_CTL_ADD a c1)
       else
         rbind (cassert nd (channels s f \<noteq> None)) (\<lambda>_.
         rbind (cassert nd (channels s f = Some a)) (\<lambda>_.
         rbind (cassert nd (idx = kAdded)) (\<lambda>_.
         if isNoneEvent c then
           rbind (epoll_update s EPOLL_CTL_DEL a c) (\<lambda>s1. Inr (chan_put s1 a (set_index kDeleted c)))
         else epoll_update s EPOLL_CTL_MOD a c)))))"

definition epoll_removeChannel :: "bool \<Rightarrow> bool \<Rightarrow> EpollPoller \<Rightarrow> nat \<Rightarrow> EpollPoller res" where
  "epoll_removeChannel nd here s a =
     rbind (assertInLoopThread nd here) (\<lambda>_.
     rbind (chan_deref s a) (\<lambda>c.
       let f = fd c; idx = index c in
       rbind (cassert nd (channels s f \<noteq> None)) (\<lambda>_.
       rbind (cassert nd (channels s f = Some a)) (\<lambda>_.
       rbind (cassert nd (idx = kAdded \<or> idx = kDeleted)) (\<lambda>_.
       rbind (cassert nd (channels s f \<noteq> None)) (\<lambda>_.
         let s1 = s\<lparr>channels := (channels s)(f := None)\<rparr> in
         rbind (if idx = kAdded then epoll_update s1 EPOLL_CTL_DEL a c else Inr s1) (\<lambda>s2.
         Inr (chan_put s2 a (set_index kNew c)))))))))"

definition epoll_hasChannel :: "EpollPoller \<Rightarrow> nat \<Rightarrow> bool res" where
  "epoll_hasChannel s a = rbind (chan_deref s a) (\<lambda>c. Inr (channels s (fd c) \<noteq> None))"

text \<open>What \<open>epoll_wait\<close> returns: an error, or descriptors with the events that happened; the
  registered pointer comes back with each.\<close>

datatype wait_result = WaitError | WaitEvents "(int \<times> 32 word) list"

fun fillActiveChanneds :: "bool \<Rightarrow> EpollPoller \<Rightarrow> (int \<times> 32 word) list \<Rightarrow> (nat list \<times> EpollPoller) res" where
  "fillActiveChanneds nd s [] = Inr ([], s)"
| "fillActiveChanneds nd s ((f, ev) # es) =
     (case interest s f of
        None \<Rightarrow> Inl OutOfBounds
      | Some (_, a) \<Rightarrow>
          rbind (chan_deref s a) (\<lambda>c.
          rbind (cassert nd (channels s (fd c) \<noteq> None)) (\<lambda>_.
          rbind (cassert nd (channels s (fd c) = Some a)) (\<lambda>_.
          rbind (fillActiveChanneds nd (chan_put s a (setRevrnts ev c)) es) (\<lambda>(as, s1).
          Inr (a # as, s1))))))"

definition epoll_poll :: "bool \<Rightarrow> EpollPoller \<Rightarrow> wait_result \<Rightarrow> (nat list \<times> EpollPoller) res" where
  "epoll_poll nd s w =
     (case w of
        WaitError \<Rightarrow> Inr ([], s)
      | WaitEvents es \<Rightarrow>
          if es \<noteq> [] then
            rbind (fillActiveChanneds nd s es) (\<lambda>(as, s1).
            Inr (as, if length es = eventListSize s1 then s1\<lparr>eventListSize := eventListSize s1 * 2\<rparr> else s1))
          else Inr ([], s))"

text \<open>\<open>EventLoop::updateChannel\<close>, \<open>removeChannel\<close>, \<open>hasChannel\<close> and the operations of a channel.\<close>

definition loop_updateChannel :: "bool \<Rightarrow> bool \<Rightarrow> EpollPoller \<Rightarrow> nat \<Rightarrow> EpollPoller res" where
  "loop_updateChannel nd here s a =
     rbind (chan_deref s a) (\<lambda>c. rbind (cassert nd (ch_loop c = ownerLoop s)) (\<lambda>_.
     rbind (assertInLoopThread nd here) (\<lambda>_. epoll_updateChannel nd here s a)))"

definition loop_removeChannel :: "bool \<Rightarrow> bool \<Rightarrow> EpollPoller \<Rightarrow> nat \<Rightarrow> EpollPoller res" where
  "loop_removeChannel nd here s a =
     rbind (chan_deref s a) (\<lambda>c. rbind (cassert nd (ch_loop c = ownerLoop s)) (\<lambda>_.
     rbind (assertInLoopThread nd here) (\<lambda>_. epoll_removeChannel nd here s a)))"

definition loop_hasChannel :: "bool \<Rightarrow> bool \<Rightarrow> EpollPoller \<Rightarrow> nat \<Rightarrow> bool res" where
  "loop_hasChannel nd here s a =
     rbind (chan_deref s a) (\<lambda>c. rbind (cassert nd (ch_loop c = ownerLoop s)) (\<lambda>_.
     rbind (assertInLoopThread nd here) (\<lambda>_. epoll_hasChannel s a)))"

definition channel_update :: "bool \<Rightarrow> bool \<Rightarrow> interest_op \<Rightarrow> EpollPoller \<Rightarrow> nat \<Rightarrow> EpollPoller res" where
  "channel_update nd here k s a =
     rbind (chan_deref s a) (\<lambda>c.
     loop_updateChannel nd here (chan_put s a (c\<lparr>events := new_events k (events c)\<rparr>)) a)"

definition channel_remove :: "bool \<Rightarrow> bool \<Rightarrow> EpollPoller \<Rightarrow> nat \<Rightarrow> EpollPoller res" where
  "channel_remove nd here s a = loop_removeChannel nd here s a"

section \<open>Invariant\<close>

text \<open>
  The table and the kernel agree with the state each channel records in \<open>index_\<close>: a channel
  that is added or deleted is in the table under its descriptor, an added one is watched by
  the kernel for exactly its mask, and nothing else is watched.
\<close>

definition watched_by :: "EpollPoller \<Rightarrow> int \<Rightarrow> (32 word \<times> nat) option" where
  "watched_by s f = (case channels s f of None \<Rightarrow> None | Some a \<Rightarrow>
     (case chans s a of None \<Rightarrow> None | Some c \<Rightarrow> if index c = kAdded then Some (events c, a) else None))"

definition poller_inv :: "EpollPoller \<Rightarrow> bool" where
  "poller_inv s \<longleftrightarrow>
     (\<forall>f a. channels s f = Some a \<longrightarrow> (\<exists>c. chans s a = Some c \<and> fd c = f \<and> index c \<in> {kAdded, kDeleted}))
     \<and> (\<forall>a c. chans s a = Some c \<longrightarrow> index c \<in> {kNew, kAdded, kDeleted})
     \<and> (\<forall>a c. chans s a = Some c \<longrightarrow> index c \<noteq> kNew \<longrightarrow> channels s (fd c) = Some a)
     \<and> interest s = watched_by s"

text \<open>A channel that its loop may update: it is alive, belongs to the loop, and if it is new its
  descriptor is not in use by another channel of the poller.\<close>

definition usable :: "EpollPoller \<Rightarrow> nat \<Rightarrow> bool" where
  "usable s a \<longleftrightarrow> (case chans s a of None \<Rightarrow> False | Some c \<Rightarrow>
     ch_loop c = ownerLoop s \<and> (index c = kNew \<longrightarrow> channels s (fd c) = None))"

lemmas k_defs = kNew_def kAdded_def kDeleted_def

lemma poller_inv_frame:
  assumes "channels t = channels s" "chans t = chans s" "interest t = interest s"
  shows "poller_inv t = poller_inv s"
proof -
  have "watched_by t = watched_by s" unfolding watched_by_def assms by simp
  then show ?thesis by (simp add: poller_inv_def assms)
qed

lemma chan_put_inv:
  assumes "poller_inv s" "chans s a = Some c" "fd d = fd c" "index d = index c" "events d = events c"
  shows "poller_inv (chan_put s a d)"
proof -
  let ?t = "chan_put s a d"
  have w: "watched_by ?t = watched_by s"
    using assms(2-5) by (auto simp: watched_by_def chan_put_def fun_eq_iff split: option.splits)
  have "\<exists>e. chans ?t b = Some e \<and> fd e = f \<and> index e \<in> {kAdded, kDeleted}" if "channels ?t f = Some b" for f b
  proof -
    have "channels s f = Some b" using that by (simp add: chan_put_def)
    then obtain e where "chans s b = Some e" "fd e = f" "index e \<in> {kAdded, kDeleted}"
      using assms(1) unfolding poller_inv_def by blast
    then show ?thesis using assms(2-4) by (cases "b = a") (auto simp: chan_put_def)
  qed
  moreover have "index e \<in> {kNew, kAdded, kDeleted}" "index e \<noteq> kNew \<longrightarrow> channels ?t (fd e) = Some b"
    if "chans ?t b = Some e" for b e
    using that assms unfolding poller_inv_def chan_put_def by (auto split: if_splits)
  moreover have "interest ?t = watched_by ?t" using w assms(1) by (simp add: poller_inv_def chan_put_def)
  ultimately show ?thesis unfolding poller_inv_def by blast
qed

lemma usableE:
  assumes "usable s a" "poller_inv s"
  obtains c where "chans s a = Some c" "ch_loop c = ownerLoop s" "index c \<in> {kNew, kAdded, kDeleted}"
    "index c = kNew \<Longrightarrow> channels s (fd c) = None" "index c \<noteq> kNew \<Longrightarrow> channels s (fd c) = Some a"
    "interest s (fd c) = (if index c = kAdded then Some (events c, a) else None)"
proof -
  obtain c where c: "chans s a = Some c" "ch_loop c = ownerLoop s" "index c = kNew \<longrightarrow> channels s (fd c) = None"
    using assms(1) by (auto simp: usable_def split: option.splits)
  moreover have i: "index c \<in> {kNew, kAdded, kDeleted}" "index c \<noteq> kNew \<longrightarrow> channels s (fd c) = Some a"
    "interest s = watched_by s" using assms(2) c(1) by (auto simp: poller_inv_def)
  moreover have "interest s (fd c) = (if index c = kAdded then Some (events c, a) else None)"
    using c i by (cases "index c = kNew") (auto simp: watched_by_def k_defs)
  ultimately show ?thesis using that by blast
qed

text \<open>The state after an update, and after a removal.\<close>

definition updated :: "EpollPoller \<Rightarrow> nat \<Rightarrow> Channel \<Rightarrow> interest_op \<Rightarrow> EpollPoller" where
  "updated s a c k =
     (let ev = new_events k (events c);
          idx = (if index c = kAdded \<and> ev = 0 then kDeleted else kAdded)
      in s\<lparr>channels := (channels s)(fd c \<mapsto> a), chans := (chans s)(a \<mapsto> c\<lparr>events := ev, index := idx\<rparr>),
           interest := (interest s)(fd c := if idx = kAdded then Some (ev, a) else None)\<rparr>)"

definition removed :: "EpollPoller \<Rightarrow> nat \<Rightarrow> Channel \<Rightarrow> EpollPoller" where
  "removed s a c = s\<lparr>channels := (channels s)(fd c := None), chans := (chans s)(a \<mapsto> c\<lparr>index := kNew\<rparr>),
     interest := (interest s)(fd c := None)\<rparr>"

lemma channel_update_eq:
  assumes "poller_inv s" "usable s a" "nd \<or> here" "chans s a = Some c"
  shows "channel_update nd here k s a = Inr (updated s a c k)"
proof -
  obtain c' where c: "c' = c" "ch_loop c = ownerLoop s" "index c \<in> {kNew, kAdded, kDeleted}"
    "index c = kNew \<Longrightarrow> channels s (fd c) = None" "index c \<noteq> kNew \<Longrightarrow> channels s (fd c) = Some a"
    "interest s (fd c) = (if index c = kAdded then Some (events c, a) else None)"
    using usableE [OF assms(2,1)] assms(4) by (metis option.inject)
  let ?d = "c\<lparr>events := new_events k (events c)\<rparr>"
  let ?s = "chan_put s a ?d"
  have up: "channel_update nd here k s a = epoll_updateChannel nd here ?s a"
    using assms(3,4) c(2)
    by (simp add: channel_update_def loop_updateChannel_def chan_deref_def chan_put_def
        assertInLoopThread_def cassert_def)
  from c(3) consider "index c = kNew" | "index c = kAdded" | "index c = kDeleted" by auto
  then have "epoll_updateChannel nd here ?s a = Inr (updated s a c k)"
  proof cases
    case 1
    then show ?thesis
      using assms(3) c(4,6)
      by (simp add: epoll_updateChannel_def chan_deref_def chan_put_def assertInLoopThread_def
          cassert_def epoll_update_def epoll_ctl_def set_index_def updated_def Let_def k_defs)
  next
    case 2
    then show ?thesis
      using assms(3) c(5,6)
      by (auto simp: epoll_updateChannel_def chan_deref_def chan_put_def assertInLoopThread_def isNoneEvent_def
          cassert_def epoll_update_def epoll_ctl_def set_index_def updated_def Let_def k_defs NoneEvent_def
          fun_upd_idem intro!: EpollPoller.equality Channel.equality)
  next
    case 3
    then show ?thesis
      using assms(3) c(5,6)
      by (auto simp: epoll_updateChannel_def chan_deref_def chan_put_def assertInLoopThread_def
          cassert_def epoll_update_def epoll_ctl_def set_index_def updated_def Let_def k_defs
          fun_upd_idem intro!: EpollPoller.equality)
  qed
  with up show ?thesis by simp
qed

lemma updated_inv:
  assumes "poller_inv s" "usable s a" "chans s a = Some c"
  shows "poller_inv (updated s a c k)" "usable (updated s a c k) a"
proof -
  have c: "index c = kNew \<longrightarrow> channels s (fd c) = None" "index c \<noteq> kNew \<longrightarrow> channels s (fd c) = Some a"
    "ch_loop c = ownerLoop s"
    using usableE [OF assms(2,1)] assms(3) by (metis option.inject)+
  have other: "channels s f \<noteq> Some a" if "f \<noteq> fd c" for f
    using assms(1,3) that unfolding poller_inv_def by (metis option.inject)
  have fresh: "channels s (fd c) = None \<or> channels s (fd c) = Some a" using c by blast
  let ?t = "updated s a c k"
  have "interest ?t f = watched_by ?t f" for f
  proof (cases "f = fd c")
    case True
    then show ?thesis by (simp add: updated_def watched_by_def Let_def)
  next
    case False
    then have "watched_by ?t f = watched_by s f"
      using other [OF False] by (auto simp: updated_def watched_by_def Let_def split: option.splits)
    then show ?thesis using False assms(1) by (simp add: updated_def Let_def poller_inv_def)
  qed
  moreover have "\<exists>d. chans ?t b = Some d \<and> fd d = f \<and> index d \<in> {kAdded, kDeleted}"
    if "channels ?t f = Some b" for f b
    using that other assms(1) by (auto simp: updated_def Let_def poller_inv_def split: if_splits)
  moreover have "index d \<in> {kNew, kAdded, kDeleted}" if "chans ?t b = Some d" for b d
    using that assms(1) by (auto simp: updated_def Let_def poller_inv_def split: if_splits)
  moreover have "channels ?t (fd d) = Some b" if "chans ?t b = Some d" "index d \<noteq> kNew" for b d
  proof (cases "b = a")
    case True
    then show ?thesis using that by (auto simp: updated_def Let_def)
  next
    case False
    then have "channels s (fd d) = Some b" using that assms(1) by (auto simp: updated_def Let_def poller_inv_def)
    then show ?thesis using False fresh by (auto simp: updated_def Let_def)
  qed
  ultimately show "poller_inv ?t" unfolding poller_inv_def by blast
  show "usable ?t a" using c(3) by (simp add: usable_def updated_def Let_def k_defs)
qed

lemma channel_remove_eq:
  assumes "poller_inv s" "usable s a" "nd \<or> here" "chans s a = Some c" "index c \<noteq> kNew"
  shows "channel_remove nd here s a = Inr (removed s a c)"
proof -
  have c: "ch_loop c = ownerLoop s" "index c \<in> {kNew, kAdded, kDeleted}" "channels s (fd c) = Some a"
    "interest s (fd c) = (if index c = kAdded then Some (events c, a) else None)"
    using usableE [OF assms(2,1)] assms(4,5) by (metis option.inject)+
  then show ?thesis
    using assms(3-5)
    by (auto simp: channel_remove_def loop_removeChannel_def epoll_removeChannel_def chan_deref_def
        assertInLoopThread_def cassert_def epoll_update_def epoll_ctl_def removed_def chan_put_def
        set_index_def Let_def fun_upd_idem intro!: EpollPoller.equality)
qed

lemma removed_inv:
  assumes "poller_inv s" "usable s a" "chans s a = Some c" "index c \<noteq> kNew"
  shows "poller_inv (removed s a c)" "usable (removed s a c) a"
proof -
  have c: "channels s (fd c) = Some a" "ch_loop c = ownerLoop s"
    using usableE [OF assms(2,1)] assms(3,4) by (metis option.inject)+
  have other: "channels s f \<noteq> Some a" if "f \<noteq> fd c" for f
    using assms(1,3) that unfolding poller_inv_def by (metis option.inject)
  let ?t = "removed s a c"
  have "interest ?t f = watched_by ?t f" for f
  proof (cases "f = fd c")
    case True
    then show ?thesis by (simp add: removed_def watched_by_def)
  next
    case False
    then have "watched_by ?t f = watched_by s f"
      using other [OF False] by (auto simp: removed_def watched_by_def split: option.splits)
    then show ?thesis using False assms(1) by (simp add: removed_def poller_inv_def)
  qed
  moreover have "\<exists>d. chans ?t b = Some d \<and> fd d = f \<and> index d \<in> {kAdded, kDeleted}"
    if "channels ?t f = Some b" for f b
    using that other assms(1) by (auto simp: removed_def poller_inv_def split: if_splits)
  moreover have "index d \<in> {kNew, kAdded, kDeleted}" if "chans ?t b = Some d" for b d
    using that assms(1) by (auto simp: removed_def poller_inv_def split: if_splits)
  moreover have "channels ?t (fd d) = Some b" if "chans ?t b = Some d" "index d \<noteq> kNew" for b d
    using that assms(1) c by (force simp: removed_def poller_inv_def split: if_splits)
  ultimately show "poller_inv ?t" unfolding poller_inv_def by blast
  show "usable ?t a" using c(2) by (simp add: usable_def removed_def)
qed

section \<open>The interface of a poller\<close>

text \<open>
  What a client of the abstract class \<open>Poller\<close> relies on: as long as the channel is usable,
  changing its mask succeeds and the descriptor is then watched for exactly the mask (an empty
  mask means not watched), other descriptors are not affected, and removing the channel ends
  the watch. The client lemma is about the life of a channel: any sequence of changes, then
  the removal.
\<close>

primrec run_updates :: "(interest_op \<Rightarrow> 's \<Rightarrow> nat \<Rightarrow> 's res) \<Rightarrow> interest_op list \<Rightarrow> 's \<Rightarrow> nat \<Rightarrow> 's res" where
  "run_updates upd [] s a = Inr s"
| "run_updates upd (k # ks) s a = rbind (upd k s a) (\<lambda>s'. run_updates upd ks s' a)"

locale poller =
  fixes inv :: "'s \<Rightarrow> bool" and ready :: "'s \<Rightarrow> nat \<Rightarrow> bool"
    and mask :: "'s \<Rightarrow> nat \<Rightarrow> 32 word" and desc :: "'s \<Rightarrow> nat \<Rightarrow> int"
    and watched :: "'s \<Rightarrow> int \<Rightarrow> 32 word option"
    and upd :: "interest_op \<Rightarrow> 's \<Rightarrow> nat \<Rightarrow> 's res" and rem :: "'s \<Rightarrow> nat \<Rightarrow> 's res"
    and has :: "'s \<Rightarrow> nat \<Rightarrow> bool res"
  assumes upd_law: "inv s \<Longrightarrow> ready s a \<Longrightarrow> \<exists>s'. upd k s a = Inr s' \<and> inv s' \<and> ready s' a
      \<and> has s' a = Inr True \<and> mask s' a = new_events k (mask s a) \<and> desc s' a = desc s a
      \<and> watched s' = (watched s)(desc s a := if mask s' a = 0 then None else Some (mask s' a))"
    and rem_law: "inv s \<Longrightarrow> ready s a \<Longrightarrow> has s a = Inr True \<Longrightarrow> \<exists>s'. rem s a = Inr s' \<and> inv s' \<and> ready s' a
      \<and> has s' a = Inr False \<and> watched s' = (watched s)(desc s a := None)"
begin

lemma updates_watch:
  assumes "inv s" "ready s a" "ks \<noteq> []"
  shows "\<exists>s'. run_updates upd ks s a = Inr s' \<and> inv s' \<and> ready s' a \<and> has s' a = Inr True \<and> desc s' a = desc s a
    \<and> mask s' a = fold new_events ks (mask s a)
    \<and> watched s' = (watched s)(desc s a := if mask s' a = 0 then None else Some (mask s' a))"
  using assms
proof (induction ks arbitrary: s)
  case Nil
  then show ?case by simp
next
  case (Cons k ks)
  obtain s1 where s1: "upd k s a = Inr s1" "inv s1" "ready s1 a" "has s1 a = Inr True"
    "mask s1 a = new_events k (mask s a)" "desc s1 a = desc s a"
    "watched s1 = (watched s)(desc s a := if mask s1 a = 0 then None else Some (mask s1 a))"
    using upd_law [OF Cons.prems(1,2), of k] by blast
  show ?case
  proof (cases "ks = []")
    case True
    then show ?thesis using s1 by (intro exI [of _ s1]) (auto simp: fun_eq_iff)
  next
    case False
    obtain s' where "run_updates upd ks s1 a = Inr s'" "inv s'" "ready s' a" "has s' a = Inr True" "desc s' a = desc s1 a"
      "mask s' a = fold new_events ks (mask s1 a)"
      "watched s' = (watched s1)(desc s1 a := if mask s' a = 0 then None else Some (mask s' a))"
      using Cons.IH [OF s1(2,3) False] by blast
    then show ?thesis using s1 by (intro exI [of _ s']) (auto simp: fun_eq_iff)
  qed
qed

lemma lifecycle:
  assumes "inv s" "ready s a" "ks \<noteq> []"
  shows "\<exists>s'. rbind (run_updates upd ks s a) (\<lambda>s1. rem s1 a) = Inr s' \<and> inv s' \<and> has s' a = Inr False
    \<and> watched s' = (watched s)(desc s a := None)"
proof -
  obtain s1 where s1: "run_updates upd ks s a = Inr s1" "inv s1" "ready s1 a" "has s1 a = Inr True" "desc s1 a = desc s a"
    "watched s1 = (watched s)(desc s a := if mask s1 a = 0 then None else Some (mask s1 a))"
    using updates_watch [OF assms] by blast
  then show ?thesis using rem_law [OF s1(2-4)] by auto
qed

end

definition chan_mask :: "EpollPoller \<Rightarrow> nat \<Rightarrow> 32 word" where
  "chan_mask s a = (case chans s a of None \<Rightarrow> 0 | Some c \<Rightarrow> events c)"

definition chan_fd :: "EpollPoller \<Rightarrow> nat \<Rightarrow> int" where
  "chan_fd s a = (case chans s a of None \<Rightarrow> -1 | Some c \<Rightarrow> fd c)"

definition watched_mask :: "EpollPoller \<Rightarrow> int \<Rightarrow> 32 word option" where
  "watched_mask s f = (case interest s f of None \<Rightarrow> None | Some (ev, _) \<Rightarrow> if ev = 0 then None else Some ev)"

lemma epoll_upd_law:
  assumes "poller_inv s" "usable s a" "nd \<or> here"
  shows "\<exists>s'. channel_update nd here k s a = Inr s' \<and> poller_inv s' \<and> usable s' a
    \<and> epoll_hasChannel s' a = Inr True \<and> chan_mask s' a = new_events k (chan_mask s a)
    \<and> chan_fd s' a = chan_fd s a
    \<and> watched_mask s' = (watched_mask s)(chan_fd s a := if chan_mask s' a = 0 then None else Some (chan_mask s' a))"
proof -
  obtain c where c: "chans s a = Some c" using assms(2) by (auto simp: usable_def split: option.splits)
  have "watched_mask (updated s a c k) f = ((watched_mask s)(fd c :=
      if new_events k (events c) = 0 then None else Some (new_events k (events c)))) f" for f
    by (simp add: watched_mask_def updated_def Let_def)
  then have w: "watched_mask (updated s a c k) = (watched_mask s)(fd c :=
      if new_events k (events c) = 0 then None else Some (new_events k (events c)))" by blast
  show ?thesis
    using channel_update_eq [OF assms c] updated_inv [OF assms(1,2) c, of k] w c
    by (simp add: chan_mask_def chan_fd_def)
       (simp add: updated_def Let_def epoll_hasChannel_def chan_deref_def)
qed

lemma epoll_rem_law:
  assumes "poller_inv s" "usable s a" "nd \<or> here" "epoll_hasChannel s a = Inr True"
  shows "\<exists>s'. channel_remove nd here s a = Inr s' \<and> poller_inv s' \<and> usable s' a
    \<and> epoll_hasChannel s' a = Inr False \<and> watched_mask s' = (watched_mask s)(chan_fd s a := None)"
proof -
  obtain c where c: "chans s a = Some c" using assms(2) by (auto simp: usable_def split: option.splits)
  then have ne: "index c \<noteq> kNew"
    using assms(2,4) by (auto simp: epoll_hasChannel_def chan_deref_def usable_def)
  have w: "watched_mask (removed s a c) = (watched_mask s)(fd c := None)"
    by (auto simp: watched_mask_def removed_def fun_eq_iff)
  show ?thesis
    using channel_remove_eq [OF assms(1-3) c ne] removed_inv [OF assms(1,2) c ne] w c
    by (simp add: chan_fd_def) (simp add: removed_def epoll_hasChannel_def chan_deref_def)
qed

interpretation epoll: poller poller_inv usable chan_mask chan_fd watched_mask
  "channel_update nd True" "channel_remove nd True" epoll_hasChannel for nd
  by unfold_locales (use epoll_upd_law [of _ _ nd True] epoll_rem_law [of _ _ nd True] in auto)

section \<open>Properties\<close>

definition demo_poller :: EpollPoller where
  "demo_poller = (EpollPoller_new 1)\<lparr>chans := [64 \<mapsto> Channel_new 1 5, 96 \<mapsto> Channel_new 1 6]\<rparr>"

lemma demo_poller_ok: "poller_inv demo_poller" "usable demo_poller 64"
  by (auto simp: poller_inv_def usable_def demo_poller_def EpollPoller_new_def Channel_new_def watched_by_def
      k_defs fun_eq_iff)



lemma registered:
  assumes "poller_inv s" "interest s f = Some (m, a)"
  obtains c where "channels s f = Some a" "chans s a = Some c" "fd c = f" "index c = kAdded"
proof -
  have "watched_by s f = Some (m, a)" using assms by (simp add: poller_inv_def)
  then obtain c where c: "channels s f = Some a" "chans s a = Some c" "index c = kAdded"
    by (auto simp: watched_by_def split: option.splits if_splits)
  moreover have "fd c = f" using assms(1) c(1,2) unfolding poller_inv_def by (metis option.inject)
  ultimately show ?thesis using that by blast
qed

lemma fillActive_ok:
  assumes "poller_inv s" "list_all (\<lambda>(f, ev). interest s f \<noteq> None) es"
  shows "\<exists>s'. fillActiveChanneds nd s es = Inr (map (\<lambda>(f, ev). snd (the (interest s f))) es, s')
    \<and> poller_inv s' \<and> interest s' = interest s \<and> channels s' = channels s \<and> eventListSize s' = eventListSize s
    \<and> (\<forall>b. map_option (\<lambda>c. c\<lparr>revents := 0\<rparr>) (chans s' b) = map_option (\<lambda>c. c\<lparr>revents := 0\<rparr>) (chans s b))
    \<and> (\<forall>b. b \<notin> (\<lambda>(f, ev). snd (the (interest s f))) ` set es \<longrightarrow> chans s' b = chans s b)
    \<and> (distinct (map fst es) \<longrightarrow> (\<forall>(f, ev) \<in> set es. \<exists>c. chans s' (snd (the (interest s f))) = Some c \<and> fd c = f \<and> revents c = ev))"
  using assms
proof (induction es arbitrary: s)
  case Nil
  then show ?case by simp
next
  case (Cons p es)
  obtain f ev where p: "p = (f, ev)" by fastforce
  obtain m a where i: "interest s f = Some (m, a)" using Cons.prems(2) p by auto
  obtain c where c: "channels s f = Some a" "chans s a = Some c" "fd c = f" "index c = kAdded"
    using registered [OF Cons.prems(1) i] .
  let ?s1 = "chan_put s a (setRevrnts ev c)"
  have inv1: "poller_inv ?s1"
    using chan_put_inv [OF Cons.prems(1) c(2)] by (simp add: setRevrnts_def)
  have same: "interest ?s1 = interest s" "channels ?s1 = channels s" "eventListSize ?s1 = eventListSize s"
    by (simp_all add: chan_put_def)
  obtain s' where s': "fillActiveChanneds nd ?s1 es = Inr (map (\<lambda>(f, ev). snd (the (interest s f))) es, s')"
    "poller_inv s'" "interest s' = interest s" "channels s' = channels s" "eventListSize s' = eventListSize s"
    "\<forall>b. map_option (\<lambda>c. c\<lparr>revents := 0\<rparr>) (chans s' b) = map_option (\<lambda>c. c\<lparr>revents := 0\<rparr>) (chans ?s1 b)"
    "\<forall>b. b \<notin> (\<lambda>(f, ev). snd (the (interest s f))) ` set es \<longrightarrow> chans s' b = chans ?s1 b"
    "distinct (map fst es) \<longrightarrow> (\<forall>(f, ev) \<in> set es. \<exists>c. chans s' (snd (the (interest s f))) = Some c \<and> fd c = f \<and> revents c = ev)"
    using Cons.IH [OF inv1] Cons.prems(2) same by auto
  have uniq: "f' = f" if "interest s f' = Some (m', a)" for f' m'
    using registered [OF Cons.prems(1) that] c by (metis option.inject)
  have last: "\<exists>c. chans s' a = Some c \<and> fd c = f \<and> revents c = ev" if "distinct (map fst (p # es))"
  proof -
    have "a \<notin> (\<lambda>(f, ev). snd (the (interest s f))) ` set es"
      using that uniq Cons.prems(2) p by (force simp: list_all_iff image_iff)
    then show ?thesis using s'(7) c by (simp add: chan_put_def setRevrnts_def)
  qed
  show ?case
    using s' i c p last
    by (intro exI [of _ s']) (auto simp: chan_deref_def chan_put_def setRevrnts_def cassert_def)
qed

text \<open>C24: \<open>poll\<close> with what the kernel may report (descriptors of the interest list, each once,
  at most as many as the event array holds): the active list holds the channels registered
  for the descriptors, in the order of the report, each with the reported events; the
  invariant is kept and the array grows when it was full, so that the next report is not cut
  short for lack of space. No assert of the debug build fails.\<close>

theorem poll_reports_active:
  assumes "poller_inv s" "list_all (\<lambda>(f, ev). interest s f \<noteq> None) es" "distinct (map fst es)"
    and "length es \<le> eventListSize s" "0 < eventListSize s"
  shows "\<exists>s'. epoll_poll nd s (WaitEvents es) = Inr (map (\<lambda>(f, ev). snd (the (interest s f))) es, s')
    \<and> poller_inv s' \<and> interest s' = interest s \<and> length es < eventListSize s'
    \<and> (\<forall>(f, ev) \<in> set es. \<exists>c. chans s' (snd (the (interest s f))) = Some c \<and> fd c = f \<and> revents c = ev)"
proof (cases "es = []")
  case True
  then show ?thesis using assms by (simp add: epoll_poll_def)
next
  case False
  obtain s1 where s1: "fillActiveChanneds nd s es = Inr (map (\<lambda>(f, ev). snd (the (interest s f))) es, s1)"
    "poller_inv s1" "interest s1 = interest s" "eventListSize s1 = eventListSize s"
    "\<forall>(f, ev) \<in> set es. \<exists>c. chans s1 (snd (the (interest s f))) = Some c \<and> fd c = f \<and> revents c = ev"
    using fillActive_ok [OF assms(1,2), of nd] assms(3) by blast
  let ?s' = "if length es = eventListSize s1 then s1\<lparr>eventListSize := eventListSize s1 * 2\<rparr> else s1"
  have "poller_inv ?s'" using s1(2) poller_inv_frame [of "s1\<lparr>eventListSize := eventListSize s1 * 2\<rparr>" s1] by simp
  then show ?thesis
    using s1 assms(4,5) False by (intro exI [of _ ?s']) (auto simp: epoll_poll_def)
qed

theorem poll_reports_active_witness:
  "\<exists>s1 s'. channel_update True True EnableReading demo_poller 64 = Inr s1
     \<and> epoll_poll False s1 (WaitEvents [(5, EPOLLIN)]) = Inr ([64], s')"
proof -
  have c: "chans demo_poller 64 = Some (Channel_new 1 5)" by (simp add: demo_poller_def)
  let ?s1 = "updated demo_poller 64 (Channel_new 1 5) EnableReading"
  have u: "channel_update True True EnableReading demo_poller 64 = Inr ?s1" "poller_inv ?s1"
    using channel_update_eq [OF demo_poller_ok _ c] updated_inv [OF demo_poller_ok c] by auto
  have i: "interest ?s1 5 = Some (3, 64)" "eventListSize ?s1 = 16"
    by (simp_all add: updated_def demo_poller_def Channel_new_def k_defs EpollPoller_new_def
        InitEventListSize_def event_masks Let_def)
  show ?thesis
    using poll_reports_active [OF u(2), of "[(5, EPOLLIN)]" False] u(1) i by auto
qed

text \<open>\<open>disableAll\<close> on a channel that is already disabled puts its descriptor back into the
  kernel's interest list, with an empty mask: errors and hang-ups of a descriptor nobody
  watches any more wake the loop up.\<close>

theorem disableAll_twice_registers_again:
  assumes "poller_inv s" "usable s a" "chans s a = Some c" "index c = kAdded" "nd \<or> here"
  shows "\<exists>s1 s2. channel_update nd here DisableAll s a = Inr s1 \<and> interest s1 (fd c) = None
    \<and> channel_update nd here DisableAll s1 a = Inr s2 \<and> interest s2 (fd c) = Some (0, a)"
proof -
  let ?s1 = "updated s a c DisableAll"
  have 1: "channel_update nd here DisableAll s a = Inr ?s1" "poller_inv ?s1" "usable ?s1 a"
    using channel_update_eq [OF assms(1,2,5,3)] updated_inv [OF assms(1-3)] by auto
  obtain d where d: "chans ?s1 a = Some d" "index d = kDeleted" "fd d = fd c" "interest ?s1 (fd c) = None"
    using assms(4) by (auto simp: updated_def Let_def NoneEvent_def k_defs)
  have "interest (updated ?s1 a d DisableAll) (fd d) = Some (0, a)"
    using d(2) by (simp add: updated_def Let_def NoneEvent_def k_defs)
  then show ?thesis using 1 d channel_update_eq [OF 1(2,3) assms(5) d(1), of DisableAll] by auto
qed

theorem disableAll_twice_registers_again_witness:
  "\<exists>s0 s1 s2. channel_update True True EnableReading demo_poller 64 = Inr s0
     \<and> channel_update True True DisableAll s0 64 = Inr s1
     \<and> channel_update True True DisableAll s1 64 = Inr s2 \<and> interest s2 5 = Some (0, 64)"
proof -
  have c: "chans demo_poller 64 = Some (Channel_new 1 5)" by (simp add: demo_poller_def)
  let ?s0 = "updated demo_poller 64 (Channel_new 1 5) EnableReading"
  have u: "channel_update True True EnableReading demo_poller 64 = Inr ?s0" "poller_inv ?s0" "usable ?s0 64"
    using channel_update_eq [OF demo_poller_ok _ c] updated_inv [OF demo_poller_ok c] by auto
  obtain d where d: "chans ?s0 64 = Some d" "index d = kAdded" "fd d = 5"
    by (auto simp: updated_def Channel_new_def k_defs Let_def)
  show ?thesis
    using disableAll_twice_registers_again [OF u(2,3) d(1,2), of True True] u(1) d(3) by auto
qed

end
