(* ===== verification/EventLoop.thy ===== *)
theory EventLoop
  imports EpollPoller
begin

text \<open>
  \<^verbatim>\<open>EventLoop.h\<close> and \<^verbatim>\<open>EventLoop.cpp\<close>: the reactor of one thread, as a state machine. A step of the
  loop's own thread is a stretch of \<open>loop()\<close> between two points where other threads can get
  in between: the test of \<open>quit_\<close>, the return of \<open>poll\<close>, one channel handled, the swap of the
  pending functors under the mutex, one functor run. Other threads queue a functor (under
  the mutex) and write to the event descriptor in two separate steps, and so does \<open>quit\<close>.

  A functor is a number; the fields \<open>queuedLog\<close> and \<open>doneLog\<close> record the functors queued and
  run, and \<open>signalling\<close> counts the other threads that are about to write to the descriptor.
\<close>

section \<open>State and operations\<close>

datatype phase = NotLooping | Check | Polling | Handling "nat list" | Running "nat list"

record EventLoop =
  looping :: bool
  quit :: bool
  eventHandling :: bool
  callingPendingFunctor :: bool
  wakeups :: nat
  pendingFunctors :: "nat list"
  phase :: phase
  signalling :: nat
  queuedLog :: "nat list"
  doneLog :: "nat list"
  early :: bool

definition EventLoop_new :: EventLoop where
  "EventLoop_new = \<lparr>looping = False, quit = False, eventHandling = False, callingPendingFunctor = False,
     wakeups = 0, pendingFunctors = [], phase = NotLooping, signalling = 0, queuedLog = [], doneLog = [],
     early = False\<rparr>"

text \<open>\<open>t_loopInThisThread\<close>, one variable for each thread: the constructor refuses a second loop in the
  same thread, the destructor clears the variable of the thread it runs in.\<close>

definition EventLoop_register :: "nat \<Rightarrow> nat \<Rightarrow> (nat \<Rightarrow> nat option) \<Rightarrow> (nat \<Rightarrow> nat option) res" where
  "EventLoop_register tid this tls = (case tls tid of Some other \<Rightarrow> Inl ProcessAbort | None \<Rightarrow> Inr (tls(tid \<mapsto> this)))"

definition EventLoop_unregister :: "nat \<Rightarrow> (nat \<Rightarrow> nat option) \<Rightarrow> (nat \<Rightarrow> nat option)" where
  "EventLoop_unregister tid tls = tls(tid := None)"

definition getEventLoopOfCurrentThread :: "nat \<Rightarrow> (nat \<Rightarrow> nat option) \<Rightarrow> nat option" where
  "getEventLoopOfCurrentThread tid tls = tls tid"

definition isInLoopThread :: "nat \<Rightarrow> nat \<Rightarrow> bool" where
  "isInLoopThread tid threadId \<longleftrightarrow> tid = threadId"

definition createEventfd :: "int \<Rightarrow> int res" where
  "createEventfd evtfd = (if evtfd < 0 then Inl ProcessAbort else Inr evtfd)"

text \<open>One loop per thread: after a constructor has returned the thread finds its loop and cannot make
  another one until a destructor has run in it; destroyed in another thread, a loop stays
  registered in its own.\<close>

lemma one_loop_per_thread:
  assumes "EventLoop_register tid this tls = Inr tls1"
  shows "getEventLoopOfCurrentThread tid tls1 = Some this \<and> EventLoop_register tid other tls1 = Inl ProcessAbort
    \<and> (\<exists>tls2. EventLoop_register tid other (EventLoop_unregister tid tls1) = Inr tls2)
    \<and> (u \<noteq> tid \<longrightarrow> getEventLoopOfCurrentThread tid (EventLoop_unregister u tls1) = Some this)"
  using assms
  by (auto simp: EventLoop_register_def EventLoop_unregister_def getEventLoopOfCurrentThread_def split: option.splits)

text \<open>The address of \<open>weakupChannel_\<close>.\<close>

definition weakupChannel :: nat where "weakupChannel = 0"

definition weakup :: "EventLoop \<Rightarrow> EventLoop" where
  "weakup el = el\<lparr>wakeups := wakeups el + 1\<rparr>"

definition el_handleRead :: "EventLoop \<Rightarrow> EventLoop" where
  "el_handleRead el = el\<lparr>wakeups := 0\<rparr>"

text \<open>The part of \<open>queueInLoop\<close> under the mutex, and the whole of it.\<close>

definition queue_push :: "nat \<Rightarrow> EventLoop \<Rightarrow> EventLoop" where
  "queue_push cb el = el\<lparr>pendingFunctors := pendingFunctors el @ [cb], queuedLog := queuedLog el @ [cb]\<rparr>"

definition queueInLoop :: "bool \<Rightarrow> nat \<Rightarrow> EventLoop \<Rightarrow> EventLoop" where
  "queueInLoop here cb el =
     (let el1 = queue_push cb el
      in if \<not> here \<or> callingPendingFunctor el1 then weakup el1 else el1)"

definition runInLoop :: "bool \<Rightarrow> (EventLoop \<Rightarrow> EventLoop) \<Rightarrow> nat \<Rightarrow> EventLoop \<Rightarrow> EventLoop" where
  "runInLoop here body cb el = (if here then body el else queueInLoop here cb el)"

definition el_quit :: "bool \<Rightarrow> EventLoop \<Rightarrow> EventLoop" where
  "el_quit here el = (let el1 = el\<lparr>quit := True\<rparr> in if \<not> here then weakup el1 else el1)"

definition queueSize :: "EventLoop \<Rightarrow> nat" where
  "queueSize el = length (pendingFunctors el)"

text \<open>The timers of the loop.\<close>

definition runAt :: "tq_env \<Rightarrow> bool \<Rightarrow> bool \<Rightarrow> TimerQueue \<Rightarrow> Timestamp \<Rightarrow> nat \<Rightarrow> TimerQueue res" where
  "runAt env nd here q t cb = rbind (addTimer env nd here q cb t 0) (\<lambda>(_, q1). Inr q1)"

definition runAfter :: "tq_env \<Rightarrow> bool \<Rightarrow> bool \<Rightarrow> TimerQueue \<Rightarrow> rat \<Rightarrow> nat \<Rightarrow> TimerQueue res" where
  "runAfter env nd here q delay cb =
     (case read_clock env q of (now, q0) \<Rightarrow>
      rbind (addTimer env nd here q0 cb (addTime now delay) 0) (\<lambda>(_, q1). Inr q1))"

definition runEvery :: "tq_env \<Rightarrow> bool \<Rightarrow> bool \<Rightarrow> TimerQueue \<Rightarrow> rat \<Rightarrow> nat \<Rightarrow> TimerQueue res" where
  "runEvery env nd here q interval cb =
     (case read_clock env q of (now, q0) \<Rightarrow>
      rbind (addTimer env nd here q0 cb (addTime now interval) interval) (\<lambda>(_, q1). Inr q1))"

definition loop_cancel :: "bool \<Rightarrow> bool \<Rightarrow> TimerQueue \<Rightarrow> TimerId \<Rightarrow> TimerQueue res" where
  "loop_cancel nd here q tid = cancel nd here q tid"

section \<open>The stretches of loop()\<close>

definition loop_start :: "EventLoop \<Rightarrow> EventLoop" where
  "loop_start el = el\<lparr>looping := True, quit := False, phase := Check\<rparr>"

definition loop_check :: "EventLoop \<Rightarrow> EventLoop" where
  "loop_check el = (if quit el then el\<lparr>looping := False, phase := NotLooping\<rparr> else el\<lparr>phase := Polling\<rparr>)"

definition loop_polled :: "nat list \<Rightarrow> EventLoop \<Rightarrow> EventLoop" where
  "loop_polled active el = el\<lparr>eventHandling := True, phase := Handling active\<rparr>"

definition loop_handle :: "nat \<Rightarrow> nat list \<Rightarrow> EventLoop \<Rightarrow> EventLoop" where
  "loop_handle c cs el =
     (let el1 = (if c = weakupChannel then el_handleRead el else el) in el1\<lparr>phase := Handling cs\<rparr>)"

definition doPendingFunctors_swap :: "EventLoop \<Rightarrow> EventLoop" where
  "doPendingFunctors_swap el =
     el\<lparr>eventHandling := False, callingPendingFunctor := True,
        phase := Running (pendingFunctors el), pendingFunctors := [], early := False\<rparr>"

definition doPendingFunctors_run :: "nat \<Rightarrow> nat list \<Rightarrow> EventLoop \<Rightarrow> EventLoop" where
  "doPendingFunctors_run f fs el = el\<lparr>phase := Running fs, doneLog := doneLog el @ [f]\<rparr>"

definition doPendingFunctors_end :: "EventLoop \<Rightarrow> EventLoop" where
  "doPendingFunctors_end el = el\<lparr>callingPendingFunctor := False, phase := Check\<rparr>"

text \<open>
  The steps. \<open>poll\<close> reports the event descriptor exactly if it is readable (it is watched for
  reading, level triggered). Handlers and functors run in the loop's thread and may call
  \<open>queueInLoop\<close> and \<open>quit\<close>; before \<open>loop()\<close> is called its thread may do the same.
\<close>

inductive el_step :: "EventLoop \<Rightarrow> EventLoop \<Rightarrow> bool" where
  start: "phase el = NotLooping \<Longrightarrow> el_step el (loop_start el)"
| check: "phase el = Check \<Longrightarrow> el_step el (loop_check el)"
| polled: "phase el = Polling \<Longrightarrow> weakupChannel \<in> set active \<longleftrightarrow> wakeups el > 0 \<Longrightarrow>
    el_step el (loop_polled active el)"
| handled: "phase el = Handling (c # cs) \<Longrightarrow> el_step el (loop_handle c cs el)"
| swapped: "phase el = Handling [] \<Longrightarrow> el_step el (doPendingFunctors_swap el)"
| ran_one: "phase el = Running (f # fs) \<Longrightarrow> el_step el (doPendingFunctors_run f fs el)"
| ran_all: "phase el = Running [] \<Longrightarrow> el_step el (doPendingFunctors_end el)"
| own_queue: "phase el \<noteq> Check \<Longrightarrow> phase el \<noteq> Polling \<Longrightarrow>
    el_step el ((queueInLoop True cb el)\<lparr>early := early el \<or> phase el = NotLooping\<rparr>)"
| own_quit: "phase el \<noteq> Check \<Longrightarrow> phase el \<noteq> Polling \<Longrightarrow> el_step el (el_quit True el)"
| other_push: "el_step el ((queue_push cb el)\<lparr>signalling := signalling el + 1\<rparr>)"
| other_quit: "el_step el (el\<lparr>quit := True, signalling := signalling el + 1\<rparr>)"
| other_wake: "signalling el > 0 \<Longrightarrow> el_step el ((weakup el)\<lparr>signalling := signalling el - 1\<rparr>)"

inductive el_reachable :: "EventLoop \<Rightarrow> bool" where
  initial: "el_reachable EventLoop_new"
| step: "el_reachable el \<Longrightarrow> el_step el el' \<Longrightarrow> el_reachable el'"

lemmas el_defs = EventLoop_new_def weakup_def el_handleRead_def queue_push_def queueInLoop_def el_quit_def
  loop_start_def loop_check_def loop_polled_def loop_handle_def doPendingFunctors_swap_def
  doPendingFunctors_run_def doPendingFunctors_end_def Let_def

section \<open>Order of the functors\<close>

fun to_run :: "phase \<Rightarrow> nat list" where
  "to_run (Running fs) = fs"
| "to_run _ = []"

lemma fifo_step: "el_step el el' \<Longrightarrow> queuedLog el = doneLog el @ to_run (phase el) @ pendingFunctors el \<Longrightarrow>
    queuedLog el' = doneLog el' @ to_run (phase el') @ pendingFunctors el'"
  by (induction rule: el_step.induct) (auto simp: el_defs)

text \<open>C7: Functors run in the order in which they were queued, each once, whichever threads
  queue them and however their steps interleave with the loop's: at every moment the functors
  queued so far are the ones run, then those of the list being run, then the pending ones.\<close>

theorem functors_run_in_order:
  assumes "el_reachable el"
  shows "queuedLog el = doneLog el @ to_run (phase el) @ pendingFunctors el"
  using assms
proof (induction rule: el_reachable.induct)
  case initial
  then show ?case by (simp add: el_defs)
next
  case (step el el')
  then show ?case using fifo_step by blast
qed

section \<open>Wake-ups\<close>

text \<open>
  When the loop is about to block, or has not yet passed the point where it looks again, a
  pending functor or a request to quit is announced on the event descriptor or about to be.
\<close>

definition el_inv :: "EventLoop \<Rightarrow> bool" where
  "el_inv el \<longleftrightarrow>
     (callingPendingFunctor el \<longleftrightarrow> (\<exists>fs. phase el = Running fs))
     \<and> (phase el \<in> {NotLooping, Check, Polling} \<or> callingPendingFunctor el \<longrightarrow> pendingFunctors el \<noteq> [] \<longrightarrow>
          wakeups el > 0 \<or> signalling el > 0 \<or> early el)
     \<and> (phase el = Polling \<longrightarrow> quit el \<longrightarrow> wakeups el > 0 \<or> signalling el > 0)"

lemma el_inv_step: "el_step el el' \<Longrightarrow> el_inv el \<Longrightarrow> el_inv el'"
  by (induction rule: el_step.induct) (auto simp: el_inv_def el_defs split: if_splits)

lemma el_reachable_inv: "el_reachable el \<Longrightarrow> el_inv el"
proof (induction rule: el_reachable.induct)
  case initial
  then show ?case by (simp add: el_inv_def el_defs)
next
  case (step el el')
  then show ?case using el_inv_step by blast
qed

text \<open>C6: No wake-up is lost: whenever the loop blocks in \<open>poll\<close> while a functor is pending or
  \<open>quit\<close> was requested, the event descriptor is readable or some thread is about to write to
  it, so \<open>poll\<close> returns at once. The one exception are functors the loop's own thread queued
  before it called \<open>loop()\<close>.\<close>

theorem no_lost_wakeup:
  assumes "el_reachable el" "phase el = Polling" "pendingFunctors el \<noteq> [] \<and> \<not> early el \<or> quit el"
  shows "wakeups el > 0 \<or> signalling el > 0"
  using el_reachable_inv [OF assms(1)] assms(2,3) by (auto simp: el_inv_def)

text \<open>Two threads and a loop: a functor is queued from outside while the loop polls.\<close>

definition demo_loop :: EventLoop where
  "demo_loop = (queue_push 7 (loop_check (loop_start EventLoop_new)))\<lparr>signalling := 1\<rparr>"

lemma demo_loop_reachable: "el_reachable demo_loop"
proof -
  have "el_step EventLoop_new (loop_start EventLoop_new)" by (rule el_step.start) (simp add: el_defs)
  then have 1: "el_reachable (loop_start EventLoop_new)" by (rule el_reachable.step [OF el_reachable.initial])
  have "el_step (loop_start EventLoop_new) (loop_check (loop_start EventLoop_new))"
    by (rule el_step.check) (simp add: el_defs)
  then have 2: "el_reachable (loop_check (loop_start EventLoop_new))" by (rule el_reachable.step [OF 1])
  have "el_step (loop_check (loop_start EventLoop_new)) demo_loop"
    using el_step.other_push [of "loop_check (loop_start EventLoop_new)" 7]
    by (simp add: demo_loop_def el_defs)
  then show ?thesis by (rule el_reachable.step [OF 2])
qed

theorem functors_run_in_order_witness:
  "queuedLog demo_loop = doneLog demo_loop @ to_run (phase demo_loop) @ pendingFunctors demo_loop
   \<and> queuedLog demo_loop = [7]"
  using functors_run_in_order [OF demo_loop_reachable] by (simp add: demo_loop_def el_defs)

theorem no_lost_wakeup_witness: "wakeups demo_loop > 0 \<or> signalling demo_loop > 0"
  using no_lost_wakeup [OF demo_loop_reachable] by (simp add: demo_loop_def el_defs)

text \<open>The exception happens: a functor that the loop's own thread queues before \<open>loop()\<close> is
  pending while the loop blocks in its first \<open>poll\<close>, with nothing to wake it up, until some
  other event or the time-out of ten seconds; and a \<open>quit\<close> called before \<open>loop()\<close> is
  forgotten, because \<open>loop()\<close> resets \<open>quit_\<close>.\<close>

theorem early_requests_wait:
  "\<exists>el. el_reachable el \<and> phase el = Polling \<and> pendingFunctors el = [cb] \<and> wakeups el = 0
     \<and> signalling el = 0 \<and> \<not> quit el
     \<and> el = loop_check (loop_start (el_quit True ((queueInLoop True cb EventLoop_new)\<lparr>early := True\<rparr>)))"
proof -
  let ?a = "(queueInLoop True cb EventLoop_new)\<lparr>early := True\<rparr>"
  have a: "el_reachable ?a"
    using el_reachable.step [OF el_reachable.initial el_step.own_queue [of EventLoop_new cb]]
    by (simp add: el_defs)
  have b: "el_reachable (el_quit True ?a)"
    by (rule el_reachable.step [OF a], rule el_step.own_quit) (simp_all add: el_defs)
  have c: "el_reachable (loop_start (el_quit True ?a))"
    by (rule el_reachable.step [OF b], rule el_step.start) (simp add: el_defs)
  have "el_reachable (loop_check (loop_start (el_quit True ?a)))"
    by (rule el_reachable.step [OF c], rule el_step.check) (simp add: el_defs)
  then show ?thesis
    by (intro exI [of _ "loop_check (loop_start (el_quit True ?a))"]) (simp add: el_defs)
qed

end
