(* ===== verification/StringPiece.thy ===== *)
theory StringPiece
  imports Strings
begin

text \<open>
  \<^verbatim>\<open>base/StringPiece.h\<close> and \<^verbatim>\<open>base/StringArg.h\<close>: views of characters somebody else owns. A piece is a
  pointer into a block of memory and a length, with the arithmetic of \<open>size_t\<close>; the null pointer
  points into the empty block, so that every access through it is out of bounds.
\<close>

section \<open>The operations\<close>

record StringPiece =
  sp_mem :: "char list"
  sp_ptr :: int
  sp_len :: nat

definition piece_null :: StringPiece where
  "piece_null = \<lparr>sp_mem = [], sp_ptr = 0, sp_len = 0\<rparr>"

definition piece_of :: "string \<Rightarrow> StringPiece" where
  "piece_of s = \<lparr>sp_mem = s, sp_ptr = 0, sp_len = length s\<rparr>"

text \<open>The constructors for C strings, given by their block: \<open>strlen\<close> runs to the first zero.\<close>

definition piece_cstr :: "char list \<Rightarrow> StringPiece res" where
  "piece_cstr m = rbind (cstr_of_block m) (\<lambda>s. Inr \<lparr>sp_mem = m, sp_ptr = 0, sp_len = length s\<rparr>)"

definition piece_range :: "char list \<Rightarrow> int \<Rightarrow> nat \<Rightarrow> StringPiece" where
  "piece_range m offset len = \<lparr>sp_mem = m, sp_ptr = offset, sp_len = len\<rparr>"

definition ptr_add :: "int \<Rightarrow> nat \<Rightarrow> int" where
  "ptr_add p n = (let q = (p + int n) mod int size_mod in if q \<le> int ptrdiff_max then q else q - int size_mod)"

definition piece_empty :: "StringPiece \<Rightarrow> bool" where
  "piece_empty p \<longleftrightarrow> sp_len p = 0"

definition piece_clear :: "StringPiece \<Rightarrow> StringPiece" where
  "piece_clear p = p\<lparr>sp_mem := [], sp_ptr := 0, sp_len := 0\<rparr>"

definition piece_set :: "char list \<Rightarrow> int \<Rightarrow> nat \<Rightarrow> StringPiece \<Rightarrow> StringPiece" where
  "piece_set m buffer len p = p\<lparr>sp_mem := m, sp_ptr := buffer, sp_len := len\<rparr>"

definition piece_set_cstr :: "char list \<Rightarrow> StringPiece \<Rightarrow> StringPiece res" where
  "piece_set_cstr m p = rbind (cstr_of_block m) (\<lambda>s. Inr (p\<lparr>sp_mem := m, sp_ptr := 0, sp_len := length s\<rparr>))"

text \<open>\<open>operator[]\<close> does not look at the length.\<close>

definition piece_at :: "StringPiece \<Rightarrow> nat \<Rightarrow> char res" where
  "piece_at p i = (let a = sp_ptr p + int i in
     if 0 \<le> a \<and> a < int (length (sp_mem p)) then Inr (sp_mem p ! nat a) else Inl OutOfBounds)"

definition remove_prefix :: "StringPiece \<Rightarrow> nat \<Rightarrow> StringPiece" where
  "remove_prefix p n = p\<lparr>sp_ptr := ptr_add (sp_ptr p) n, sp_len := szsub (sp_len p) n\<rparr>"

definition remove_suffix :: "StringPiece \<Rightarrow> nat \<Rightarrow> StringPiece" where
  "remove_suffix p n = p\<lparr>sp_len := szsub (sp_len p) n\<rparr>"

text \<open>The characters of a piece, for those who read all of them.\<close>

definition piece_bytes :: "StringPiece \<Rightarrow> string res" where
  "piece_bytes p = (if 0 \<le> sp_ptr p then mem_read (sp_mem p) (nat (sp_ptr p)) (sp_len p) else Inl OutOfBounds)"

text \<open>\<open>memcmp\<close> reads both ranges, and is not called for pieces of different lengths.\<close>

definition piece_eq :: "StringPiece \<Rightarrow> StringPiece \<Rightarrow> bool res" where
  "piece_eq p x =
     (if sp_len p = sp_len x then rbind (piece_bytes p) (\<lambda>a. rbind (piece_bytes x) (\<lambda>b. Inr (a = b))) else Inr False)"

definition piece_ne :: "StringPiece \<Rightarrow> StringPiece \<Rightarrow> bool res" where
  "piece_ne p x = rbind (piece_eq p x) (\<lambda>r. Inr (\<not> r))"

text \<open>\<open>StringArg\<close>: a pointer to the block of a C string or of a \<open>std::string\<close>, which is followed by a zero.\<close>

definition StringArg_cstr :: "char list \<Rightarrow> char list" where "StringArg_cstr m = m"
definition StringArg_string :: "string \<Rightarrow> char list" where "StringArg_string s = s @ [NUL]"

section \<open>Pieces inside their block\<close>

definition piece_ok :: "StringPiece \<Rightarrow> bool" where
  "piece_ok p \<longleftrightarrow> 0 \<le> sp_ptr p \<and> nat (sp_ptr p) + sp_len p \<le> length (sp_mem p) \<and> length (sp_mem p) \<le> ptrdiff_max"

definition piece_text :: "StringPiece \<Rightarrow> string" where
  "piece_text p = take (sp_len p) (drop (nat (sp_ptr p)) (sp_mem p))"

lemma piece_bytes_ok [simp]: "piece_ok p \<Longrightarrow> piece_bytes p = Inr (piece_text p)"
  by (simp add: piece_ok_def piece_bytes_def piece_text_def)

lemma length_piece_text [simp]: "piece_ok p \<Longrightarrow> length (piece_text p) = sp_len p"
  by (auto simp: piece_ok_def piece_text_def min_def)

lemma piece_made_ok:
  "piece_ok piece_null" "piece_text piece_null = []"
  "length s \<le> ptrdiff_max \<Longrightarrow> piece_ok (piece_of s)" "piece_text (piece_of s) = s"
  by (simp_all add: piece_ok_def piece_null_def piece_of_def piece_text_def)

lemma piece_cstr_string:
  assumes "NUL \<notin> set s" "length s < ptrdiff_max"
  shows "\<exists>p. piece_cstr (StringArg_string s) = Inr p \<and> piece_ok p \<and> piece_text p = s"
proof -
  have "takeWhile (\<lambda>c. c \<noteq> NUL) (s @ [NUL]) = s" using assms(1) by (subst takeWhile_append2) auto
  then show ?thesis
    using assms(2) by (auto simp: piece_cstr_def StringArg_string_def cstr_of_block_def piece_ok_def piece_text_def)
qed

lemma remove_prefix_ok:
  assumes "piece_ok p" "n \<le> sp_len p"
  shows "piece_ok (remove_prefix p n) \<and> piece_text (remove_prefix p n) = drop n (piece_text p)"
proof -
  have le: "sp_ptr p + int n \<le> int ptrdiff_max" "0 \<le> sp_ptr p" using assms by (auto simp: piece_ok_def)
  then have "ptr_add (sp_ptr p) n = sp_ptr p + int n" by (simp add: ptr_add_def Let_def)
  then show ?thesis using assms le(2)
    by (auto simp: piece_ok_def remove_prefix_def piece_text_def drop_take add.commute nat_add_distrib)
qed

lemma remove_suffix_ok:
  assumes "piece_ok p" "n \<le> sp_len p"
  shows "piece_ok (remove_suffix p n) \<and> piece_text (remove_suffix p n) = take (sp_len p - n) (piece_text p)"
  using assms by (auto simp: piece_ok_def remove_suffix_def piece_text_def)

lemma piece_eq_ok:
  assumes "piece_ok p" "piece_ok x"
  shows "piece_eq p x = Inr (piece_text p = piece_text x)" "piece_ne p x = Inr (piece_text p \<noteq> piece_text x)"
proof -
  show "piece_eq p x = Inr (piece_text p = piece_text x)"
    using assms length_piece_text [OF assms(1)] length_piece_text [OF assms(2)]
    by (auto simp: piece_eq_def simp del: length_piece_text)
  then show "piece_ne p x = Inr (piece_text p \<noteq> piece_text x)" by (simp add: piece_ne_def)
qed

lemma piece_at_ok: "piece_ok p \<Longrightarrow> i < sp_len p \<Longrightarrow> piece_at p i = Inr (piece_text p ! i)"
  by (auto simp: piece_at_def piece_ok_def piece_text_def Let_def nat_add_distrib)

text \<open>A piece made from a string without its first \<open>n\<close> characters.\<close>

lemma piece_suffix: "n \<le> length msg \<Longrightarrow> length msg \<le> ptrdiff_max \<Longrightarrow>
    piece_bytes (remove_prefix (piece_of msg) n) = Inr (drop n msg)"
  using remove_prefix_ok [of "piece_of msg" n] piece_made_ok(3,4) [of msg] by (simp add: piece_of_def)

text \<open>Pieces behave like the strings they view as long as nobody removes more than there is:
  cutting \<open>a\<close> characters in front and \<open>b\<close> behind gives the piece of the characters between, inside
  the same block; indexing and comparing agree with the strings and do not read outside. Removing
  one character more than there is makes the length wrap around to the largest \<open>size_t\<close>, and the
  next one to read the piece reads outside.\<close>

lemma piece_views:
  assumes "piece_ok p" "piece_ok x" "a + b \<le> sp_len p" "i < sp_len p"
  shows "piece_bytes (remove_suffix (remove_prefix p a) b) = Inr (take (sp_len p - a - b) (drop a (piece_text p)))"
    and "piece_at p i = Inr (piece_text p ! i)"
    and "piece_eq p x = Inr (piece_text p = piece_text x)"
    and "sp_len (remove_suffix p (sp_len p + 1)) = size_mod - 1 \<and> piece_bytes (remove_suffix p (sp_len p + 1)) = Inl OutOfBounds"
proof -
  have "piece_ok (remove_prefix p a)" "piece_text (remove_prefix p a) = drop a (piece_text p)" "sp_len (remove_prefix p a) = sp_len p - a"
    using remove_prefix_ok [OF assms(1), of a] assms(3) by (auto simp: remove_prefix_def)
  then show "piece_bytes (remove_suffix (remove_prefix p a) b) = Inr (take (sp_len p - a - b) (drop a (piece_text p)))"
    using remove_suffix_ok [of "remove_prefix p a" b] assms(3) by simp
  show "piece_at p i = Inr (piece_text p ! i)" using assms(1,4) by (rule piece_at_ok)
  show "piece_eq p x = Inr (piece_text p = piece_text x)" using assms(1,2) by (rule piece_eq_ok)
  show "sp_len (remove_suffix p (sp_len p + 1)) = size_mod - 1 \<and> piece_bytes (remove_suffix p (sp_len p + 1)) = Inl OutOfBounds"
    using assms(1) by (auto simp: remove_suffix_def szsub_def piece_ok_def piece_bytes_def mem_read_def)
qed

lemma piece_views_witness:
  "piece_bytes (remove_suffix (remove_prefix (piece_of ''abcde'') 1) 2) = Inr ''bc''
   \<and> piece_eq (piece_of ''abcde'') (piece_of ''abc'') = Inr False"
proof -
  have "piece_ok (piece_of ''abcde'')" "piece_ok (piece_of ''abc'')" by (simp_all add: piece_made_ok)
  from piece_views(1,3) [OF this, of 1 2 0] show ?thesis by (simp add: piece_of_def piece_text_def)
qed

end
