(* ===== verification/TcpConnection.thy ===== *)
theory TcpConnection
  imports Buffer EventLoop StringPiece
begin

text \<open>
  \<^verbatim>\<open>TcpConnection.h/.cpp\<close>: one connection, with its channel, its input
  and output buffer and its state. The results of the system calls \<open>send\<close> and \<open>readv\<close> are
  arguments; \<open>wire\<close> holds the bytes the kernel took, \<open>accepted\<close> the messages given to
  \<open>sendInLoop\<close>, and \<open>tc_log\<close> the callbacks called, the functors queued and the shutdown of
  the socket, in order. The channel's calls of \<open>update()\<close> are those of the theory of the poller.
\<close>

section \<open>The connection\<close>

datatype StateE = DisConnected | Connecting | Connected | DisConnecting

datatype conn_event = ConnectionCb bool | MessageCb | CloseCallback | QueueWriteComplete
  | QueueHighWaterMark nat | ShutdownWrite | QueueForceClose | RunAfterForceClose rat | QueueSend | QueueRead bool | LogError

record TcpConnection =
  tc_reading :: bool
  highWaterMark :: nat
  tc_state :: StateE
  channel :: Channel
  writeCompleteCallback :: bool
  highWaterMarkCallback :: bool
  inputBuffer :: buffer
  outputBuffer :: buffer
  wire :: string
  accepted :: string
  tc_log :: "conn_event list"

datatype send_result = Sent nat | SendError int

definition emit :: "conn_event \<Rightarrow> TcpConnection \<Rightarrow> TcpConnection" where
  "emit e c = c\<lparr>tc_log := tc_log c @ [e]\<rparr>"

text \<open>An operation on the channel's mask and the state \<open>update()\<close> leaves in its \<open>index_\<close>; and
  \<open>channel_->remove()\<close>.\<close>

definition watch :: "interest_op \<Rightarrow> TcpConnection \<Rightarrow> TcpConnection" where
  "watch k c =
     (let ch = channel c; ev = new_events k (events ch)
      in c\<lparr>channel := ch\<lparr>events := ev, index := if index ch = kAdded \<and> ev = 0 then kDeleted else kAdded\<rparr>\<rparr>)"

definition unwatch :: "TcpConnection \<Rightarrow> TcpConnection" where
  "unwatch c = c\<lparr>channel := (channel c)\<lparr>index := kNew\<rparr>\<rparr>"

definition connected :: "TcpConnection \<Rightarrow> bool" where
  "connected c \<longleftrightarrow> Connected = tc_state c"

definition connectionCallback :: "TcpConnection \<Rightarrow> TcpConnection" where
  "connectionCallback c = emit (ConnectionCb (connected c)) c"

text \<open>\<open>highWaterMark_\<close> is not initialised by the constructor: its first value is an argument.\<close>

definition TcpConnection_new :: "nat \<Rightarrow> int \<Rightarrow> nat \<Rightarrow> buffer \<Rightarrow> buffer \<Rightarrow> TcpConnection" where
  "TcpConnection_new loop sockfd hwm ib ob =
     \<lparr>tc_reading = False, highWaterMark = hwm, tc_state = Connecting,
      channel = setErrorCallback True (setCloseCallback True (setWriteCallback True
        (setReadCallback True (Channel_new loop sockfd)))),
      writeCompleteCallback = False, highWaterMarkCallback = False, inputBuffer = ib, outputBuffer = ob,
      wire = [], accepted = [], tc_log = []\<rparr>"

definition setWriteCompleteCallback :: "bool \<Rightarrow> TcpConnection \<Rightarrow> TcpConnection" where
  "setWriteCompleteCallback cb c = c\<lparr>writeCompleteCallback := cb\<rparr>"

definition setHighWaterMarkCallback :: "bool \<Rightarrow> nat \<Rightarrow> TcpConnection \<Rightarrow> TcpConnection" where
  "setHighWaterMarkCallback cb hwm c = c\<lparr>highWaterMarkCallback := cb, highWaterMark := hwm\<rparr>"

definition connectEstablished :: "bool \<Rightarrow> bool \<Rightarrow> TcpConnection \<Rightarrow> TcpConnection res" where
  "connectEstablished nd here c =
     rbind (assertInLoopThread nd here) (\<lambda>_.
     rbind (cassert nd (Connecting = tc_state c)) (\<lambda>_.
       let c1 = c\<lparr>tc_state := Connected\<rparr>; c2 = c1\<lparr>channel := Channel_tie (channel c1)\<rparr>
       in Inr (connectionCallback (watch EnableReading c2))))"

text \<open>\<open>nwrote\<close> has the type \<open>size_t\<close>: the value -1 of a failed \<open>send\<close> becomes \<open>SIZE_MAX\<close> and the
  test \<open>nwrote >= 0\<close> holds always.\<close>

definition sendInLoop :: "bool \<Rightarrow> bool \<Rightarrow> TcpConnection \<Rightarrow> string \<Rightarrow> send_result \<Rightarrow> TcpConnection res" where
  "sendInLoop nd here c msg r =
     rbind (assertInLoopThread nd here) (\<lambda>_.
       if DisConnected = tc_state c then Inr c
       else
         let c = c\<lparr>accepted := accepted c @ msg\<rparr>;
             (nwrote, remaining, c1) =
               (if \<not> isWriting (channel c) \<and> readableBytes (outputBuffer c) = 0 then
                  let nwrote = (case r of Sent n \<Rightarrow> n | SendError e \<Rightarrow> size_mod - 1);
                      ca = (case r of Sent n \<Rightarrow> c\<lparr>wire := wire c @ take n msg\<rparr> | SendError e \<Rightarrow> c);
                      remaining = szsub (length msg) nwrote
                  in (nwrote, remaining,
                      if remaining = 0 \<and> writeCompleteCallback ca then emit QueueWriteComplete ca else ca)
                else (0, length msg, c))
         in rbind (cassert nd (remaining \<le> length msg)) (\<lambda>_.
            if remaining > 0 then
              let oldlen = readableBytes (outputBuffer c1);
                  c2 = (if szadd oldlen remaining > highWaterMark c1 \<and> oldlen < highWaterMark c1 \<and> highWaterMarkCallback c1
                        then emit (QueueHighWaterMark (szadd oldlen remaining)) c1 else c1)
              in rbind (piece_bytes (remove_prefix (piece_of msg) nwrote)) (\<lambda>bs.
                 rbind (Buffer_append nd (outputBuffer c2) bs) (\<lambda>ob.
                   let c3 = c2\<lparr>outputBuffer := ob\<rparr>
                   in Inr (if \<not> isWriting (channel c3) then watch EnableWriting c3 else c3)))
            else Inr c1))"

definition conn_send :: "bool \<Rightarrow> bool \<Rightarrow> TcpConnection \<Rightarrow> string \<Rightarrow> send_result \<Rightarrow> TcpConnection res" where
  "conn_send nd here c msg r =
     (if Connected = tc_state c then
        if here then sendInLoop nd here c msg r else Inr (emit QueueSend c)
      else Inr c)"

definition shutdownInLoop :: "bool \<Rightarrow> bool \<Rightarrow> TcpConnection \<Rightarrow> TcpConnection res" where
  "shutdownInLoop nd here c =
     rbind (assertInLoopThread nd here) (\<lambda>_.
     Inr (if \<not> isWriting (channel c) then emit ShutdownWrite c else c))"

definition conn_shutdown :: "bool \<Rightarrow> TcpConnection \<Rightarrow> TcpConnection res" where
  "conn_shutdown nd c =
     (if Connected = tc_state c then shutdownInLoop nd True (c\<lparr>tc_state := DisConnecting\<rparr>) else Inr c)"

definition handleError :: "TcpConnection \<Rightarrow> TcpConnection" where
  "handleError c = emit LogError c"

definition handleClose :: "bool \<Rightarrow> bool \<Rightarrow> TcpConnection \<Rightarrow> TcpConnection res" where
  "handleClose nd here c =
     rbind (assertInLoopThread nd here) (\<lambda>_.
     rbind (cassert nd (Connected = tc_state c \<or> DisConnecting = tc_state c)) (\<lambda>_.
       Inr (emit CloseCallback (connectionCallback (watch DisableAll (c\<lparr>tc_state := DisConnected\<rparr>))))))"

text \<open>What the message callback does with the input buffer is an argument.\<close>

definition conn_handleRead :: "bool \<Rightarrow> bool \<Rightarrow> (buffer \<Rightarrow> buffer) \<Rightarrow> TcpConnection \<Rightarrow> readv_result \<Rightarrow> TcpConnection res" where
  "conn_handleRead nd here consume c r =
     rbind (assertInLoopThread nd here) (\<lambda>_.
     rbind (readFd nd (inputBuffer c) r) (\<lambda>((n, saveErrno), ib).
       let c1 = c\<lparr>inputBuffer := ib\<rparr> in
       if n > 0 then Inr (emit MessageCb (c1\<lparr>inputBuffer := consume ib\<rparr>))
       else if n = 0 then handleClose nd here c1
       else Inr (handleError c1)))"

definition handleWrite :: "bool \<Rightarrow> bool \<Rightarrow> TcpConnection \<Rightarrow> send_result \<Rightarrow> TcpConnection res" where
  "handleWrite nd here c r =
     rbind (assertInLoopThread nd here) (\<lambda>_.
       if isWriting (channel c) then
         rbind (mem_read (bufData (outputBuffer c)) (peek (outputBuffer c)) (readableBytes (outputBuffer c))) (\<lambda>bs.
         case r of
           Sent n \<Rightarrow>
             if n > 0 then
               rbind (retrieve nd (outputBuffer c) n) (\<lambda>ob.
                 let c1 = c\<lparr>outputBuffer := ob, wire := wire c @ take n bs\<rparr> in
                 if readableBytes ob = 0 then
                   let c2 = watch DisableWriting c1;
                       c3 = (if writeCompleteCallback c2 then emit QueueWriteComplete c2 else c2)
                   in if DisConnecting = tc_state c3 then shutdownInLoop nd here c3 else Inr c3
                 else Inr c1)
             else Inr c
         | SendError e \<Rightarrow> Inr c)
       else Inr c)"

text \<open>The poller asserts that the channel it removes is registered.\<close>

definition connectDestroyed :: "bool \<Rightarrow> bool \<Rightarrow> TcpConnection \<Rightarrow> TcpConnection res" where
  "connectDestroyed nd here c =
     rbind (assertInLoopThread nd here) (\<lambda>_.
       let c1 = (if Connected = tc_state c
                 then connectionCallback (watch DisableAll (c\<lparr>tc_state := DisConnected\<rparr>)) else c)
       in rbind (cassert nd (kAdded = index (channel c1) \<or> kDeleted = index (channel c1))) (\<lambda>_.
          Inr (unwatch c1)))"

definition forceClose :: "TcpConnection \<Rightarrow> TcpConnection" where
  "forceClose c =
     (if DisConnecting = tc_state c \<or> Connected = tc_state c
      then emit QueueForceClose (c\<lparr>tc_state := DisConnecting\<rparr>) else c)"

definition forceCloseWithDelay :: "rat \<Rightarrow> TcpConnection \<Rightarrow> TcpConnection" where
  "forceCloseWithDelay seconds c =
     (if DisConnecting = tc_state c \<or> Connected = tc_state c then emit (RunAfterForceClose seconds) c else c)"

definition forceCloseInLoop :: "bool \<Rightarrow> bool \<Rightarrow> TcpConnection \<Rightarrow> TcpConnection res" where
  "forceCloseInLoop nd here c =
     rbind (assertInLoopThread nd here) (\<lambda>_.
       if DisConnecting = tc_state c \<or> Connected = tc_state c then handleClose nd here c else Inr c)"

definition startReadInLoop :: "bool \<Rightarrow> bool \<Rightarrow> TcpConnection \<Rightarrow> TcpConnection res" where
  "startReadInLoop nd here c =
     rbind (assertInLoopThread nd here) (\<lambda>_.
       Inr (if \<not> tc_reading c \<or> \<not> isReading (channel c)
            then (watch EnableReading c)\<lparr>tc_reading := True\<rparr> else c))"

definition stopReadInLoop :: "bool \<Rightarrow> bool \<Rightarrow> TcpConnection \<Rightarrow> TcpConnection res" where
  "stopReadInLoop nd here c =
     rbind (assertInLoopThread nd here) (\<lambda>_.
       Inr (if tc_reading c \<or> isReading (channel c)
            then (watch DisableReading c)\<lparr>tc_reading := False\<rparr> else c))"

text \<open>From another thread \<open>runInLoop\<close> queues the functor.\<close>

definition startRead :: "bool \<Rightarrow> bool \<Rightarrow> TcpConnection \<Rightarrow> TcpConnection res" where
  "startRead nd here c = (if here then startReadInLoop nd here c else Inr (emit (QueueRead True) c))"

definition stopRead :: "bool \<Rightarrow> bool \<Rightarrow> TcpConnection \<Rightarrow> TcpConnection res" where
  "stopRead nd here c = (if here then stopReadInLoop nd here c else Inr (emit (QueueRead False) c))"

text \<open>The message callback of a server that sets none.\<close>

definition defaultMessageCallback :: "buffer \<Rightarrow> buffer" where
  "defaultMessageCallback b = retrieveAll b"

section \<open>The steps of a connection in its loop\<close>

text \<open>
  The kernel takes at most what it is given. The handlers run while the channel is watched,
  that is, until the connection is closed.
\<close>

inductive conn_step :: "bool \<Rightarrow> TcpConnection \<Rightarrow> TcpConnection \<Rightarrow> bool" for nd where
  established: "tc_state c = Connecting \<Longrightarrow> connectEstablished nd True c = Inr c' \<Longrightarrow> conn_step nd c c'"
| sent: "length msg \<le> ptrdiff_max \<Longrightarrow> n \<le> length msg \<Longrightarrow> conn_send nd True c msg (Sent n) = Inr c' \<Longrightarrow> conn_step nd c c'"
| wrote: "n \<le> length (contents (outputBuffer c)) \<Longrightarrow> handleWrite nd True c (Sent n) = Inr c' \<Longrightarrow> conn_step nd c c'"
| write_failed: "handleWrite nd True c (SendError e) = Inr c' \<Longrightarrow> conn_step nd c c'"
| readable: "tc_state c \<in> {Connected, DisConnecting} \<Longrightarrow> conn_handleRead nd True consume c r = Inr c' \<Longrightarrow> conn_step nd c c'"
| hung_up: "tc_state c \<in> {Connected, DisConnecting} \<Longrightarrow> handleClose nd True c = Inr c' \<Longrightarrow> conn_step nd c c'"
| shut: "conn_shutdown nd c = Inr c' \<Longrightarrow> conn_step nd c c'"
| force: "conn_step nd c (forceClose c)"
| force_later: "conn_step nd c (forceCloseWithDelay d c)"
| forced: "forceCloseInLoop nd True c = Inr c' \<Longrightarrow> conn_step nd c c'"
| start_read: "startReadInLoop nd True c = Inr c' \<Longrightarrow> conn_step nd c c'"
| stop_read: "stopReadInLoop nd True c = Inr c' \<Longrightarrow> conn_step nd c c'"
| destroyed: "tc_state c \<noteq> Connecting \<Longrightarrow> connectDestroyed nd True c = Inr c' \<Longrightarrow> conn_step nd c c'"
| callbacks: "conn_step nd c (setWriteCompleteCallback b (setHighWaterMarkCallback b2 h c))"

inductive conn_reachable :: "bool \<Rightarrow> TcpConnection \<Rightarrow> bool" for nd where
  created: "Buffer_new nd InitialSize = Inr b \<Longrightarrow> conn_reachable nd (TcpConnection_new loop sockfd hwm b b)"
| step: "conn_reachable nd c \<Longrightarrow> conn_step nd c c' \<Longrightarrow> conn_reachable nd c'"

section \<open>Invariant\<close>

definition writing :: "TcpConnection \<Rightarrow> bool" where
  "writing c \<longleftrightarrow> isWriting (channel c)"

definition pending :: "TcpConnection \<Rightarrow> string" where
  "pending c = contents (outputBuffer c)"

fun conn_cbs :: "conn_event list \<Rightarrow> bool list" where
  "conn_cbs [] = []"
| "conn_cbs (ConnectionCb b # es) = b # conn_cbs es"
| "conn_cbs (_ # es) = conn_cbs es"

definition cbs_of :: "StateE \<Rightarrow> bool list" where
  "cbs_of st = (case st of Connecting \<Rightarrow> [] | DisConnected \<Rightarrow> [True, False] | _ \<Rightarrow> [True])"

text \<open>
  The bytes the kernel took and those in the output buffer are the accepted ones; writing is
  watched exactly while the buffer holds something; after the shutdown of the socket nothing
  is left to send; the connection callbacks called so far fit the state.
\<close>

definition conn_inv :: "TcpConnection \<Rightarrow> bool" where
  "conn_inv c \<longleftrightarrow> binv (outputBuffer c) \<and> wire c @ pending c = accepted c
     \<and> (writing c \<longrightarrow> pending c \<noteq> [] \<and> tc_state c \<noteq> DisConnected)
     \<and> (pending c \<noteq> [] \<longrightarrow> writing c \<or> tc_state c = DisConnected)
     \<and> (ShutdownWrite \<in> set (tc_log c) \<longrightarrow> tc_state c \<in> {DisConnecting, DisConnected} \<and> pending c = [])
     \<and> conn_cbs (tc_log c) = cbs_of (tc_state c)"

lemma conn_cbs_append [simp]: "conn_cbs (es @ fs) = conn_cbs es @ conn_cbs fs"
  by (induction es rule: conn_cbs.induct) auto

lemma watch_writing [simp]:
  "writing (watch k c) = (case k of EnableWriting \<Rightarrow> True | DisableWriting \<Rightarrow> False | DisableAll \<Rightarrow> False | _ \<Rightarrow> writing c)"
proof -
  have "isWriting (ch\<lparr>events := e, index := i\<rparr>) = isWriting (ch\<lparr>events := e\<rparr>)" for ch :: Channel and e i
    by (simp add: isWriting_def)
  then show ?thesis using mask_ops [where c = "channel c" and k = k]
    by (cases k) (simp_all add: writing_def watch_def Let_def)
qed

lemma conn_frames [simp]:
  "pending (watch k c) = pending c" "wire (watch k c) = wire c" "accepted (watch k c) = accepted c"
  "outputBuffer (watch k c) = outputBuffer c" "tc_state (watch k c) = tc_state c" "tc_log (watch k c) = tc_log c"
  "writeCompleteCallback (watch k c) = writeCompleteCallback c"
  "highWaterMarkCallback (watch k c) = highWaterMarkCallback c" "highWaterMark (watch k c) = highWaterMark c"
  "pending (emit e c) = pending c" "wire (emit e c) = wire c" "accepted (emit e c) = accepted c"
  "outputBuffer (emit e c) = outputBuffer c" "tc_state (emit e c) = tc_state c"
  "tc_log (emit e c) = tc_log c @ [e]" "writing (emit e c) = writing c" "channel (emit e c) = channel c"
  "writeCompleteCallback (emit e c) = writeCompleteCallback c"
  "highWaterMarkCallback (emit e c) = highWaterMarkCallback c" "highWaterMark (emit e c) = highWaterMark c"
  by (simp_all add: watch_def emit_def pending_def writing_def Let_def)

lemma unwatch_frames [simp]:
  "pending (unwatch c) = pending c" "wire (unwatch c) = wire c" "accepted (unwatch c) = accepted c"
  "outputBuffer (unwatch c) = outputBuffer c" "tc_state (unwatch c) = tc_state c" "tc_log (unwatch c) = tc_log c"
  "writing (unwatch c) = writing c"
  by (simp_all add: unwatch_def pending_def writing_def isWriting_def)

lemma pending_upd [simp]: "pending (c\<lparr>outputBuffer := b\<rparr>) = contents b"
  by (simp add: pending_def)

lemma writing_upd [simp]: "writing (c\<lparr>outputBuffer := b\<rparr>) = writing c" "writing (c\<lparr>tc_state := st\<rparr>) = writing c"
  "pending (c\<lparr>tc_state := st\<rparr>) = pending c"
  by (simp_all add: writing_def pending_def)

section \<open>Every step keeps the invariant\<close>

lemma conn_invD:
  assumes "conn_inv c"
  shows "binv (outputBuffer c)" "wire c @ pending c = accepted c"
    "writing c \<Longrightarrow> pending c \<noteq> []" "writing c \<Longrightarrow> tc_state c \<noteq> DisConnected"
    "pending c \<noteq> [] \<Longrightarrow> tc_state c \<noteq> DisConnected \<Longrightarrow> writing c"
    "readableBytes (outputBuffer c) = length (pending c)"
  using assms readable_contents by (auto simp: conn_inv_def pending_def)

text \<open>The two ways of \<open>sendInLoop\<close>: nothing is waiting, and the kernel takes a part at once; or
  something is waiting, and the message goes behind it.\<close>

lemma sendInLoop_idle:
  assumes "conn_inv c" "tc_state c \<noteq> DisConnected" "pending c = []" "n \<le> length msg" "length msg \<le> ptrdiff_max"
    and "sendInLoop nd True c msg (Sent n) = Inr c'"
  shows "wire c' = wire c @ take n msg \<and> pending c' = drop n msg \<and> accepted c' = accepted c @ msg
    \<and> binv (outputBuffer c') \<and> writing c' = (n < length msg) \<and> tc_state c' = tc_state c
    \<and> (\<exists>es. tc_log c' = tc_log c @ es \<and> conn_cbs es = [] \<and> ShutdownWrite \<notin> set es)"
proof -
  have w: "\<not> isWriting (channel c)" "readableBytes (outputBuffer c) = 0"
    using conn_invD [OF assms(1)] assms(3) by (auto simp: writing_def)
  let ?c1 = "c\<lparr>accepted := accepted c @ msg, wire := wire c @ take n msg\<rparr>"
  show ?thesis
  proof (cases "n = length msg")
    case True
    then have "c' = (if writeCompleteCallback ?c1 then emit QueueWriteComplete ?c1 else ?c1)"
      using assms(2,6) w by (auto simp: sendInLoop_def assertInLoopThread_def Let_def)
    then show ?thesis
      using True assms(3) w conn_invD(1) [OF assms(1)] by (auto simp: emit_def pending_def writing_def)
  next
    case False
    then have rem: "szsub (length msg) n = length msg - n" "0 < length msg - n" using assms(4) by auto
    obtain ob c2 where ob: "Buffer_append nd (outputBuffer c) (drop n msg) = Inr ob"
      and c2: "c2 = ?c1 \<or> (\<exists>k. c2 = emit (QueueHighWaterMark k) ?c1)"
      and c': "c' = watch EnableWriting (c2\<lparr>outputBuffer := ob\<rparr>)"
      using assms(2,6) w rem piece_suffix [OF assms(4,5)]
      by (auto simp: sendInLoop_def assertInLoopThread_def Let_def emit_def split: if_splits)
    have "binv ob" "contents ob = drop n msg"
      using append_success [OF conn_invD(1) [OF assms(1)] _ ob] assms(3,5) by (auto simp: pending_def)
    then show ?thesis using c2 c' False assms(4) by (auto simp: emit_def)
  qed
qed

lemma sendInLoop_busy:
  assumes "conn_inv c" "tc_state c \<noteq> DisConnected" "pending c \<noteq> []" "length msg \<le> ptrdiff_max"
    and "sendInLoop nd True c msg r = Inr c'"
  shows "wire c' = wire c \<and> pending c' = pending c @ msg \<and> accepted c' = accepted c @ msg
    \<and> binv (outputBuffer c') \<and> writing c' \<and> tc_state c' = tc_state c
    \<and> (\<exists>es. tc_log c' = tc_log c @ es \<and> conn_cbs es = [] \<and> ShutdownWrite \<notin> set es)"
proof -
  have w: "isWriting (channel c)" using conn_invD [OF assms(1)] assms(2,3) by (auto simp: writing_def)
  let ?c1 = "c\<lparr>accepted := accepted c @ msg\<rparr>"
  show ?thesis
  proof (cases "msg = []")
    case True
    then have "c' = ?c1" using assms(2,5) w by (simp add: sendInLoop_def assertInLoopThread_def Let_def)
    then show ?thesis using True w conn_invD(1) [OF assms(1)] by (simp add: pending_def writing_def)
  next
    case False
    obtain ob c2 where ob: "Buffer_append nd (outputBuffer c) msg = Inr ob"
      and c2: "c2 = ?c1 \<or> (\<exists>k. c2 = emit (QueueHighWaterMark k) ?c1)"
      and c': "c' = c2\<lparr>outputBuffer := ob\<rparr>"
      using assms(2,5) w False piece_suffix [of 0 msg] assms(4)
      by (auto simp: sendInLoop_def assertInLoopThread_def Let_def emit_def split: if_splits)
    have "binv ob" "contents ob = pending c @ msg"
      using append_success [OF conn_invD(1) [OF assms(1)] assms(4) ob] by (auto simp: pending_def)
    then show ?thesis using c2 c' w by (auto simp: emit_def writing_def)
  qed
qed

lemma conn_send_inv:
  assumes "conn_inv c" "length msg \<le> ptrdiff_max" "n \<le> length msg" "conn_send nd True c msg (Sent n) = Inr c'"
  shows "conn_inv c'"
proof (cases "tc_state c = Connected")
  case False
  then show ?thesis using assms(1,4) by (auto simp: conn_send_def)
next
  case conn: True
  then have send: "sendInLoop nd True c msg (Sent n) = Inr c'" using assms(4) by (simp add: conn_send_def)
  have inv: "wire c @ pending c = accepted c" "ShutdownWrite \<notin> set (tc_log c)"
    "conn_cbs (tc_log c) = cbs_of (tc_state c)"
    using assms(1) conn by (auto simp: conn_inv_def)
  show ?thesis
  proof (cases "pending c = []")
    case True
    then have i: "wire c = accepted c" using inv(1) by simp
    show ?thesis
      using sendInLoop_idle [OF assms(1) _ True assms(3,2) send] conn inv(2,3) i
      by (auto simp: conn_inv_def)
  next
    case False
    then show ?thesis
      using sendInLoop_busy [OF assms(1) _ False assms(2) send] conn inv
      by (auto simp: conn_inv_def)
  qed
qed

lemma shutdownInLoop_inv:
  assumes "conn_inv c" "tc_state c = DisConnecting" "shutdownInLoop nd True c = Inr c'"
  shows "conn_inv c'"
proof (cases "writing c")
  case True
  then show ?thesis using assms by (auto simp: shutdownInLoop_def assertInLoopThread_def writing_def)
next
  case False
  then have "pending c = []" using conn_invD(5) [OF assms(1)] assms(2) by auto
  moreover have "c' = emit ShutdownWrite c"
    using assms(3) False by (auto simp: shutdownInLoop_def assertInLoopThread_def writing_def)
  ultimately show ?thesis using assms(1,2) by (auto simp: conn_inv_def)
qed

lemma conn_shutdown_inv:
  assumes "conn_inv c" "conn_shutdown nd c = Inr c'"
  shows "conn_inv c'"
proof (cases "tc_state c = Connected")
  case True
  have "conn_inv (c\<lparr>tc_state := DisConnecting\<rparr>)"
    using assms(1) True by (simp add: conn_inv_def cbs_of_def)
  then show ?thesis
    using shutdownInLoop_inv [of "c\<lparr>tc_state := DisConnecting\<rparr>" nd c'] assms(2) True
    by (simp add: conn_shutdown_def)
next
  case False
  then show ?thesis using assms by (auto simp: conn_shutdown_def)
qed

lemma handleClose_inv:
  assumes "conn_inv c" "tc_state c \<in> {Connected, DisConnecting}" "handleClose nd True c = Inr c'"
  shows "conn_inv c'"
  using assms
  by (auto simp: handleClose_def assertInLoopThread_def connectionCallback_def connected_def conn_inv_def cbs_of_def)

lemma conn_inv_upd:
  assumes "conn_inv c" "outputBuffer c' = outputBuffer c" "wire c' = wire c" "accepted c' = accepted c"
    "writing c' = writing c" "tc_state c' = tc_state c" "tc_log c' = tc_log c @ es"
    "conn_cbs es = []" "ShutdownWrite \<notin> set es"
  shows "conn_inv c'"
  using assms by (auto simp: conn_inv_def pending_def)

lemma handleWrite_inv:
  assumes inv: "conn_inv c" and "n \<le> length (pending c)" "handleWrite nd True c (Sent n) = Inr c'"
  shows "conn_inv c'"
proof (cases "isWriting (channel c) \<and> 0 < n")
  case False
  then show ?thesis
    using assms read_contents [OF conn_invD(1) [OF inv]]
    by (auto simp: handleWrite_def assertInLoopThread_def split: if_splits)
next
  case True
  then have st: "tc_state c \<noteq> DisConnected" using conn_invD(4) [OF inv] by (auto simp: writing_def)
  obtain ob where ob: "retrieve nd (outputBuffer c) n = Inr ob" "binv ob" "contents ob = drop n (pending c)"
    using retrieve_contents [OF conn_invD(1) [OF inv], of n nd] assms(2) by (auto simp: pending_def)
  let ?c1 = "c\<lparr>outputBuffer := ob, wire := wire c @ take n (pending c)\<rparr>"
  have rd: "mem_read (bufData (outputBuffer c)) (peek (outputBuffer c)) (readableBytes (outputBuffer c)) = Inr (pending c)"
    using read_contents [OF conn_invD(1) [OF inv]] by (simp add: pending_def)
  have rb: "readableBytes ob = 0 \<longleftrightarrow> n = length (pending c)"
    using readable_contents [OF ob(2)] ob(3) assms(2) by auto
  have sd: "ShutdownWrite \<notin> set (tc_log c)"
    using inv True conn_invD(3) [OF inv] by (auto simp: conn_inv_def writing_def)
  have eq: "wire c @ pending c = accepted c" "conn_cbs (tc_log c) = cbs_of (tc_state c)"
    using inv by (auto simp: conn_inv_def)
  show ?thesis
  proof (cases "n = length (pending c)")
    case False
    then have "c' = ?c1" using assms(3) True ob(1) rd rb by (simp add: handleWrite_def assertInLoopThread_def Let_def)
    then show ?thesis
      using ob eq sd st True False assms(2) by (auto simp: conn_inv_def pending_def writing_def)
  next
    case full: True
    let ?c2 = "watch DisableWriting ?c1"
    let ?c3 = "if writeCompleteCallback ?c2 then emit QueueWriteComplete ?c2 else ?c2"
    have inv3: "conn_inv ?c3"
      using ob eq sd st full by (auto simp: conn_inv_def pending_def)
    have "c' = ?c3 \<or> tc_state ?c3 = DisConnecting \<and> shutdownInLoop nd True ?c3 = Inr c'"
      using assms(3) True ob(1) rd rb full
      by (auto simp: handleWrite_def assertInLoopThread_def Let_def split: if_splits)
    then show ?thesis using inv3 shutdownInLoop_inv [OF inv3] by blast
  qed
qed

lemma conn_handleRead_inv:
  assumes "conn_inv c" "tc_state c \<in> {Connected, DisConnecting}" "conn_handleRead nd True consume c r = Inr c'"
  shows "conn_inv c'"
proof -
  obtain n se ib where rf: "readFd nd (inputBuffer c) r = Inr ((n, se), ib)"
    using assms(3) by (auto simp: conn_handleRead_def)
  let ?c1 = "c\<lparr>inputBuffer := ib\<rparr>"
  have i1: "conn_inv ?c1"
    by (rule conn_inv_upd [OF assms(1), where es = "[]"]) (simp_all add: writing_def)
  have "c' = emit MessageCb (?c1\<lparr>inputBuffer := consume ib\<rparr>) \<or> handleClose nd True ?c1 = Inr c' \<or> c' = emit LogError ?c1"
    using assms(3) rf by (auto simp: conn_handleRead_def assertInLoopThread_def handleError_def Let_def split: if_splits)
  then show ?thesis
  proof (elim disjE)
    assume "c' = emit MessageCb (?c1\<lparr>inputBuffer := consume ib\<rparr>)"
    then show ?thesis by (intro conn_inv_upd [OF assms(1), of _ "[MessageCb]"]) (simp_all add: writing_def)
  next
    assume "handleClose nd True ?c1 = Inr c'"
    then show ?thesis using handleClose_inv [OF i1, of nd c'] assms(2) by simp
  next
    assume "c' = emit LogError ?c1"
    then show ?thesis by (intro conn_inv_upd [OF assms(1), of _ "[LogError]"]) (simp_all add: writing_def)
  qed
qed

lemma connectEstablished_inv:
  assumes "conn_inv c" "tc_state c = Connecting" "connectEstablished nd True c = Inr c'"
  shows "conn_inv c'"
proof -
  let ?c2 = "c\<lparr>tc_state := Connected, channel := Channel_tie (channel c)\<rparr>"
  have "writing ?c2 = writing c" "pending ?c2 = pending c"
    by (simp_all add: writing_def Channel_tie_def isWriting_def pending_def)
  moreover have "c' = emit (ConnectionCb True) (watch EnableReading ?c2)"
    using assms(2,3) by (auto simp: connectEstablished_def assertInLoopThread_def connectionCallback_def
        connected_def Let_def)
  ultimately show ?thesis using assms(1,2) by (auto simp: conn_inv_def cbs_of_def)
qed

lemma connectDestroyed_inv:
  assumes "conn_inv c" "connectDestroyed nd True c = Inr c'"
  shows "conn_inv c'"
proof (cases "tc_state c = Connected")
  case True
  then have "c' = unwatch (emit (ConnectionCb False) (watch DisableAll (c\<lparr>tc_state := DisConnected\<rparr>)))"
    using assms(2) by (auto simp: connectDestroyed_def assertInLoopThread_def connectionCallback_def connected_def Let_def)
  then show ?thesis using assms(1) True by (auto simp: conn_inv_def cbs_of_def)
next
  case False
  then have "c' = unwatch c" using assms(2) by (auto simp: connectDestroyed_def assertInLoopThread_def Let_def)
  then show ?thesis by (intro conn_inv_upd [OF assms(1), where es = "[]"]) simp_all
qed

lemma read_ops_inv:
  assumes "conn_inv c"
  shows "startReadInLoop nd True c = Inr c' \<Longrightarrow> conn_inv c'" "stopReadInLoop nd True c = Inr c' \<Longrightarrow> conn_inv c'"
proof -
  have w: "writing (d\<lparr>tc_reading := b\<rparr>) = writing d" for d b by (simp add: writing_def)
  have "conn_inv ((watch k c)\<lparr>tc_reading := b\<rparr>)" if "k = EnableReading \<or> k = DisableReading" for k b
    by (rule conn_inv_upd [OF assms, where es = "[]"]) (use that w in auto)
  then show "startReadInLoop nd True c = Inr c' \<Longrightarrow> conn_inv c'"
    "stopReadInLoop nd True c = Inr c' \<Longrightarrow> conn_inv c'"
    using assms
    by (auto simp: startReadInLoop_def stopReadInLoop_def assertInLoopThread_def split: if_splits)
qed

lemma force_inv:
  assumes "conn_inv c"
  shows "conn_inv (forceClose c)" "conn_inv (forceCloseWithDelay d c)"
    "forceCloseInLoop nd True c = Inr c' \<Longrightarrow> conn_inv c'"
proof -
  show "conn_inv (forceClose c)" using assms by (auto simp: forceClose_def conn_inv_def cbs_of_def)
  show "conn_inv (forceCloseWithDelay d c)" using assms by (auto simp: forceCloseWithDelay_def conn_inv_def)
  show "forceCloseInLoop nd True c = Inr c' \<Longrightarrow> conn_inv c'"
    using assms handleClose_inv [OF assms, of nd c']
    by (auto simp: forceCloseInLoop_def assertInLoopThread_def split: if_splits)
qed

lemma conn_step_inv: "conn_step nd c c' \<Longrightarrow> conn_inv c \<Longrightarrow> conn_inv c'"
proof (induction rule: conn_step.induct)
  case (established c c')
  then show ?case using connectEstablished_inv by blast
next
  case (sent msg n c c')
  then show ?case using conn_send_inv by blast
next
  case (wrote n c c')
  then show ?case using handleWrite_inv by (simp add: pending_def)
next
  case (write_failed c e c')
  then show ?case
    using read_contents [OF conn_invD(1)] by (auto simp: handleWrite_def assertInLoopThread_def split: if_splits)
next
  case (readable c consume r c')
  then show ?case using conn_handleRead_inv by blast
next
  case (hung_up c c')
  then show ?case using handleClose_inv by blast
next
  case (shut c c')
  then show ?case using conn_shutdown_inv by blast
next
  case (callbacks c b b2 h)
  show ?case
    by (rule conn_inv_upd [OF callbacks, where es = "[]"])
       (simp_all add: setWriteCompleteCallback_def setHighWaterMarkCallback_def writing_def)
qed (use force_inv read_ops_inv connectDestroyed_inv in blast)+

lemma conn_reachable_inv: "conn_reachable nd c \<Longrightarrow> conn_inv c"
proof (induction rule: conn_reachable.induct)
  case (created b loop sockfd hwm)
  have "binv b" "contents b = []" using Buffer_new_ok [of InitialSize nd] created by (auto simp: InitialSize_def)
  then show ?case
    by (simp add: conn_inv_def TcpConnection_new_def pending_def writing_def isWriting_def cbs_of_def
        Channel_new_def setErrorCallback_def setCloseCallback_def setWriteCallback_def setReadCallback_def)
next
  case (step c c')
  then show ?case using conn_step_inv by blast
qed

section \<open>The callbacks of the channel\<close>

text \<open>Which callbacks the channel has, and whether it is tied: no operation on the connection but
  \<open>connectEstablished\<close> changes it.\<close>

definition chan_cbs :: "TcpConnection \<Rightarrow> bool \<times> bool \<times> bool \<times> bool \<times> bool" where
  "chan_cbs c = (hasRead (channel c), hasWrite (channel c), hasClose (channel c), hasError (channel c), tied (channel c))"

lemma chan_cbs_ops [simp]:
  "chan_cbs (emit e c) = chan_cbs c" "chan_cbs (watch k c) = chan_cbs c" "chan_cbs (unwatch c) = chan_cbs c"
  "chan_cbs (c\<lparr>inputBuffer := b\<rparr>) = chan_cbs c" "chan_cbs (c\<lparr>outputBuffer := b\<rparr>) = chan_cbs c"
  "chan_cbs (c\<lparr>wire := w\<rparr>) = chan_cbs c" "chan_cbs (c\<lparr>accepted := w\<rparr>) = chan_cbs c" "chan_cbs (c\<lparr>tc_state := st\<rparr>) = chan_cbs c"
  "chan_cbs (connectionCallback c) = chan_cbs c"
  by (simp_all add: chan_cbs_def emit_def watch_def unwatch_def Let_def connectionCallback_def)

lemma conn_send_cbs: "conn_send nd here c msg r = Inr c' \<Longrightarrow> chan_cbs c' = chan_cbs c"
  by (auto simp: conn_send_def sendInLoop_def Let_def split: if_splits send_result.splits)

lemma shutdownInLoop_cbs: "shutdownInLoop nd here c = Inr c' \<Longrightarrow> chan_cbs c' = chan_cbs c"
  by (auto simp: shutdownInLoop_def split: if_splits)

lemma conn_shutdown_cbs: "conn_shutdown nd c = Inr c' \<Longrightarrow> chan_cbs c' = chan_cbs c"
  by (auto simp: conn_shutdown_def dest: shutdownInLoop_cbs split: if_splits)

lemma handleWrite_cbs: "handleWrite nd here c r = Inr c' \<Longrightarrow> chan_cbs c' = chan_cbs c"
  by (cases r) (auto simp: handleWrite_def Let_def dest: shutdownInLoop_cbs split: if_splits)

section \<open>Well-typed connections\<close>

text \<open>The members that are plain integers in the code hold what they stand for: the mask is made of
  read and write bits, \<open>index_\<close> is one of the three states of the poller, every callback is set;
  and the channel of a connected connection is registered and tied to its owner.\<close>

definition conn_typed :: "TcpConnection \<Rightarrow> bool" where
  "conn_typed c \<longleftrightarrow> events (channel c) AND NOT (ReadEvent OR WriteEvent) = 0
     \<and> index (channel c) \<in> {kNew, kAdded, kDeleted}
     \<and> hasRead (channel c) \<and> hasWrite (channel c) \<and> hasClose (channel c) \<and> hasError (channel c)
     \<and> (tc_state c = Connected \<longrightarrow> index (channel c) \<noteq> kNew \<and> tied (channel c))"

lemma new_events_typed:
  assumes "ev AND NOT (ReadEvent OR WriteEvent) = 0"
  shows "new_events k ev AND NOT (ReadEvent OR WriteEvent) = 0"
proof -
  have t: "bit ev n \<Longrightarrow> bit ReadEvent n \<or> bit WriteEvent n" for n
    using assms mask_nonzero [of ev "NOT (ReadEvent OR WriteEvent)"] bit_lt_32 [of ev n] by (auto simp: bit_not_iff bit_or_iff bit_and_iff)
  show ?thesis
    using t by (cases k) (auto simp: bit_eq_iff bit_and_iff bit_or_iff bit_not_iff NoneEvent_def)
qed

lemma conn_typed_frames [simp]:
  "conn_typed (emit e c) = conn_typed c" "conn_typed (connectionCallback c) = conn_typed c"
  "conn_typed (c\<lparr>inputBuffer := b\<rparr>) = conn_typed c" "conn_typed (c\<lparr>outputBuffer := b\<rparr>) = conn_typed c"
  "conn_typed (c\<lparr>wire := w\<rparr>) = conn_typed c" "conn_typed (c\<lparr>accepted := w\<rparr>) = conn_typed c"
  "conn_typed (c\<lparr>tc_reading := r\<rparr>) = conn_typed c"
  by (simp_all add: conn_typed_def emit_def connectionCallback_def)

lemma watch_typed [simp]: "conn_typed c \<Longrightarrow> conn_typed (watch k c)"
  using new_events_typed by (auto simp: conn_typed_def watch_def Let_def k_defs)

lemma state_typed [simp]:
  "conn_typed c \<Longrightarrow> st \<noteq> Connected \<Longrightarrow> conn_typed (c\<lparr>tc_state := st\<rparr>)"
  "conn_typed c \<Longrightarrow> tc_state c \<noteq> Connected \<Longrightarrow> conn_typed (unwatch c)"
  "tc_state (connectionCallback c) = tc_state c"
  by (simp_all add: conn_typed_def unwatch_def connectionCallback_def)

lemma shutdownInLoop_typed: "shutdownInLoop nd here c = Inr c' \<Longrightarrow> conn_typed c \<Longrightarrow> conn_typed c'"
  by (auto simp: shutdownInLoop_def split: if_splits)

lemma handleClose_typed: "handleClose nd here c = Inr c' \<Longrightarrow> conn_typed c \<Longrightarrow> conn_typed c'"
  by (auto simp: handleClose_def)

lemma conn_send_typed: "conn_send nd here c msg r = Inr c' \<Longrightarrow> conn_typed c \<Longrightarrow> conn_typed c'"
  by (auto simp: conn_send_def sendInLoop_def Let_def split: if_splits send_result.splits)

lemma handleWrite_typed: "handleWrite nd here c r = Inr c' \<Longrightarrow> conn_typed c \<Longrightarrow> conn_typed c'"
  by (cases r) (auto simp: handleWrite_def Let_def dest: shutdownInLoop_typed split: if_splits)

lemma tied_typed: "conn_typed c \<Longrightarrow> conn_typed (watch k (c\<lparr>tc_state := st, channel := Channel_tie (channel c)\<rparr>))"
  using new_events_typed [of "events (channel c)" k] by (simp add: conn_typed_def watch_def Let_def Channel_tie_def k_defs)

lemma connectEstablished_typed: "connectEstablished nd here c = Inr c' \<Longrightarrow> conn_typed c \<Longrightarrow> conn_typed c'"
  by (auto simp: connectEstablished_def Let_def tied_typed)

lemma conn_step_typed: "conn_step nd c c' \<Longrightarrow> conn_typed c \<Longrightarrow> conn_typed c'"
proof (induction rule: conn_step.induct)
  case (established c c')
  then show ?case using connectEstablished_typed by blast
next
  case (sent msg n c c')
  then show ?case using conn_send_typed by blast
next
  case (wrote n c c')
  then show ?case using handleWrite_typed by blast
next
  case (write_failed c e c')
  then show ?case using handleWrite_typed by blast
next
  case (readable c consume r c')
  then show ?case
    by (auto simp: conn_handleRead_def handleError_def Let_def dest: handleClose_typed split: if_splits)
next
  case (hung_up c c')
  then show ?case using handleClose_typed by blast
next
  case (shut c c')
  then show ?case by (auto simp: conn_shutdown_def dest!: shutdownInLoop_typed split: if_splits)
next
  case (force c)
  then show ?case by (auto simp: forceClose_def)
next
  case (force_later c d)
  then show ?case by (auto simp: forceCloseWithDelay_def)
next
  case (forced c c')
  then show ?case by (auto simp: forceCloseInLoop_def dest: handleClose_typed split: if_splits)
next
  case (start_read c c')
  then show ?case by (auto simp: startReadInLoop_def split: if_splits)
next
  case (stop_read c c')
  then show ?case by (auto simp: stopReadInLoop_def split: if_splits)
next
  case (destroyed c c')
  then show ?case by (auto simp: connectDestroyed_def Let_def split: if_splits)
next
  case (callbacks c b b2 h)
  then show ?case by (simp add: setWriteCompleteCallback_def setHighWaterMarkCallback_def conn_typed_def)
qed

lemma conn_reachable_typed: "conn_reachable nd c \<Longrightarrow> conn_typed c"
proof (induction rule: conn_reachable.induct)
  case (created b loop sockfd hwm)
  show ?case
    by (simp add: conn_typed_def TcpConnection_new_def Channel_new_def setErrorCallback_def setCloseCallback_def
        setWriteCallback_def setReadCallback_def k_defs)
next
  case (step c c')
  then show ?case using conn_step_typed by blast
qed

section \<open>Sending and draining without a fault\<close>

text \<open>An output buffer of which nothing has been taken out since it was empty last, with room for
  \<open>n\<close> more bytes in memory: appending to it never compacts it.\<close>

definition untouched :: "TcpConnection \<Rightarrow> nat \<Rightarrow> bool" where
  "untouched c n \<longleftrightarrow> readIndex (outputBuffer c) \<le> CheapPrepend \<and> length (bufData (outputBuffer c)) + n \<le> ptrdiff_max"

lemma untouched_append:
  assumes "binv (outputBuffer c)" "untouched c (length bs + n)"
  shows "\<exists>ob. Buffer_append nd (outputBuffer c) bs = Inr ob \<and> untouched (c\<lparr>outputBuffer := ob\<rparr>) n"
proof -
  note B = binvD [OF assms(1)]
  have "roomFor (outputBuffer c) (length bs)"
    using assms B by (auto simp: roomFor_def compacting_def untouched_def writeable_eq prependableBytes_def)
  from append_contents [OF assms(1) this, of nd] show ?thesis
    using assms(2) by (auto simp: untouched_def)
qed

lemma conn_send_ok:
  assumes "conn_inv c" "tc_state c = Connected" "length msg \<le> ptrdiff_max" "k \<le> length msg"
    and "untouched c (length msg + n)"
  shows "\<exists>c'. conn_send nd True c msg (Sent k) = Inr c' \<and> conn_inv c' \<and> tc_state c' = Connected \<and> untouched c' n
    \<and> wire c' @ pending c' = wire c @ pending c @ msg \<and> inputBuffer c' = inputBuffer c
    \<and> (pending c = [] \<and> k = length msg \<longrightarrow> pending c' = [])"
proof -
  note D = conn_invD [OF assms(1)]
  have idle: "\<not> isWriting (channel c) \<and> readableBytes (outputBuffer c) = 0 \<longleftrightarrow> pending c = []"
    using D assms(2) by (auto simp: writing_def)
  have "\<exists>c'. conn_send nd True c msg (Sent k) = Inr c' \<and> untouched c' n \<and> inputBuffer c' = inputBuffer c"
  proof (cases "pending c = []")
    case True
    have "untouched c (length (drop k msg) + n)" using assms(4,5) unfolding untouched_def by auto
    from untouched_append [OF D(1) this, of nd] obtain ob where
      "Buffer_append nd (outputBuffer c) (drop k msg) = Inr ob" "untouched (c\<lparr>outputBuffer := ob\<rparr>) n" by blast
    then show ?thesis
      using True idle assms piece_suffix [OF assms(4,3)]
      by (auto simp: conn_send_def sendInLoop_def assertInLoopThread_def cassert_def Let_def untouched_def emit_def watch_def)
  next
    case False
    obtain ob where "Buffer_append nd (outputBuffer c) msg = Inr ob" "untouched (c\<lparr>outputBuffer := ob\<rparr>) n"
      using untouched_append [OF D(1) assms(5)] by blast
    then show ?thesis
      using False idle assms piece_suffix [of 0 msg, OF _ assms(3)]
      by (auto simp: conn_send_def sendInLoop_def assertInLoopThread_def cassert_def Let_def untouched_def emit_def watch_def)
  qed
  then obtain c' where c': "conn_send nd True c msg (Sent k) = Inr c'" "untouched c' n" "inputBuffer c' = inputBuffer c" by blast
  have inv': "conn_inv c'" using conn_send_inv [OF assms(1,3,4) c'(1)] .
  have run: "sendInLoop nd True c msg (Sent k) = Inr c'" using c'(1) assms(2) by (simp add: conn_send_def)
  have st: "tc_state c \<noteq> DisConnected" using assms(2) by simp
  have "tc_state c' = Connected \<and> wire c' @ pending c' = wire c @ pending c @ msg \<and> (pending c = [] \<and> k = length msg \<longrightarrow> pending c' = [])"
    using sendInLoop_idle [OF assms(1) st _ assms(4,3) run] sendInLoop_busy [OF assms(1) st _ assms(3) run] assms(2)
    by (cases "pending c = []") auto
  then show ?thesis using c' inv' by blast
qed

text \<open>The kernel takes all that is waiting: the buffer is empty and starts over.\<close>

lemma handleWrite_drains:
  assumes "conn_inv c" "tc_state c = Connected" "length (bufData (outputBuffer c)) + n \<le> ptrdiff_max"
    and "pending c = [] \<Longrightarrow> untouched c n"
  shows "\<exists>c'. handleWrite nd True c (Sent (length (pending c))) = Inr c' \<and> conn_inv c' \<and> tc_state c' = Connected
    \<and> untouched c' n \<and> wire c' = wire c @ pending c \<and> pending c' = [] \<and> inputBuffer c' = inputBuffer c"
proof (cases "pending c = []")
  case True
  then have "\<not> isWriting (channel c)" using conn_invD(3) [OF assms(1)] by (auto simp: writing_def)
  then show ?thesis using True assms by (auto simp: handleWrite_def assertInLoopThread_def cassert_def)
next
  case False
  note D = conn_invD [OF assms(1)]
  have w: "isWriting (channel c)" using D(5) [OF False] assms(2) by (simp add: writing_def)
  have rd: "mem_read (bufData (outputBuffer c)) (peek (outputBuffer c)) (readableBytes (outputBuffer c)) = Inr (pending c)"
    using read_contents [OF D(1)] by (simp add: pending_def)
  obtain ob where ob: "retrieve nd (outputBuffer c) (length (pending c)) = Inr ob" "binv ob" "contents ob = []"
      "bufData ob = bufData (outputBuffer c)" "readIndex ob = CheapPrepend"
    using retrieve_contents [OF D(1), of "length (pending c)" nd] by (auto simp: pending_def)
  have "readableBytes ob = 0" using readable_contents [OF ob(2)] ob(3) by simp
  then have "\<exists>c'. handleWrite nd True c (Sent (length (pending c))) = Inr c' \<and> outputBuffer c' = ob
      \<and> wire c' = wire c @ pending c \<and> inputBuffer c' = inputBuffer c \<and> tc_state c' = Connected"
    using False w rd ob(1) assms(2)
    by (auto simp: handleWrite_def assertInLoopThread_def cassert_def Let_def emit_def watch_def)
  then obtain c' where c': "handleWrite nd True c (Sent (length (pending c))) = Inr c'" "outputBuffer c' = ob"
      "wire c' = wire c @ pending c" "inputBuffer c' = inputBuffer c" "tc_state c' = Connected" by blast
  moreover have "conn_inv c'" using handleWrite_inv [OF assms(1) _ c'(1)] by simp
  ultimately show ?thesis using ob assms(3) by (auto simp: untouched_def pending_def)
qed

section \<open>Properties\<close>

text \<open>A connection that was established and sent two bytes, of which the kernel took the first.\<close>

lemma demo_established:
  "\<exists>c. conn_reachable True c \<and> tc_state c = Connected \<and> pending c = [] \<and> wire c = [] \<and> tc_log c = [ConnectionCb True]
     \<and> writeableBytes (outputBuffer c) = 1024 \<and> conn_inv c \<and> accepted c = []"
proof -
  obtain b where b: "Buffer_new True InitialSize = Inr b" "contents b = []" "writeableBytes b = 1024"
    using Buffer_new_ok [of InitialSize True] by (auto simp: InitialSize_def)
  let ?c = "TcpConnection_new 1 5 0 b b"
  have 0: "conn_reachable True ?c" using b(1) by (rule conn_reachable.created)
  obtain c1 where c1: "connectEstablished True True ?c = Inr c1" "outputBuffer c1 = b" "tc_state c1 = Connected"
    "wire c1 = []" "tc_log c1 = [ConnectionCb True]" "accepted c1 = []"
    by (simp add: connectEstablished_def assertInLoopThread_def connectionCallback_def connected_def
        TcpConnection_new_def Let_def)
  have "conn_step True ?c c1" using c1(1) by (intro conn_step.established) (auto simp: TcpConnection_new_def)
  then have "conn_reachable True c1" by (rule conn_reachable.step [OF 0])
  then show ?thesis using b c1 conn_reachable_inv by (auto simp: pending_def)
qed

lemma demo_sent:
  "\<exists>c. conn_reachable True c \<and> tc_state c = Connected \<and> pending c = ''i'' \<and> wire c = ''h''
     \<and> roomFor (outputBuffer c) (length ''xyz'')"
proof -
  obtain c where c: "conn_reachable True c" "tc_state c = Connected" "pending c = []" "wire c = []"
    "writeableBytes (outputBuffer c) = 1024" "conn_inv c" "accepted c = []" using demo_established by blast
  have w: "\<not> isWriting (channel c)" "readableBytes (outputBuffer c) = 0" "binv (outputBuffer c)"
    using conn_invD [OF c(6)] c(3) by (auto simp: writing_def)
  obtain ob where ob: "Buffer_append True (outputBuffer c) ''i'' = Inr ob" "binv ob"
    "writeIndex ob = writeIndex (outputBuffer c) + 1" "length (bufData ob) = length (bufData (outputBuffer c))"
    using append_in_place [OF w(3), of "''i''" True] c(5) by auto
  then have "writeableBytes ob = 1023" using writeable_eq [OF w(3)] writeable_eq [OF ob(2)] c(5) by simp
  then have room: "roomFor ob (length ''xyz'')" by (simp add: roomFor_def compacting_def)
  have "\<exists>c'. conn_send True True c ''hi'' (Sent 1) = Inr c' \<and> outputBuffer c' = ob"
    using ob(1) c(2) w piece_suffix [of 1 "''hi''"]
    by (auto simp: conn_send_def sendInLoop_def assertInLoopThread_def Let_def)
  then obtain c' where c': "conn_send True True c ''hi'' (Sent 1) = Inr c'" "outputBuffer c' = ob" by blast
  have "conn_step True c c'" using c'(1) by (intro conn_step.sent [of "''hi''" 1]) simp_all
  moreover have "sendInLoop True True c ''hi'' (Sent 1) = Inr c'" using c' c(2) by (simp add: conn_send_def)
  then have "wire c' = ''h'' \<and> pending c' = ''i'' \<and> tc_state c' = Connected"
    using sendInLoop_idle [OF c(6) _ c(3), of 1 "''hi''" True c'] c(2,4) by simp
  ultimately show ?thesis using conn_reachable.step [OF c(1)] c'(2) room by blast
qed

text \<open>C3: The output of a connection is a stream: in every state it reaches, the bytes the
  kernel took followed by those in the output buffer are the accepted messages one after the
  other; nothing is lost, doubled or reordered. While the connection is open, writing is
  watched exactly if the output buffer holds something, so waiting bytes are not forgotten
  and the loop does not spin.\<close>

theorem connection_stream:
  assumes "conn_reachable nd c"
  shows "wire c @ contents (outputBuffer c) = accepted c
    \<and> (tc_state c \<noteq> DisConnected \<longrightarrow> (isWriting (channel c) \<longleftrightarrow> contents (outputBuffer c) \<noteq> []))"
  using conn_reachable_inv [OF assms] by (auto simp: conn_inv_def pending_def writing_def)

theorem connection_stream_witness:
  "\<exists>c. conn_reachable True c \<and> wire c = ''h'' \<and> contents (outputBuffer c) = ''i'' \<and> accepted c = ''hi''
     \<and> isWriting (channel c)"
proof -
  obtain c where c: "conn_reachable True c" "tc_state c = Connected" "pending c = ''i''" "wire c = ''h''"
    using demo_sent by blast
  have "accepted c = ''hi''" "isWriting (channel c)"
    using connection_stream [OF c(1)] c by (auto simp: pending_def)
  then show ?thesis using c by (auto simp: pending_def)
qed



text \<open>C35: A failing \<open>send\<close>, also one that only says that the kernel's buffer is full, is not
  handled: its result -1 is stored in a \<open>size_t\<close>, the error branch is dead code, and the
  output buffer is given a piece that starts one byte before the message: the debug build
  stops at its assert, the other one reads outside the message.\<close>

theorem send_error_not_handled:
  assumes "conn_reachable nd c" "tc_state c = Connected" "contents (outputBuffer c) = []"
    and "length msg \<le> ptrdiff_max"
  shows "conn_send nd True c msg (SendError e) = Inl (if nd then OutOfBounds else AssertionFailed)"
proof -
  have inv: "conn_inv c" by (rule conn_reachable_inv [OF assms(1)])
  have w: "\<not> isWriting (channel c)" "readableBytes (outputBuffer c) = 0"
    using conn_invD [OF inv] assms(3) by (auto simp: writing_def pending_def)
  have r: "szsub (length msg) (size_mod - 1) = length msg + 1" using assms(4) by (simp add: szsub_def)
  have "piece_bytes (remove_prefix (piece_of msg) (size_mod - 1)) = Inl OutOfBounds"
    by (simp add: piece_bytes_def remove_prefix_def piece_of_def ptr_add_def Let_def)
  then show ?thesis
    using assms(2) w r by (simp add: conn_send_def sendInLoop_def assertInLoopThread_def cassert_def Let_def)
qed

theorem send_error_not_handled_witness:
  "\<exists>c. conn_reachable True c \<and> conn_send True True c ''hi'' (SendError 11) = Inl OutOfBounds"
proof -
  obtain c where c: "conn_reachable True c" "tc_state c = Connected" "pending c = []"
    using demo_established by blast
  then have "conn_send True True c ''hi'' (SendError 11) = Inl OutOfBounds"
    using send_error_not_handled [OF c(1,2), of "''hi''" 11] by (simp add: pending_def)
  with c(1) show ?thesis by blast
qed

text \<open>The high-water callback is queued exactly when a message makes the output buffer cross
  the mark: it was below it, and it is above it with the message. The callback gets the new
  length, and the message is in the buffer.\<close>

theorem high_water_mark_crossed:
  assumes "conn_reachable nd c" "tc_state c = Connected" "contents (outputBuffer c) \<noteq> []"
    and "msg \<noteq> []" "length (contents (outputBuffer c)) + length msg < size_mod"
    and "conn_send nd True c msg r = Inr c'" "highWaterMarkCallback c" "length msg \<le> ptrdiff_max"
  shows "tc_log c' = tc_log c @
      (if length (contents (outputBuffer c)) < highWaterMark c
          \<and> highWaterMark c < length (contents (outputBuffer c)) + length msg
       then [QueueHighWaterMark (length (contents (outputBuffer c)) + length msg)] else [])
    \<and> contents (outputBuffer c') = contents (outputBuffer c) @ msg"
proof -
  have inv: "conn_inv c" by (rule conn_reachable_inv [OF assms(1)])
  have send: "sendInLoop nd True c msg r = Inr c'" using assms(2,6) by (simp add: conn_send_def)
  have w: "isWriting (channel c)" "readableBytes (outputBuffer c) = length (contents (outputBuffer c))"
    using conn_invD [OF inv] assms(2,3) by (auto simp: writing_def pending_def)
  have p: "pending c' = pending c @ msg"
    using sendInLoop_busy [OF inv _ _ assms(8) send] assms(2,3) by (simp add: pending_def)
  have sz: "szadd (length (contents (outputBuffer c))) (length msg) = length (contents (outputBuffer c)) + length msg"
    using assms(5) by (simp add: szadd_exact)
  show ?thesis
    using send p assms(2,4,7) w sz
    by (auto simp: sendInLoop_def assertInLoopThread_def Let_def emit_def pending_def split: if_splits)
qed

theorem high_water_mark_crossed_witness:
  "\<exists>c c'. conn_reachable True c \<and> conn_send True True c ''xyz'' (Sent 0) = Inr c'
     \<and> QueueHighWaterMark 4 \<in> set (tc_log c')"
proof -
  obtain c0 where c0: "conn_reachable True c0" "tc_state c0 = Connected" "pending c0 = ''i''" "wire c0 = ''h''"
    "roomFor (outputBuffer c0) (length ''xyz'')"
    using demo_sent by blast
  let ?c = "setWriteCompleteCallback True (setHighWaterMarkCallback True 2 c0)"
  have r: "conn_reachable True ?c" by (rule conn_reachable.step [OF c0(1) conn_step.callbacks])
  have c: "tc_state ?c = Connected" "contents (outputBuffer ?c) = ''i''" "highWaterMarkCallback ?c" "highWaterMark ?c = 2"
    using c0 by (simp_all add: setWriteCompleteCallback_def setHighWaterMarkCallback_def pending_def)
  have inv: "conn_inv ?c" by (rule conn_reachable_inv [OF r])
  have w: "isWriting (channel ?c)" using conn_invD(5) [OF inv] c by (simp add: writing_def pending_def)
  obtain ob where "Buffer_append True (outputBuffer ?c) ''xyz'' = Inr ob"
    using append_contents [OF conn_invD(1) [OF inv], of "''xyz''" True] c0(5)
    by (auto simp: setWriteCompleteCallback_def setHighWaterMarkCallback_def)
  then have "\<exists>c'. conn_send True True ?c ''xyz'' (Sent 0) = Inr c'"
    using c w piece_suffix [of 0 "''xyz''"]
    by (auto simp: conn_send_def sendInLoop_def assertInLoopThread_def Let_def)
  then obtain c' where c': "conn_send True True ?c ''xyz'' (Sent 0) = Inr c'" ..
  have "tc_log c' = tc_log ?c @ [QueueHighWaterMark 4]"
    using high_water_mark_crossed [OF r c(1) _ _ _ c' c(3)] c by simp
  then show ?thesis using r c' by auto
qed



end
