(* ===== verification/HttpServer.thy ===== *)
theory HttpServer
  imports HttpProperties TcpConnection
begin

text \<open>
  \<^verbatim>\<open>http/HttpServer.h/.cpp\<close>: the callbacks the HTTP server installs on its connections and the
  timing wheel that is meant to close idle ones. Of an I/O loop the server uses its context,
  the wheel the connections insert themselves into, and the functors of its timers, each with
  its own bound copy of a wheel. An \<open>Entry\<close> is known by a number; it lives as long as some
  bucket holds it.
\<close>

section \<open>The timing wheel\<close>

text \<open>A \<open>boost::circular_buffer\<close> of buckets, oldest first: pushing onto a full one drops the
  oldest; one of capacity 0 takes nothing.\<close>

record wheel =
  cb_capacity :: nat
  slots :: "nat set list"

definition wheel_new :: "int \<Rightarrow> wheel res" where
  "wheel_new n = (if n < 0 then Inl LengthError else Inr \<lparr>cb_capacity = nat n, slots = []\<rparr>)"

definition wheel_resize :: "nat \<Rightarrow> wheel \<Rightarrow> wheel" where
  "wheel_resize n w = (if n \<le> length (slots w) then w\<lparr>slots := take n (slots w)\<rparr>
     else w\<lparr>cb_capacity := max n (cb_capacity w), slots := slots w @ replicate (n - length (slots w)) {}\<rparr>)"

definition push_back :: "nat set \<Rightarrow> wheel \<Rightarrow> wheel" where
  "push_back b w = (if cb_capacity w = 0 then w
     else if length (slots w) = cb_capacity w then w\<lparr>slots := tl (slots w) @ [b]\<rparr>
     else w\<lparr>slots := slots w @ [b]\<rparr>)"

definition back_insert :: "bool \<Rightarrow> nat \<Rightarrow> wheel \<Rightarrow> wheel res" where
  "back_insert nd e w =
     rbind (cassert nd (slots w \<noteq> [])) (\<lambda>_.
       if slots w = [] then Inl OutOfBounds
       else Inr (w\<lparr>slots := butlast (slots w) @ [insert e (last (slots w))]\<rparr>))"

record io_loop =
  lc_context :: "wheel option"
  lc_timers :: "wheel list"

definition io_loop_new :: io_loop where
  "io_loop_new = \<lparr>lc_context = None, lc_timers = []\<rparr>"

text \<open>The entries some bucket holds, those of the timers' copies included.\<close>

definition wheel_entries :: "wheel \<Rightarrow> nat set" where
  "wheel_entries w = \<Union> (set (slots w))"

definition live_entries :: "io_loop \<Rightarrow> nat set" where
  "live_entries l = (case lc_context l of None \<Rightarrow> {} | Some w \<Rightarrow> wheel_entries w) \<union> \<Union> (set (map wheel_entries (lc_timers l)))"

text \<open>\<open>setContext\<close> and \<open>bind\<close> copy the wheel each.\<close>

definition threadFunc :: "int \<Rightarrow> io_loop \<Rightarrow> io_loop res" where
  "threadFunc idleSeconds l =
     rbind (wheel_new idleSeconds) (\<lambda>w0.
       let w = wheel_resize (nat idleSeconds) w0
       in Inr (l\<lparr>lc_context := Some w, lc_timers := lc_timers l @ [w]\<rparr>))"

text \<open>The \<open>i\<close>-th timer fires: \<open>onTimer\<close> on the wheel bound to it. The second result is the set of
  the entries that die with the bucket it drops.\<close>

definition onTimer :: "wheel \<Rightarrow> wheel" where
  "onTimer buckets = push_back {} buckets"

definition fire_timer :: "nat \<Rightarrow> io_loop \<Rightarrow> io_loop \<times> nat set" where
  "fire_timer i l = (let l1 = l\<lparr>lc_timers := list_update (lc_timers l) i (onTimer (lc_timers l ! i))\<rparr>
     in (l1, live_entries l - live_entries l1))"

text \<open>The destructor of an entry; \<open>None\<close> is a connection that is gone.\<close>

definition Entry_destroy :: "bool \<Rightarrow> TcpConnection option \<Rightarrow> TcpConnection option res" where
  "Entry_destroy nd oc = (case oc of None \<Rightarrow> Inr None | Some c \<Rightarrow> rbind (conn_shutdown nd c) (\<lambda>c'. Inr (Some c')))"

definition touch :: "bool \<Rightarrow> nat \<Rightarrow> io_loop \<Rightarrow> io_loop res" where
  "touch nd e l = (case lc_context l of None \<Rightarrow> Inl NullDereference
     | Some w \<Rightarrow> rbind (back_insert nd e w) (\<lambda>w'. Inr (l\<lparr>lc_context := Some w'\<rparr>)))"

section \<open>The callbacks\<close>

definition HighWaterMark :: nat where "HighWaterMark = 128 * 1024"

record HttpContext =
  weakEntryPtr :: nat
  httpParser :: HttpParser

record http_conn =
  hc_conn :: TcpConnection
  hc_context :: "HttpContext option"

definition handleHighWaterMark :: "bool \<Rightarrow> bool \<Rightarrow> TcpConnection \<Rightarrow> TcpConnection res" where
  "handleHighWaterMark nd here c = stopRead nd here c"

definition handleWriteComplete :: "bool \<Rightarrow> bool \<Rightarrow> TcpConnection \<Rightarrow> TcpConnection res" where
  "handleWriteComplete nd here c = startRead nd here c"

text \<open>The number of the new entry and the indeterminate members of the parser's request and
  response are arguments.\<close>

definition onConnection :: "bool \<Rightarrow> nat \<Rightarrow> HttpRequest \<Rightarrow> HttpResponse \<Rightarrow> io_loop \<Rightarrow> http_conn \<Rightarrow> (io_loop \<times> http_conn) res" where
  "onConnection nd e rq rs l hc =
     (if connected (hc_conn hc) then
        rbind (touch nd e l) (\<lambda>l1.
          Inr (l1, hc\<lparr>hc_context := Some \<lparr>weakEntryPtr = e, httpParser = HttpParser_new rq rs True\<rparr>,
            hc_conn := setWriteCompleteCallback True (setHighWaterMarkCallback True HighWaterMark (hc_conn hc))\<rparr>))
      else Inr (l, hc))"

text \<open>The messages the parser sends go to the connection in turn; the \<open>i\<close>-th is answered by \<open>taken i\<close>. \<open>process\<close> does not look at the connection, so the sends may be written behind it.\<close>

fun send_all :: "bool \<Rightarrow> bool \<Rightarrow> TcpConnection \<Rightarrow> (string \<times> send_result) list \<Rightarrow> TcpConnection res" where
  "send_all nd here c [] = Inr c"
| "send_all nd here c ((msg, r) # ms) = rbind (conn_send nd here c msg r) (\<lambda>c1. send_all nd here c1 ms)"

definition onMessage :: "parser_env \<Rightarrow> bool \<Rightarrow> bool \<Rightarrow> io_loop \<Rightarrow> http_conn \<Rightarrow> (nat \<Rightarrow> send_result) \<Rightarrow> (io_loop \<times> http_conn) res option" where
  "onMessage env nd here l hc taken =
     (case hc_context hc of None \<Rightarrow> Some (Inl NullDereference) | Some ctx \<Rightarrow>
      case retrieveAllAsString nd (inputBuffer (hc_conn hc)) of Inl e \<Rightarrow> Some (Inl e) | Inr (message, b) \<Rightarrow>
      case process env (feed ((httpParser ctx)\<lparr>sent := []\<rparr>) message) of
        None \<Rightarrow> None
      | Some (Inl e) \<Rightarrow> Some (Inl e)
      | Some (Inr (keep, p)) \<Rightarrow> Some (
          rbind (send_all nd here ((hc_conn hc)\<lparr>inputBuffer := b\<rparr>) (zip (sent p) (map taken [0..<length (sent p)]))) (\<lambda>c.
            let hc1 = hc\<lparr>hc_conn := c, hc_context := Some (ctx\<lparr>httpParser := p\<rparr>)\<rparr> in
            if \<not> keep then rbind (conn_shutdown nd c) (\<lambda>c'. Inr (l, hc1\<lparr>hc_conn := c'\<rparr>))
            else if weakEntryPtr ctx \<in> live_entries l
            then rbind (touch nd (weakEntryPtr ctx) l) (\<lambda>l'. Inr (l', hc1))
            else Inr (l, hc1))))"

text \<open>\<open>TcpConnection::handleRead\<close> with \<open>onMessage\<close> as the message callback.\<close>

definition http_handleRead :: "parser_env \<Rightarrow> bool \<Rightarrow> bool \<Rightarrow> io_loop \<Rightarrow> http_conn \<Rightarrow> readv_result \<Rightarrow> (nat \<Rightarrow> send_result)
    \<Rightarrow> (io_loop \<times> http_conn) res option" where
  "http_handleRead env nd here l hc r taken =
     (case assertInLoopThread nd here of Inl e \<Rightarrow> Some (Inl e) | Inr _ \<Rightarrow>
      case readFd nd (inputBuffer (hc_conn hc)) r of Inl e \<Rightarrow> Some (Inl e) | Inr ((n, saveErrno), ib) \<Rightarrow>
        let c1 = (hc_conn hc)\<lparr>inputBuffer := ib\<rparr> in
        if n > 0 then onMessage env nd here l (hc\<lparr>hc_conn := emit MessageCb c1\<rparr>) taken
        else if n = 0 then Some (rbind (handleClose nd here c1) (\<lambda>c2. Inr (l, hc\<lparr>hc_conn := c2\<rparr>)))
        else Some (Inr (l, hc\<lparr>hc_conn := handleError c1\<rparr>)))"

text \<open>An event of the connection's descriptor: the poller stores what happened in the channel, and
  \<open>Channel::handleEvent\<close> calls the callbacks the constructor of the connection has bound. What
  \<open>readv\<close> and \<open>send\<close> answer are arguments.\<close>

definition http_callback :: "parser_env \<Rightarrow> bool \<Rightarrow> readv_result \<Rightarrow> (nat \<Rightarrow> send_result) \<Rightarrow> send_result \<Rightarrow> callback
    \<Rightarrow> io_loop \<Rightarrow> http_conn \<Rightarrow> (io_loop \<times> http_conn) res option" where
  "http_callback env nd rd taken wr cb l hc = (case cb of
     ReadCb \<Rightarrow> http_handleRead env nd True l hc rd taken
   | WriteCb \<Rightarrow> Some (rbind (handleWrite nd True (hc_conn hc) wr) (\<lambda>c. Inr (l, hc\<lparr>hc_conn := c\<rparr>)))
   | CloseCb \<Rightarrow> Some (rbind (handleClose nd True (hc_conn hc)) (\<lambda>c. Inr (l, hc\<lparr>hc_conn := c\<rparr>)))
   | ErrorCb \<Rightarrow> Some (Inr (l, hc\<lparr>hc_conn := handleError (hc_conn hc)\<rparr>)))"

fun http_callbacks :: "parser_env \<Rightarrow> bool \<Rightarrow> readv_result \<Rightarrow> (nat \<Rightarrow> send_result) \<Rightarrow> send_result \<Rightarrow> callback list
    \<Rightarrow> io_loop \<Rightarrow> http_conn \<Rightarrow> (io_loop \<times> http_conn) res option" where
  "http_callbacks env nd rd taken wr [] l hc = Some (Inr (l, hc))"
| "http_callbacks env nd rd taken wr (cb # cbs) l hc =
     (case http_callback env nd rd taken wr cb l hc of None \<Rightarrow> None | Some (Inl e) \<Rightarrow> Some (Inl e)
      | Some (Inr (l1, hc1)) \<Rightarrow> http_callbacks env nd rd taken wr cbs l1 hc1)"

definition http_event :: "parser_env \<Rightarrow> bool \<Rightarrow> 32 word \<Rightarrow> readv_result \<Rightarrow> (nat \<Rightarrow> send_result) \<Rightarrow> send_result
    \<Rightarrow> io_loop \<Rightarrow> http_conn \<Rightarrow> (io_loop \<times> http_conn) res option" where
  "http_event env nd rv rd taken wr l hc =
     (let ch = setRevrnts rv (channel (hc_conn hc))
      in http_callbacks env nd rd taken wr (fst (handleEvent True ch)) l (hc\<lparr>hc_conn := (hc_conn hc)\<lparr>channel := ch\<rparr>\<rparr>))"

section \<open>The wheel never turns\<close>

text \<open>What happens in an I/O loop as the wheel sees it: a timer fires, or a connection inserts its
  entry (in \<open>onConnection\<close> and \<open>onMessage\<close>). The run collects the entries that die.\<close>

datatype wheel_op = Fire nat | Touch nat

fun wheel_run :: "bool \<Rightarrow> io_loop \<Rightarrow> wheel_op list \<Rightarrow> (io_loop \<times> nat set) res" where
  "wheel_run nd l [] = Inr (l, {})"
| "wheel_run nd l (Fire i # ops) =
     (let (l1, d) = fire_timer i l in rbind (wheel_run nd l1 ops) (\<lambda>(l2, ds). Inr (l2, d \<union> ds)))"
| "wheel_run nd l (Touch e # ops) = rbind (touch nd e l) (\<lambda>l1. wheel_run nd l1 ops)"

definition touched :: "wheel_op list \<Rightarrow> nat set" where
  "touched ops = {e. Touch e \<in> set ops}"

definition timers_empty :: "io_loop \<Rightarrow> bool" where
  "timers_empty l \<longleftrightarrow> (\<forall>w \<in> set (lc_timers l). wheel_entries w = {})"

lemma onTimer_empty: "wheel_entries w = {} \<Longrightarrow> wheel_entries (onTimer w) = {}"
  by (cases "slots w") (auto simp: onTimer_def push_back_def wheel_entries_def)

lemma fire_timer_empty:
  assumes "timers_empty l"
  shows "timers_empty (fst (fire_timer i l)) \<and> snd (fire_timer i l) = {}
    \<and> lc_context (fst (fire_timer i l)) = lc_context l"
proof (cases "i < length (lc_timers l)")
  case True
  let ?ts = "(lc_timers l)[i := onTimer (lc_timers l ! i)]"
  have "wheel_entries (onTimer (lc_timers l ! i)) = {}"
    using assms True by (intro onTimer_empty) (simp add: timers_empty_def)
  then have "\<forall>w \<in> set ?ts. wheel_entries w = {}"
    using assms set_update_subset_insert [of "lc_timers l" i] by (fastforce simp: timers_empty_def)
  then show ?thesis using assms
    by (auto simp: fire_timer_def timers_empty_def live_entries_def Let_def split: option.splits)
next
  case False
  then show ?thesis using assms by (cases l) (simp add: fire_timer_def list_update_beyond Let_def)
qed

text \<open>The wheel of the context: one slot at least, and the entries in it.\<close>

definition ctx_holds :: "nat set \<Rightarrow> io_loop \<Rightarrow> bool" where
  "ctx_holds E l \<longleftrightarrow> (\<exists>w. lc_context l = Some w \<and> slots w \<noteq> [] \<and> wheel_entries w = E)"

lemma touch_holds:
  assumes "ctx_holds E l" "timers_empty l"
  shows "\<exists>l'. touch nd e l = Inr l' \<and> ctx_holds (insert e E) l' \<and> timers_empty l'"
proof -
  obtain w where w: "lc_context l = Some w" "slots w \<noteq> []" "wheel_entries w = E"
    using assms(1) by (auto simp: ctx_holds_def)
  have "set (slots w) = insert (last (slots w)) (set (butlast (slots w)))"
    using w(2) by (metis append_butlast_last_id insert_is_Un list.set(1,2) set_append sup_commute)
  then have "wheel_entries (w\<lparr>slots := butlast (slots w) @ [insert e (last (slots w))]\<rparr>) = insert e E"
    using w(3) by (simp add: wheel_entries_def)
  then show ?thesis using w assms(2)
    by (simp add: touch_def back_insert_def ctx_holds_def timers_empty_def)
qed

lemma wheel_run_holds:
  assumes "ctx_holds E l" "timers_empty l"
  shows "\<exists>l'. wheel_run nd l ops = Inr (l', {}) \<and> ctx_holds (E \<union> touched ops) l' \<and> timers_empty l'"
  using assms
proof (induction ops arbitrary: l E)
  case Nil
  then show ?case by (simp add: touched_def)
next
  case (Cons x ops)
  show ?case
  proof (cases x)
    case (Fire i)
    have t: "touched (Fire i # ops) = touched ops" by (simp add: touched_def)
    obtain l1 where l1: "fire_timer i l = (l1, {})" "timers_empty l1" "lc_context l1 = lc_context l"
      using fire_timer_empty [OF Cons.prems(2), of i] by (cases "fire_timer i l") auto
    then show ?thesis using Cons.IH [of E l1] Cons.prems(1) Fire t by (auto simp: ctx_holds_def)
  next
    case (Touch e)
    have t: "E \<union> touched (Touch e # ops) = insert e E \<union> touched ops" by (auto simp: touched_def)
    obtain l1 where "touch nd e l = Inr l1" "ctx_holds (insert e E) l1" "timers_empty l1"
      using touch_holds [OF Cons.prems] by blast
    then show ?thesis using Cons.IH [of "insert e E" l1] Touch t by simp
  qed
qed

lemma threadFunc_holds:
  assumes "0 < n"
  shows "\<exists>l. threadFunc n io_loop_new = Inr l \<and> ctx_holds {} l \<and> timers_empty l"
  using assms
  by (simp add: threadFunc_def wheel_new_def wheel_resize_def io_loop_new_def ctx_holds_def timers_empty_def
      wheel_entries_def Let_def)

text \<open>The reference, a timer that rotates the wheel of the context: an entry not inserted again
  lives through \<open>n - 1\<close> ticks and dies with the \<open>n\<close>-th.\<close>

definition shared_tick :: "wheel \<Rightarrow> wheel" where
  "shared_tick w = onTimer w"

lemma shared_tick_full:
  "length (slots w) = cb_capacity w \<Longrightarrow> 0 < cb_capacity w \<Longrightarrow>
     slots (shared_tick w) = tl (slots w) @ [{}] \<and> cb_capacity (shared_tick w) = cb_capacity w"
  by (simp add: shared_tick_def onTimer_def push_back_def)

lemma shared_ticks_slots:
  assumes "length (slots w) = cb_capacity w" "0 < cb_capacity w" "k \<le> cb_capacity w"
  shows "slots ((shared_tick ^^ k) w) = drop k (slots w) @ replicate k {} \<and> cb_capacity ((shared_tick ^^ k) w) = cb_capacity w"
  using assms
proof (induction k)
  case (Suc k)
  then have "slots ((shared_tick ^^ k) w) = drop k (slots w) @ replicate k {}" "cb_capacity ((shared_tick ^^ k) w) = cb_capacity w"
    by simp_all
  moreover have "drop k (slots w) \<noteq> []" using Suc.prems by simp
  then have "tl (drop k (slots w) @ replicate k {}) @ [{}] = drop (Suc k) (slots w) @ replicate (Suc k) {}"
    by (simp add: drop_Suc tl_drop replicate_append_same)
  ultimately show ?case using Suc.prems shared_tick_full [of "(shared_tick ^^ k) w"] by simp
qed simp

lemma ticks_entry:
  assumes "length (slots w) = cb_capacity w" "0 < cb_capacity w" "k \<le> cb_capacity w"
    and "e \<in> last (slots w)" "e \<notin> \<Union> (set (butlast (slots w)))"
  shows "e \<in> wheel_entries ((onTimer ^^ k) w) \<longleftrightarrow> k < cb_capacity w"
proof -
  have "shared_tick = onTimer" by (rule ext) (simp add: shared_tick_def)
  then have s: "slots ((onTimer ^^ k) w) = drop k (slots w) @ replicate k {}"
    using shared_ticks_slots [OF assms(1-3)] by simp
  show ?thesis
  proof (cases "k < cb_capacity w")
    case True
    then have "last (slots w) \<in> set (drop k (slots w))"
      using assms(1) by (metis drop_eq_Nil last_drop last_in_set linorder_not_less)
    then show ?thesis using True assms(4) s by (auto simp: wheel_entries_def)
  next
    case False
    then show ?thesis using assms(1,3) s by (auto simp: wheel_entries_def)
  qed
qed

section \<open>From the bytes of a request to the bytes of the reply\<close>

text \<open>A connection between two messages, with its entry in the wheel, whose output buffer has not
  been drained in part and can take \<open>n\<close> more bytes; its input buffer can take \<open>m\<close> more.\<close>

definition ready :: "io_loop \<Rightarrow> http_conn \<Rightarrow> nat \<Rightarrow> nat \<Rightarrow> bool" where
  "ready l hc m n \<longleftrightarrow> (case hc_context hc of None \<Rightarrow> False | Some ctx \<Rightarrow>
       (\<exists>E. ctx_holds E l \<and> weakEntryPtr ctx \<in> E) \<and> timers_empty l \<and> idle (httpParser ctx) \<and> input (httpParser ctx) = [] \<and> pos (httpParser ctx) = 0 \<and> connAlive (httpParser ctx))
     \<and> conn_inv (hc_conn hc) \<and> tc_state (hc_conn hc) = Connected \<and> untouched (hc_conn hc) n
     \<and> chan_cbs (hc_conn hc) = (True, True, True, True, True)
     \<and> binv (inputBuffer (hc_conn hc)) \<and> readIndex (inputBuffer (hc_conn hc)) \<le> CheapPrepend
     \<and> contents (inputBuffer (hc_conn hc)) = [] \<and> length (bufData (inputBuffer (hc_conn hc))) + m \<le> ptrdiff_max"

text \<open>The bytes given to the kernel and those waiting for it.\<close>

definition outgoing :: "http_conn \<Rightarrow> string" where
  "outgoing hc = wire (hc_conn hc) @ contents (outputBuffer (hc_conn hc))"

lemma send_all_ok:
  assumes "conn_inv c" "tc_state c = Connected" "untouched c (length (concat ms) + n)" "list_all2 (\<lambda>m k. k \<le> length m) ms ks"
  shows "\<exists>c'. send_all nd True c (zip ms (map Sent ks)) = Inr c' \<and> conn_inv c' \<and> tc_state c' = Connected \<and> untouched c' n
    \<and> wire c' @ pending c' = wire c @ pending c @ concat ms \<and> inputBuffer c' = inputBuffer c
    \<and> (pending c = [] \<and> ks = map length ms \<longrightarrow> pending c' = [])"
  using assms
proof (induction ms arbitrary: c ks)
  case (Cons m ms)
  obtain k ks' where ks: "ks = k # ks'" "k \<le> length m" "list_all2 (\<lambda>m k. k \<le> length m) ms ks'"
    using Cons.prems(4) by (auto simp: list_all2_Cons1)
  have "untouched c (length m + (length (concat ms) + n))" "length m \<le> ptrdiff_max"
    using Cons.prems(3) by (auto simp: untouched_def add.assoc)
  from conn_send_ok [OF Cons.prems(1,2) this(2) ks(2) this(1), of nd] obtain c1 where c1:
    "conn_send nd True c m (Sent k) = Inr c1" "conn_inv c1" "tc_state c1 = Connected" "untouched c1 (length (concat ms) + n)"
    "wire c1 @ pending c1 = wire c @ pending c @ m" "inputBuffer c1 = inputBuffer c" "pending c = [] \<and> k = length m \<longrightarrow> pending c1 = []"
    by blast
  from Cons.IH [OF c1(2-4) ks(3)] obtain c2 where c2: "send_all nd True c1 (zip ms (map Sent ks')) = Inr c2" "conn_inv c2"
    "tc_state c2 = Connected" "untouched c2 n" "wire c2 @ pending c2 = wire c1 @ pending c1 @ concat ms"
    "inputBuffer c2 = inputBuffer c1" "pending c1 = [] \<and> ks' = map length ms \<longrightarrow> pending c2 = []" by blast
  have "wire c2 @ pending c2 = wire c @ pending c @ concat (m # ms)" using c1(5) c2(5) by (metis append.assoc concat.simps(2))
  then show ?case using c1 c2 ks(1) by auto
qed auto

lemma send_all_cbs: "send_all nd here c ms = Inr c' \<Longrightarrow> chan_cbs c' = chan_cbs c"
  by (induction nd here c ms rule: send_all.induct) (auto dest: conn_send_cbs)

text \<open>The poller's note in the channel changes nothing that matters for a message, and it selects the
  callback.\<close>

lemma noted_ready:
  assumes "ready l hc m n"
  shows "ready l (hc\<lparr>hc_conn := (hc_conn hc)\<lparr>channel := setRevrnts rv (channel (hc_conn hc))\<rparr>\<rparr>) m n"
    and "fst (handleEvent True (setRevrnts EPOLLIN (channel (hc_conn hc)))) = [ReadCb]"
    and "fst (handleEvent True (setRevrnts EPOLLOUT (channel (hc_conn hc)))) = [WriteCb]"
proof -
  have "conn_inv (c\<lparr>channel := setRevrnts rv (channel c)\<rparr>) = conn_inv c"
    "chan_cbs (c\<lparr>channel := setRevrnts rv (channel c)\<rparr>) = chan_cbs c"
    "untouched (c\<lparr>channel := setRevrnts rv (channel c)\<rparr>) n = untouched c n" for c
    by (simp_all add: conn_inv_def chan_cbs_def setRevrnts_def pending_def writing_def isWriting_def untouched_def)
  then show "ready l (hc\<lparr>hc_conn := (hc_conn hc)\<lparr>channel := setRevrnts rv (channel (hc_conn hc))\<rparr>\<rparr>) m n"
    using assms(1) by (simp add: ready_def)
  have "hasRead (channel (hc_conn hc))" "hasWrite (channel (hc_conn hc))" "tied (channel (hc_conn hc))"
    using assms(1) by (simp_all add: ready_def chan_cbs_def)
  then show "fst (handleEvent True (setRevrnts EPOLLIN (channel (hc_conn hc)))) = [ReadCb]"
    "fst (handleEvent True (setRevrnts EPOLLOUT (channel (hc_conn hc)))) = [WriteCb]"
    by (simp_all add: setRevrnts_def handleEvent_def handleEventWithGuard_def event_masks)
qed

lemma feed_empty:
  "input p = [] \<Longrightarrow> pos p = 0 \<Longrightarrow> feed (p\<lparr>sent := []\<rparr>) s = p\<lparr>sent := [], input := s\<rparr>"
  by (simp add: feed_def hasData_def appendInput_def)

lemma conn_inv_input:
  "conn_inv (c\<lparr>inputBuffer := b\<rparr>) = conn_inv c" "conn_inv (emit MessageCb c) = conn_inv c"
  by (simp_all add: conn_inv_def pending_def writing_def emit_def)

lemma onMessage_ready:
  assumes inv: "conn_inv c" "tc_state c = Connected" "untouched c (length (concat texts) + n)" "binv (inputBuffer c)"
    and ctx: "idle (httpParser ctx)" "input (httpParser ctx) = []" "pos (httpParser ctx) = 0" "connAlive (httpParser ctx)"
    and rqs: "list_all req_ok rqs" "list_all (\<lambda>r. keep_of (rq_headers r)) rqs" "rqs \<noteq> []"
    and texts: "list_all2 (\<lambda>r t. reply env r = Inr t) rqs texts"
    and bytes: "contents (inputBuffer c) = concat (map print_req rqs)" "length (contents (inputBuffer c)) < size_mod"
    and taken: "list_all2 (\<lambda>t k. k \<le> length t) texts ks" "\<forall>i < length ks. taken i = Sent (ks ! i)"
    and wheel: "ctx_holds E l" "timers_empty l" "weakEntryPtr ctx \<in> E"
    and size: "length (bufData (inputBuffer c)) + m \<le> ptrdiff_max" and cbs: "chan_cbs c = (True, True, True, True, True)"
  shows "\<exists>l' hc'. onMessage env nd True l \<lparr>hc_conn = c, hc_context = Some ctx\<rparr> taken = Some (Inr (l', hc'))
    \<and> ready l' hc' m n \<and> outgoing hc' = wire c @ pending c @ concat texts
    \<and> (pending c = [] \<and> ks = map length texts \<longrightarrow> pending (hc_conn hc') = [])"
proof -
  obtain b where b: "retrieveAllAsString nd (inputBuffer c) = Inr (contents (inputBuffer c), b)" "binv b"
    "contents b = []" "readIndex b = CheapPrepend" "bufData b = bufData (inputBuffer c)"
    using retrieveAll_contents [OF inv(4)] by blast
  let ?p = "(httpParser ctx)\<lparr>sent := [], input := contents (inputBuffer c)\<rparr>"
  have "idle ?p" "input ?p = [] @ concat (map print_req rqs)" "pos ?p = length ([] :: string)"
    "length (input ?p) < size_mod" "connAlive ?p"
    using ctx bytes by (simp_all add: idle_def)
  from process_pipeline [OF this(1) rqs(1,2) texts this(2-5)] rqs(3)
  obtain q where q: "process env ?p = Some (Inr (True, q))" "sent q = texts" "idle q" "connAlive q" "input q = []" "pos q = 0"
    by auto
  have "length texts = length ks" using taken(1) by (rule list_all2_lengthD)
  then have tk: "map taken [0..<length texts] = map Sent ks"
    using taken(2) by (intro nth_equalityI) simp_all
  have "untouched (c\<lparr>inputBuffer := b\<rparr>) (length (concat texts) + n)" using inv(3) by (simp add: untouched_def)
  from send_all_ok [OF _ _ this taken(1), of nd] inv obtain c' where c':
    "send_all nd True (c\<lparr>inputBuffer := b\<rparr>) (zip texts (map Sent ks)) = Inr c'"
    "conn_inv c'" "tc_state c' = Connected" "untouched c' n" "wire c' @ pending c' = wire c @ pending c @ concat texts" "inputBuffer c' = b"
    "pending c = [] \<and> ks = map length texts \<longrightarrow> pending c' = []"
    by (auto simp: conn_inv_input pending_def)
  obtain l' where l': "touch nd (weakEntryPtr ctx) l = Inr l'" "ctx_holds E l'" "timers_empty l'"
    using touch_holds [OF wheel(1,2)] wheel(3) by (metis insert_absorb)
  have "weakEntryPtr ctx \<in> live_entries l"
    using wheel by (auto simp: ctx_holds_def live_entries_def)
  then have "onMessage env nd True l \<lparr>hc_conn = c, hc_context = Some ctx\<rparr> taken =
      Some (Inr (l', \<lparr>hc_conn = c', hc_context = Some (ctx\<lparr>httpParser := q\<rparr>)\<rparr>))"
    using b(1) q(1,2) c'(1) l'(1) by (simp add: onMessage_def feed_empty [OF ctx(2,3)] tk)
  moreover have "chan_cbs c' = (True, True, True, True, True)" using send_all_cbs [OF c'(1)] cbs by simp
  ultimately show ?thesis using q c' b l' wheel(3) size by (auto simp: ready_def outgoing_def pending_def)
qed

text \<open>A connection that has just come up is ready.\<close>

lemma onConnection_ready:
  assumes "conn_inv c" "tc_state c = Connected" "untouched c n" "binv (inputBuffer c)"
    and "readIndex (inputBuffer c) \<le> CheapPrepend" "contents (inputBuffer c) = []"
    and "length (bufData (inputBuffer c)) + m \<le> ptrdiff_max" "ctx_holds E l" "timers_empty l"
    and "chan_cbs c = (True, True, True, True, True)"
  shows "\<exists>l' hc'. onConnection nd e rq rs l \<lparr>hc_conn = c, hc_context = None\<rparr> = Inr (l', hc') \<and> ready l' hc' m n
    \<and> outgoing hc' = wire c @ pending c"
proof -
  obtain l' where l': "touch nd e l = Inr l'" "ctx_holds (insert e E) l'" "timers_empty l'"
    using touch_holds [OF assms(8,9)] by blast
  have cs: "conn_inv (setWriteCompleteCallback True (setHighWaterMarkCallback True h c))" for h
    using assms(1) by (simp add: setWriteCompleteCallback_def setHighWaterMarkCallback_def conn_inv_def pending_def writing_def)
  show ?thesis
    using assms cs l'
    by (auto simp: onConnection_def connected_def ready_def idle_def pending_def HttpParser_new_def outgoing_def untouched_def chan_cbs_def
        setWriteCompleteCallback_def setHighWaterMarkCallback_def)
qed

text \<open>A readable event with whole keep-alive requests.\<close>

lemma http_handleRead_ready:
  assumes "ready l hc (length (concat (map print_req rqs)) + m) (length (concat texts) + n)"
    and rqs: "list_all req_ok rqs" "list_all (\<lambda>r. keep_of (rq_headers r)) rqs" "rqs \<noteq> []"
      "list_all2 (\<lambda>r t. reply env r = Inr t) rqs texts"
    and taken: "list_all2 (\<lambda>t k. k \<le> length t) texts ks" "\<forall>i < length ks. taken i = Sent (ks ! i)"
  shows "\<exists>l' hc'. http_handleRead env nd True l hc (ReadBytes (concat (map print_req rqs))) taken = Some (Inr (l', hc'))
    \<and> ready l' hc' m n \<and> outgoing hc' = outgoing hc @ concat texts
    \<and> (pending (hc_conn hc) = [] \<and> ks = map length texts \<longrightarrow> pending (hc_conn hc') = [])"
proof -
  let ?bs = "concat (map print_req rqs)" and ?c = "hc_conn hc"
  obtain ctx E where ctx: "hc_context hc = Some ctx" "idle (httpParser ctx)" "input (httpParser ctx) = []"
    "pos (httpParser ctx) = 0" "connAlive (httpParser ctx)" "ctx_holds E l" "timers_empty l" "weakEntryPtr ctx \<in> E"
    and c: "conn_inv ?c" "tc_state ?c = Connected" "untouched ?c (length (concat texts) + n)" "binv (inputBuffer ?c)"
      "readIndex (inputBuffer ?c) \<le> CheapPrepend" "contents (inputBuffer ?c) = []"
      "length (bufData (inputBuffer ?c)) + (length ?bs + m) \<le> ptrdiff_max" "chan_cbs ?c = (True, True, True, True, True)"
    using assms(1) by (auto simp: ready_def split: option.splits)
  have "length (bufData (inputBuffer ?c)) + length ?bs \<le> ptrdiff_max" using c(7) by simp
  from readFd_contents [OF c(4,5) this, of nd] c(6) obtain ib where ib:
    "readFd nd (inputBuffer ?c) (ReadBytes ?bs) = Inr ((int (length ?bs), None), ib)" "binv ib" "contents ib = ?bs"
    "length (bufData ib) \<le> length (bufData (inputBuffer ?c)) + length ?bs" by auto
  let ?d = "emit MessageCb (?c\<lparr>inputBuffer := ib\<rparr>)"
  have ne: "0 < length ?bs" using rqs(3) by (cases rqs) (simp_all add: print_req_def print_head_def CRLF_def)
  have d: "conn_inv ?d" "tc_state ?d = Connected" "untouched ?d (length (concat texts) + n)" "binv (inputBuffer ?d)"
    "inputBuffer ?d = ib" "wire ?d = wire ?c" "pending ?d = pending ?c" "chan_cbs ?d = (True, True, True, True, True)"
    using c(1-3,8) ib(2) by (simp_all add: conn_inv_input pending_def untouched_def) (simp_all add: emit_def)
  have sz: "length (contents ib) < size_mod" "length (bufData ib) + m \<le> ptrdiff_max" using c(7) ib(3,4) by simp_all
  have hc: "hc\<lparr>hc_conn := ?d\<rparr> = \<lparr>hc_conn = ?d, hc_context = Some ctx\<rparr>" using ctx(1) by simp
  have "http_handleRead env nd True l hc (ReadBytes ?bs) taken = onMessage env nd True l \<lparr>hc_conn = ?d, hc_context = Some ctx\<rparr> taken"
    using ib(1) ne hc by (simp add: http_handleRead_def assertInLoopThread_def cassert_def Let_def)
  then show ?thesis
    using onMessage_ready [OF d(1-4) ctx(2-5) rqs _ _ taken ctx(6-8), of m nd] d(5-8) ib(3) sz
    by (auto simp: outgoing_def pending_def)
qed

section \<open>Properties\<close>

text \<open>A message of whole keep-alive requests is answered from the socket back to the socket: on
  a connection between two messages, a readable event whose bytes are the requests makes the
  server hand exactly the replies, in order, to the connection, however much of each the kernel
  takes at once: what the kernel took and what is waiting for it is what it was before,
  followed by the replies. If nothing was waiting and the kernel takes every reply whole,
  nothing is waiting. The handler returns without a fault in either build and the connection is
  ready for the next message. The sizes \<open>m\<close> and \<open>n\<close> say that the buffers still fit into memory.\<close>

theorem http_exchange:
  assumes "ready l hc (length (concat (map print_req rqs)) + m) (length (concat texts) + n)"
    and "list_all req_ok rqs" "list_all (\<lambda>r. keep_of (rq_headers r)) rqs" "rqs \<noteq> []"
    and "list_all2 (\<lambda>r t. reply env r = Inr t) rqs texts"
    and "list_all2 (\<lambda>t k. k \<le> length t) texts ks" "\<forall>i < length ks. taken i = Sent (ks ! i)"
  shows "\<exists>l' hc'. http_handleRead env nd True l hc (ReadBytes (concat (map print_req rqs))) taken = Some (Inr (l', hc'))
    \<and> ready l' hc' m n \<and> outgoing hc' = outgoing hc @ concat texts
    \<and> (contents (outputBuffer (hc_conn hc)) = [] \<and> ks = map length texts \<longrightarrow> contents (outputBuffer (hc_conn hc')) = [])"
  using http_handleRead_ready [OF assms, of nd] by (simp add: pending_def)

text \<open>A connection that was accepted and established, and the first exchange on it.\<close>

lemma fresh_connection:
  assumes "Buffer_new nd InitialSize = Inr b" "connectEstablished nd True (TcpConnection_new lp f hwm b b) = Inr c"
    and "m \<le> 2 ^ 62" "n \<le> 2 ^ 62"
  shows "conn_inv c \<and> tc_state c = Connected \<and> untouched c n \<and> binv (inputBuffer c) \<and> readIndex (inputBuffer c) \<le> CheapPrepend
    \<and> contents (inputBuffer c) = [] \<and> length (bufData (inputBuffer c)) + m \<le> ptrdiff_max \<and> wire c = [] \<and> pending c = []
    \<and> chan_cbs c = (True, True, True, True, True)"
proof -
  have b: "binv b" "contents b = []" "readIndex b = CheapPrepend" "length (bufData b) = 1032"
    using Buffer_new_ok [of InitialSize nd] assms(1) writeable_eq [of b]
    by (auto simp: Buffer_new_def InitialSize_def CheapPrepend_def szadd_def Let_def)
  let ?c = "TcpConnection_new lp f hwm b b"
  have c: "tc_state c = Connected" "inputBuffer c = b" "outputBuffer c = b" "wire c = []"
    using assms(2)
    by (auto simp: connectEstablished_def assertInLoopThread_def cassert_def connectionCallback_def connected_def
        TcpConnection_new_def Let_def emit_def watch_def)
  have cb: "chan_cbs c = (True, True, True, True, True)"
    using assms(2)
    by (auto simp: connectEstablished_def assertInLoopThread_def cassert_def TcpConnection_new_def Let_def)
       (simp add: chan_cbs_def Channel_tie_def setErrorCallback_def setCloseCallback_def setWriteCallback_def setReadCallback_def)
  have "conn_reachable nd ?c" using assms(1) by (rule conn_reachable.created)
  moreover have "conn_step nd ?c c" using assms(2) by (intro conn_step.established) (auto simp: TcpConnection_new_def)
  ultimately have "conn_inv c" using conn_reachable.step conn_reachable_inv by blast
  then show ?thesis using b c cb assms(3,4) by (auto simp: untouched_def pending_def)
qed

lemma connectEstablished_returns: "\<exists>c. connectEstablished nd True (TcpConnection_new lp f hwm b b) = Inr c"
  by (simp add: connectEstablished_def assertInLoopThread_def cassert_def TcpConnection_new_def Let_def)

lemma demo_ready: "\<exists>l hc. ready l hc 1000 1000 \<and> outgoing hc = [] \<and> pending (hc_conn hc) = []"
proof -
  obtain b where b: "Buffer_new True InitialSize = Inr b" using Buffer_new_ok [of InitialSize True] by (auto simp: InitialSize_def)
  obtain c where c: "connectEstablished True True (TcpConnection_new 1 5 0 b b) = Inr c"
    using connectEstablished_returns by blast
  obtain l where l: "ctx_holds {} l" "timers_empty l" using threadFunc_holds [of 8] by auto
  from fresh_connection [OF b c, of 1000 1000] onConnection_ready [of c 1000 1000 "{}" l True 1] l
  show ?thesis by (fastforce simp: outgoing_def pending_def)
qed

theorem http_exchange_witness:
  "\<exists>l hc l' hc'. ready l hc 1000 1000
     \<and> http_handleRead one_page True True l hc (ReadBytes (concat (map print_req [get_hello, get_hello])))
         (\<lambda>i. Sent ([81, 9] ! i)) = Some (Inr (l', hc'))
     \<and> outgoing hc' = concat (replicate 2 (''HTTP/1.1 200 OK'' @ CRLF @ ''Connection: keep-alive'' @ CRLF
           @ ''Content-Type: text/html'' @ CRLF @ CRLF @ ''Hello World!'' @ [LF]))"
proof -
  let ?t = "''HTTP/1.1 200 OK'' @ CRLF @ ''Connection: keep-alive'' @ CRLF
           @ ''Content-Type: text/html'' @ CRLF @ CRLF @ ''Hello World!'' @ [LF]"
  let ?rqs = "[get_hello, get_hello]"
  obtain l hc where l: "ready l hc 1000 1000" "outgoing hc = []" using demo_ready by blast
  have "reply one_page get_hello = Inr ?t"
    by (simp add: reply_def serve_def get_hello_def reply_text_def status_text_def OK_line_def
        content_type_def find_last_of_def mime_def)
  then have r: "list_all2 (\<lambda>r t. reply one_page r = Inr t) ?rqs [?t, ?t]" by simp
  have k: "list_all2 (\<lambda>t k. k \<le> length t) [?t, ?t] [81, 9]" by (simp add: CRLF_def)
  have "length (concat (map print_req ?rqs)) + (1000 - length (concat (map print_req ?rqs))) = 1000"
    "length (concat [?t, ?t]) + (1000 - length (concat [?t, ?t])) = 1000"
    by (simp_all add: print_req_def print_head_def print_header_def get_hello_def CRLF_def)
  then have rd: "ready l hc (length (concat (map print_req ?rqs)) + (1000 - length (concat (map print_req ?rqs))))
      (length (concat [?t, ?t]) + (1000 - length (concat [?t, ?t])))" using l(1) by simp
  have "\<exists>l' hc'. http_handleRead one_page True True l hc (ReadBytes (concat (map print_req ?rqs))) (\<lambda>i. Sent ([81, 9] ! i)) = Some (Inr (l', hc'))
     \<and> outgoing hc' = outgoing hc @ concat [?t, ?t]"
    using http_exchange [OF rd _ _ _ r k, of "\<lambda>i. Sent ([81, 9] ! i)" True] get_hello_ok by auto
  then show ?thesis using l by (auto simp: numeral_2_eq_2)
qed

text \<open>C33: No connection is ever closed for being idle. Whatever timers fire and whatever
  connections come or send messages, in any order and number, on a loop set up with a positive
  number of seconds: no entry dies, so the destructor that would shut the connection down never
  runs, and every entry inserted once is held for as long as the loop exists. (The timer turns
  its own copy of the wheel.) A timer that turned the wheel of the context would let an entry of
  its newest bucket die with tick \<open>n\<close> and no earlier.\<close>

theorem idle_never_kicked:
  assumes "0 < n"
  shows "(\<exists>l l'. threadFunc n io_loop_new = Inr l \<and> wheel_run nd l ops = Inr (l', {}) \<and> live_entries l' = touched ops)
    \<and> (\<forall>e k w. length (slots w) = nat n \<and> cb_capacity w = nat n \<and> e \<in> last (slots w) \<and> e \<notin> \<Union> (set (butlast (slots w)))
        \<longrightarrow> k \<le> nat n \<longrightarrow> (e \<in> wheel_entries ((onTimer ^^ k) w) \<longleftrightarrow> k < nat n))"
proof
  obtain l where l: "threadFunc n io_loop_new = Inr l" "ctx_holds {} l" "timers_empty l"
    using threadFunc_holds [OF assms] by blast
  obtain l' where l': "wheel_run nd l ops = Inr (l', {})" "ctx_holds ({} \<union> touched ops) l'" "timers_empty l'"
    using wheel_run_holds [OF l(2,3)] by blast
  have "live_entries l' = touched ops"
    using l'(2,3) by (auto simp: live_entries_def ctx_holds_def timers_empty_def)
  then show "\<exists>l l'. threadFunc n io_loop_new = Inr l \<and> wheel_run nd l ops = Inr (l', {}) \<and> live_entries l' = touched ops"
    using l(1) l'(1) by blast
next
  show "\<forall>e k w. length (slots w) = nat n \<and> cb_capacity w = nat n \<and> e \<in> last (slots w) \<and> e \<notin> \<Union> (set (butlast (slots w)))
        \<longrightarrow> k \<le> nat n \<longrightarrow> (e \<in> wheel_entries ((onTimer ^^ k) w) \<longleftrightarrow> k < nat n)"
  proof (intro allI impI)
    fix e :: nat and k :: nat and w :: wheel
    assume w: "length (slots w) = nat n \<and> cb_capacity w = nat n \<and> e \<in> last (slots w) \<and> e \<notin> \<Union> (set (butlast (slots w)))"
      and k: "k \<le> nat n"
    show "e \<in> wheel_entries ((onTimer ^^ k) w) \<longleftrightarrow> k < nat n"
      using ticks_entry [where w = w and e = e and k = k] w k assms by simp
  qed
qed

theorem idle_never_kicked_witness:
  "\<exists>l l'. threadFunc 8 io_loop_new = Inr l
     \<and> wheel_run True l (Touch 1 # replicate 100 (Fire 0)) = Inr (l', {}) \<and> live_entries l' = {1}"
proof -
  have "touched (Touch 1 # replicate 100 (Fire 0)) = {1}" by (auto simp: touched_def)
  then show ?thesis
    using idle_never_kicked [of 8 True "Touch 1 # replicate 100 (Fire 0)"] by auto
qed

text \<open>A connection that is closed while its write-complete functor is queued: \<open>handleWriteComplete\<close>
  then watches its descriptor for reading again.\<close>

lemma write_complete_after_close:
  assumes "tc_state c = Connected"
  shows "\<exists>c1 c2. handleClose nd True c = Inr c1 \<and> handleWriteComplete nd True c1 = Inr c2
    \<and> tc_state c2 = DisConnected \<and> \<not> isReading (channel c1) \<and> isReading (channel c2)"
proof -
  obtain c1 where c1: "handleClose nd True c = Inr c1" "tc_state c1 = DisConnected" "channel c1 = channel (watch DisableAll c)"
    using assms by (auto simp: handleClose_def assertInLoopThread_def cassert_def connectionCallback_def emit_def watch_def Let_def)
  have rd: "isReading (ch\<lparr>events := e, index := i\<rparr>) = isReading (ch\<lparr>events := e\<rparr>)" for ch :: Channel and e i
    by (simp add: isReading_def)
  have off: "\<not> isReading (channel c1)"
    using mask_ops [where c = "channel c" and k = DisableAll] unfolding c1(3) by (simp add: watch_def Let_def rd)
  have "isReading (channel (watch EnableReading c1))"
    using mask_ops [where c = "channel c1" and k = EnableReading] by (simp add: watch_def Let_def rd)
  then show ?thesis using c1 off by (simp add: handleWriteComplete_def startRead_def startReadInLoop_def assertInLoopThread_def cassert_def)
qed

end
