(* ===== verification/Socket.thy ===== *)
theory Socket
  imports Prelude "HOL-Library.Word"
begin

unbundle bit_operations_syntax

text \<open>
  \<^verbatim>\<open>Socket.h/.cpp\<close> and \<open>setNonBlockAndCloseOnExec\<close> of \<^verbatim>\<open>SocketsOps.cpp\<close>: who owns a descriptor. The
  kernel's side is the set of the descriptors the process has open; the results of the calls are
  arguments. A \<open>Socket\<close> is its descriptor.
\<close>

section \<open>Descriptors\<close>

text \<open>\<open>close\<close>: its result, and the open descriptors afterwards.\<close>

definition fd_close :: "int \<Rightarrow> int set \<Rightarrow> int \<times> int set" where
  "fd_close f fds = (if f \<in> fds then (0, fds - {f}) else (-1, fds))"

text \<open>A call that makes a descriptor: \<open>None\<close> is a failure, which gives -1.\<close>

definition fd_made :: "int option \<Rightarrow> int set \<Rightarrow> int \<times> int set" where
  "fd_made r fds = (case r of None \<Rightarrow> (-1, fds) | Some f \<Rightarrow> (f, insert f fds))"

section \<open>Socket\<close>

record Socket =
  sk_fd :: int

definition Socket_new :: "int \<Rightarrow> Socket" where
  "Socket_new f = \<lparr>sk_fd = f\<rparr>"

text \<open>The move constructor: the new object, and the one it was made from, which keeps its descriptor.\<close>

definition Socket_move :: "Socket \<Rightarrow> Socket \<times> Socket" where
  "Socket_move s = (\<lparr>sk_fd = sk_fd s\<rparr>, s)"

text \<open>The destructor: the open descriptors afterwards, and whether an error is logged.\<close>

definition Socket_destroy :: "Socket \<Rightarrow> int set \<Rightarrow> int set \<times> bool" where
  "Socket_destroy s fds = (case fd_close (sk_fd s) fds of (r, fds') \<Rightarrow> (fds', r < 0))"

definition bindAddress :: "int \<Rightarrow> unit res" where
  "bindAddress ret = (if ret < 0 then Inl ProcessAbort else Inr ())"

definition Socket_listen :: "int \<Rightarrow> unit res" where
  "Socket_listen ret = (if ret < 0 then Inl ProcessAbort else Inr ())"

text \<open>\<open>shutdownWrite\<close> only logs an error.\<close>

definition shutdownWrite :: "int \<Rightarrow> bool" where
  "shutdownWrite ret \<longleftrightarrow> ret < 0"

text \<open>The flags \<open>setNonBlockAndCloseOnExec\<close> gives back to the kernel.\<close>

definition O_NONBLOCK :: "32 word" where "O_NONBLOCK = 2048"
definition FD_CLOEXEC :: "32 word" where "FD_CLOEXEC = 1"

definition setNonBlockAndCloseOnExec :: "32 word \<Rightarrow> 32 word \<Rightarrow> 32 word \<times> 32 word" where
  "setNonBlockAndCloseOnExec getfl getfd = (getfl OR O_NONBLOCK, getfd OR FD_CLOEXEC)"

lemma flags_only_added:
  assumes "setNonBlockAndCloseOnExec fl fd = (fl', fd')"
  shows "fl' AND O_NONBLOCK = O_NONBLOCK \<and> fl' AND NOT O_NONBLOCK = fl AND NOT O_NONBLOCK
    \<and> fd' AND FD_CLOEXEC = FD_CLOEXEC \<and> fd' AND NOT FD_CLOEXEC = fd AND NOT FD_CLOEXEC"
  using assms by (auto simp: setNonBlockAndCloseOnExec_def bit_eq_iff bit_simps)

section \<open>Ownership\<close>

text \<open>A socket that is never moved closes its descriptor and nothing else, once.\<close>

lemma Socket_owns: "f \<in> fds \<Longrightarrow> Socket_destroy (Socket_new f) fds = (fds - {f}, False)"
  by (simp add: Socket_destroy_def Socket_new_def fd_close_def)

text \<open>A moved one is closed twice; if the number was given out again in between, the second
  destructor closes the descriptor of somebody else.\<close>

lemma moved_socket_closes_twice:
  assumes "f \<in> fds" "Socket_move (Socket_new f) = (s', s)" "Socket_destroy s fds = (fds1, e1)"
  shows "Socket_destroy s' fds1 = (fds - {f}, True)"
    and "fd_made (Some f) fds1 = (f, fds2) \<Longrightarrow> Socket_destroy s' fds2 = (fds - {f}, False)"
  using assms by (auto simp: Socket_move_def Socket_new_def Socket_destroy_def fd_close_def fd_made_def)

end
