(* ===== verification/TcpServer.thy ===== *)
theory TcpServer
  imports TcpConnection Socket "HOL-Library.Mapping" "HOL-Library.Multiset" "HOL-Library.List_Lexorder" "HOL-Library.Char_ord"
begin

text \<open>
  \<^verbatim>\<open>EventLoopThreadPool.h/.cpp\<close>, \<^verbatim>\<open>Acceptor.h/.cpp\<close> and \<^verbatim>\<open>TcpServer.h/.cpp\<close>: accepting connections,
  giving each a name and an I/O loop in turn, and keeping them in a table until they are
  closed. A loop is known by a number; \<open>posted\<close> lists the functors given to \<open>runInLoop\<close> and
  \<open>queueInLoop\<close> of the loops, in the order the server gives them. A connection is known by its
  name, its loop and its descriptor; what happens inside it is the theory of connections.
\<close>

section \<open>The pool of I/O loops\<close>

record EventLoopThreadPool =
  pool_started :: bool
  numThreads :: int
  pool_next :: nat
  baseLoop :: nat
  threads :: "nat list"
  initCalls :: "nat list"

definition EventLoopThreadPool_new :: "nat \<Rightarrow> EventLoopThreadPool" where
  "EventLoopThreadPool_new base = \<lparr>pool_started = False, numThreads = 0, pool_next = 0, baseLoop = base,
     threads = [], initCalls = []\<rparr>"

definition pool_setThreadNum :: "int \<Rightarrow> EventLoopThreadPool \<Rightarrow> EventLoopThreadPool" where
  "pool_setThreadNum n p = p\<lparr>numThreads := n\<rparr>"

text \<open>Each new thread makes a loop (the argument gives its number) and calls the init callback on it.\<close>

definition pool_start :: "bool \<Rightarrow> bool \<Rightarrow> (nat \<Rightarrow> nat) \<Rightarrow> bool \<Rightarrow> EventLoopThreadPool \<Rightarrow> EventLoopThreadPool res" where
  "pool_start nd here newLoop cb p =
     rbind (cassert nd (\<not> pool_started p)) (\<lambda>_.
     rbind (assertInLoopThread nd here) (\<lambda>_.
       let new = map newLoop [1..<nat (numThreads p) + 1];
           p1 = p\<lparr>pool_started := True, threads := threads p @ new,
                  initCalls := initCalls p @ (if cb then new else [])\<rparr>
       in Inr (if numThreads p1 = 0 \<and> cb then p1\<lparr>initCalls := initCalls p1 @ [baseLoop p1]\<rparr> else p1)))"

definition getNextLoop :: "bool \<Rightarrow> bool \<Rightarrow> EventLoopThreadPool \<Rightarrow> (nat \<times> EventLoopThreadPool) res" where
  "getNextLoop nd here p =
     rbind (cassert nd (pool_started p)) (\<lambda>_.
     rbind (assertInLoopThread nd here) (\<lambda>_.
       if threads p \<noteq> [] then
         if pool_next p < length (threads p)
         then Inr (threads p ! pool_next p, p\<lparr>pool_next := (pool_next p + 1) mod length (threads p)\<rparr>)
         else Inl OutOfBounds
       else Inr (baseLoop p, p)))"

section \<open>The acceptor\<close>

text \<open>The result of \<open>accept4\<close>, and what \<open>handleRead\<close> does with it. The errors \<open>Socket::accept\<close>
  lets pass are those of its first group; the others end the process. \<open>if(EMFILE)\<close> tests a
  constant, so every error that passes gives up the spare descriptor.\<close>

datatype accept_result = Accepted int | AcceptError string

datatype acceptor_action = NewConnection int | CloseFd int | AcceptAndClose

record Acceptor =
  listening :: bool
  hasNewConnectionCallback :: bool
  acceptReading :: bool

text \<open>The constructor, once \<open>/dev/null\<close> is open and the socket is bound.\<close>

definition Acceptor_new :: Acceptor where
  "Acceptor_new = \<lparr>listening = False, hasNewConnectionCallback = False, acceptReading = False\<rparr>"

definition setNewConneptCallback :: "Acceptor \<Rightarrow> Acceptor" where
  "setNewConneptCallback a = a\<lparr>hasNewConnectionCallback := True\<rparr>"

definition tolerated_errors :: "string list" where
  "tolerated_errors = [''EAGAIN'', ''ECONNABORTED'', ''EINTR'', ''EPROTO'', ''EPERM'', ''EMFILE'']"

definition Socket_accept :: "accept_result \<Rightarrow> int res" where
  "Socket_accept r = (case r of Accepted f \<Rightarrow> Inr f
     | AcceptError e \<Rightarrow> if e \<in> set tolerated_errors then Inr (-1) else Inl ProcessAbort)"

definition Acceptor_listen :: "bool \<Rightarrow> bool \<Rightarrow> Acceptor \<Rightarrow> Acceptor res" where
  "Acceptor_listen nd here a =
     rbind (assertInLoopThread nd here) (\<lambda>_. Inr (a\<lparr>listening := True, acceptReading := True\<rparr>))"

definition acceptor_handleRead :: "bool \<Rightarrow> bool \<Rightarrow> Acceptor \<Rightarrow> accept_result \<Rightarrow> acceptor_action res" where
  "acceptor_handleRead nd here a r =
     rbind (assertInLoopThread nd here) (\<lambda>_.
     rbind (Socket_accept r) (\<lambda>connfd.
       Inr (if connfd \<ge> 0 then if hasNewConnectionCallback a then NewConnection connfd else CloseFd connfd
            else AcceptAndClose)))"

text \<open>What \<open>AcceptAndClose\<close> does to the descriptors: the spare one is closed, so that a waiting
  connection can be accepted (the first result) and closed, and \<open>/dev/null\<close> is opened again (the
  second). The new value of \<open>idleFd_\<close> and the open descriptors.\<close>

definition give_up_spare :: "int option \<Rightarrow> int option \<Rightarrow> int \<Rightarrow> int set \<Rightarrow> int \<times> int set" where
  "give_up_spare acc opened idleFd fds =
     (let (_, fds1) = fd_close idleFd fds;
          (conn, fds2) = fd_made acc fds1;
          (_, fds3) = fd_close conn fds2
      in fd_made opened fds3)"

text \<open>With a spare descriptor and one that can be opened again nothing leaks, whether a connection was
  waiting or not; if \<open>/dev/null\<close> cannot be opened again, there is no spare one any more.\<close>

lemma spare_kept:
  assumes "idleFd \<in> fds" "-1 \<notin> fds" "case acc of None \<Rightarrow> True | Some f \<Rightarrow> f \<notin> fds - {idleFd}"
  shows "give_up_spare acc (Some g) idleFd fds = (g, insert g (fds - {idleFd}))"
    and "give_up_spare acc None idleFd fds = (-1, fds - {idleFd})"
  using assms by (auto simp: give_up_spare_def fd_close_def fd_made_def split: option.splits)

text \<open>The destructor: the channel is taken out of the poller, the spare descriptor is closed, and the
  socket as a member closes its own.\<close>

definition Acceptor_destroy :: "int \<Rightarrow> Socket \<Rightarrow> Acceptor \<Rightarrow> int set \<Rightarrow> Acceptor \<times> int set" where
  "Acceptor_destroy idleFd acceptSocket a fds =
     (a\<lparr>acceptReading := False\<rparr>, fst (Socket_destroy acceptSocket (snd (fd_close idleFd fds))))"

section \<open>The server\<close>

text \<open>The callbacks a user of the server installs: the default ones of \<^verbatim>\<open>TcpConnection.cpp\<close>, those of the HTTP
  server, or others, known by a number.\<close>

datatype user_callback = DefaultCallback | OnConnection | OnMessage | ThreadFunc | UserCallback nat

record srv_conn =
  cn_name :: string
  cn_loop :: nat
  cn_fd :: int
  cn_connectionCallback :: user_callback
  cn_messageCallback :: user_callback

datatype posted_fn = ConnectEstablished srv_conn | ConnectDestroyed srv_conn | AcceptorListen
  | RemoveConnectionInLoop srv_conn

record TcpServer =
  nextConnId :: int
  srv_loop :: nat
  srv_hostport :: string
  srv_name :: string
  srv_started :: bool
  threadPool :: EventLoopThreadPool
  acceptor :: Acceptor
  srv_connectionCallback :: user_callback
  srv_messageCallback :: user_callback
  srv_writeCompleteCallback :: bool
  srv_threadInitCallback :: "user_callback option"
  connections :: "(string, srv_conn) mapping"
  posted :: "(nat \<times> posted_fn) list"

definition TcpServer_new :: "nat \<Rightarrow> string \<Rightarrow> string \<Rightarrow> TcpServer" where
  "TcpServer_new loop hostport name =
     \<lparr>nextConnId = 1, srv_loop = loop, srv_hostport = hostport, srv_name = name, srv_started = False,
      threadPool = EventLoopThreadPool_new loop, acceptor = setNewConneptCallback Acceptor_new,
      srv_connectionCallback = DefaultCallback, srv_messageCallback = DefaultCallback,
      srv_writeCompleteCallback = False, srv_threadInitCallback = None,
      connections = Mapping.empty, posted = []\<rparr>"

definition srv_setThreadNum :: "bool \<Rightarrow> int \<Rightarrow> TcpServer \<Rightarrow> TcpServer res" where
  "srv_setThreadNum nd n s =
     rbind (cassert nd (0 \<le> n)) (\<lambda>_. Inr (s\<lparr>threadPool := pool_setThreadNum n (threadPool s)\<rparr>))"

definition srv_setConnectionCallback :: "user_callback \<Rightarrow> TcpServer \<Rightarrow> TcpServer" where
  "srv_setConnectionCallback cb s = s\<lparr>srv_connectionCallback := cb\<rparr>"

definition srv_setMessageCallback :: "user_callback \<Rightarrow> TcpServer \<Rightarrow> TcpServer" where
  "srv_setMessageCallback cb s = s\<lparr>srv_messageCallback := cb\<rparr>"

definition srv_setWriteCompleteCallback :: "TcpServer \<Rightarrow> TcpServer" where
  "srv_setWriteCompleteCallback s = s\<lparr>srv_writeCompleteCallback := True\<rparr>"

definition srv_setThreadInitCallback :: "user_callback \<Rightarrow> TcpServer \<Rightarrow> TcpServer" where
  "srv_setThreadInitCallback cb s = s\<lparr>srv_threadInitCallback := Some cb\<rparr>"

definition srv_start :: "bool \<Rightarrow> bool \<Rightarrow> (nat \<Rightarrow> nat) \<Rightarrow> TcpServer \<Rightarrow> TcpServer res" where
  "srv_start nd here newLoop s =
     (if \<not> srv_started s then
        rbind (pool_start nd here newLoop (srv_threadInitCallback s \<noteq> None) (threadPool s)) (\<lambda>p.
        rbind (cassert nd (\<not> listening (acceptor s))) (\<lambda>_.
        Inr (s\<lparr>srv_started := True, threadPool := p, posted := posted s @ [(srv_loop s, AcceptorListen)]\<rparr>)))
      else Inr s)"

text \<open>The name: \<open>snprintf\<close> cuts the part behind the server's name at 63 characters.\<close>

definition conn_name :: "TcpServer \<Rightarrow> string" where
  "conn_name s = srv_name s @ take 63 (''-'' @ srv_hostport s @ ''#'' @ dec_int (nextConnId s))"

definition newConnection :: "bool \<Rightarrow> bool \<Rightarrow> TcpServer \<Rightarrow> int \<Rightarrow> TcpServer res" where
  "newConnection nd here s sockfd =
     rbind (assertInLoopThread nd here) (\<lambda>_.
     rbind (getNextLoop nd here (threadPool s)) (\<lambda>(ioLoop, p).
       if nextConnId s = 2 ^ 31 - 1 then Inl SignedOverflow else
       let c = \<lparr>cn_name = conn_name s, cn_loop = ioLoop, cn_fd = sockfd,
                cn_connectionCallback = srv_connectionCallback s, cn_messageCallback = srv_messageCallback s\<rparr>
       in Inr (s\<lparr>threadPool := p, nextConnId := nextConnId s + 1,
                 connections := Mapping.update (cn_name c) c (connections s),
                 posted := posted s @ [(ioLoop, ConnectEstablished c)]\<rparr>)))"

definition removeConnectionInLoop :: "bool \<Rightarrow> bool \<Rightarrow> TcpServer \<Rightarrow> srv_conn \<Rightarrow> TcpServer res" where
  "removeConnectionInLoop nd here s c =
     rbind (assertInLoopThread nd here) (\<lambda>_.
     rbind (cassert nd (Mapping.lookup (connections s) (cn_name c) \<noteq> None)) (\<lambda>_.
       Inr (s\<lparr>connections := Mapping.delete (cn_name c) (connections s),
              posted := posted s @ [(cn_loop c, ConnectDestroyed c)]\<rparr>)))"

text \<open>The server's close callback posts its own removal to the server's loop.\<close>

definition removeConnection :: "TcpServer \<Rightarrow> srv_conn \<Rightarrow> TcpServer" where
  "removeConnection s c = s\<lparr>posted := posted s @ [(srv_loop s, RemoveConnectionInLoop c)]\<rparr>"

text \<open>The destructor walks the table in the order of the names.\<close>

definition TcpServer_destroy :: "bool \<Rightarrow> bool \<Rightarrow> TcpServer \<Rightarrow> TcpServer res" where
  "TcpServer_destroy nd here s =
     rbind (assertInLoopThread nd here) (\<lambda>_.
       let cs = map (\<lambda>k. the (Mapping.lookup (connections s) k)) (Mapping.ordered_keys (connections s))
       in Inr (s\<lparr>connections := Mapping.empty,
                 posted := posted s @ map (\<lambda>c. (cn_loop c, ConnectDestroyed c)) cs\<rparr>))"

text \<open>A readable listening socket: the acceptor's callback is the server's \<open>newConnection\<close>.\<close>

definition srv_acceptable :: "bool \<Rightarrow> bool \<Rightarrow> TcpServer \<Rightarrow> accept_result \<Rightarrow> TcpServer res" where
  "srv_acceptable nd here s r =
     rbind (acceptor_handleRead nd here (acceptor s) r) (\<lambda>a.
       case a of NewConnection f \<Rightarrow> newConnection nd here s f | CloseFd f \<Rightarrow> Inr s | AcceptAndClose \<Rightarrow> Inr s)"

section \<open>Round robin\<close>

fun next_loops :: "bool \<Rightarrow> bool \<Rightarrow> nat \<Rightarrow> EventLoopThreadPool \<Rightarrow> (nat list \<times> EventLoopThreadPool) res" where
  "next_loops nd here 0 p = Inr ([], p)"
| "next_loops nd here (Suc k) p =
     rbind (getNextLoop nd here p) (\<lambda>(l, p1). rbind (next_loops nd here k p1) (\<lambda>(ls, p2). Inr (l # ls, p2)))"

lemma getNextLoop_ok:
  assumes "pool_started p" "nd \<or> here" "threads p \<noteq> []" "pool_next p < length (threads p)"
  shows "getNextLoop nd here p = Inr (threads p ! pool_next p, p\<lparr>pool_next := (pool_next p + 1) mod length (threads p)\<rparr>)"
  using assms by (simp add: getNextLoop_def assertInLoopThread_def cassert_def)

lemma next_loops_round_robin:
  assumes "pool_started p" "nd \<or> here" "threads p \<noteq> []" "pool_next p < length (threads p)"
  shows "\<exists>p'. next_loops nd here k p = Inr (map (\<lambda>i. threads p ! ((pool_next p + i) mod length (threads p))) [0..<k], p')"
  using assms
proof (induction k arbitrary: p)
  case 0
  then show ?case by simp
next
  case (Suc k)
  let ?n = "length (threads p)"
  let ?p1 = "p\<lparr>pool_next := (pool_next p + 1) mod ?n\<rparr>"
  obtain p' where p': "next_loops nd here k ?p1 =
      Inr (map (\<lambda>i. threads p ! (((pool_next p + 1) mod ?n + i) mod ?n)) [0..<k], p')"
    using Suc.IH [of ?p1] Suc.prems by auto
  have "map (\<lambda>i. threads p ! (((pool_next p + 1) mod ?n + i) mod ?n)) [0..<k] =
      map (\<lambda>i. threads p ! ((pool_next p + Suc i) mod ?n)) [0..<k]"
    by (simp add: mod_add_left_eq)
  also have "\<dots> = map (\<lambda>i. threads p ! ((pool_next p + i) mod ?n)) [Suc 0..<Suc k]"
    by (simp add: map_Suc_upt [symmetric] del: upt_Suc)
  finally have tl: "map (\<lambda>i. threads p ! (((pool_next p + 1) mod ?n + i) mod ?n)) [0..<k] =
      map (\<lambda>i. threads p ! ((pool_next p + i) mod ?n)) [Suc 0..<Suc k]" .
  show ?case
    using getNextLoop_ok [OF Suc.prems] p' tl Suc.prems(4)
    by (simp add: upt_conv_Cons del: upt_Suc)
qed

section \<open>Names and the table of connections\<close>

lemma dec_nat_inj: "dec_nat m = dec_nat n \<Longrightarrow> m = n"
  by (metis read_digits_dec_nat)

definition full_name :: "string \<Rightarrow> string \<Rightarrow> nat \<Rightarrow> string" where
  "full_name name hostport i = name @ ''-'' @ hostport @ ''#'' @ dec_nat i"

lemma full_name_inj: "full_name n h i = full_name n h j \<longleftrightarrow> i = j"
  by (auto simp: full_name_def dest: dec_nat_inj)

lemma conn_name_full:
  assumes "nextConnId s = int i" "i < 2 ^ 31" "length (srv_hostport s) \<le> 50"
  shows "conn_name s = full_name (srv_name s) (srv_hostport s) i"
proof -
  have "length (dec_nat i) \<le> 10" using length_dec_nat [of 10 i] assms(2) by simp
  then show ?thesis using assms(1,3) by (simp add: conn_name_def full_name_def dec_int_def)
qed

text \<open>A run of the server: answers of \<open>accept4\<close> and closed connections in any order.\<close>

datatype srv_op = Accept accept_result | Close srv_conn

fun srv_step :: "bool \<Rightarrow> TcpServer \<Rightarrow> srv_op \<Rightarrow> TcpServer res" where
  "srv_step nd s (Accept r) = srv_acceptable nd True s r"
| "srv_step nd s (Close c) = removeConnectionInLoop nd True s c"

fun srv_run :: "bool \<Rightarrow> TcpServer \<Rightarrow> srv_op list \<Rightarrow> TcpServer res" where
  "srv_run nd s [] = Inr s"
| "srv_run nd s (x # xs) = rbind (srv_step nd s x) (\<lambda>s1. srv_run nd s1 xs)"

text \<open>The reference: the connections open after a run, in the order of their numbers. The
  \<open>i\<close>-th accepted descriptor gets number \<open>i\<close> and the loops in turn; a close takes out the
  connection of that name and is allowed only for an open one; every connection gets the callbacks
  of the server; an error of \<open>accept4\<close> that
  \<open>Socket::accept\<close> lets pass changes nothing.\<close>

fun open_conns :: "string \<Rightarrow> string \<Rightarrow> nat list \<Rightarrow> user_callback \<times> user_callback \<Rightarrow> nat \<Rightarrow> srv_conn list \<Rightarrow> srv_op list \<Rightarrow> srv_conn list option" where
  "open_conns name hp loops cbs i cs [] = Some cs"
| "open_conns name hp loops cbs i cs (Accept (Accepted f) # xs) =
     (if f < 0 \<or> 2 ^ 31 - 1 \<le> i then None else open_conns name hp loops cbs (i + 1)
       (cs @ [\<lparr>cn_name = full_name name hp i, cn_loop = loops ! ((i - 1) mod length loops), cn_fd = f,
          cn_connectionCallback = fst cbs, cn_messageCallback = snd cbs\<rparr>]) xs)"
| "open_conns name hp loops cbs i cs (Accept (AcceptError e) # xs) =
     (if e \<in> set tolerated_errors then open_conns name hp loops cbs i cs xs else None)"
| "open_conns name hp loops cbs i cs (Close c # xs) =
     (if c \<in> set cs then open_conns name hp loops cbs i (remove1 c cs) xs else None)"

definition srv_callbacks :: "TcpServer \<Rightarrow> user_callback \<times> user_callback" where
  "srv_callbacks s = (srv_connectionCallback s, srv_messageCallback s)"

text \<open>The table holds exactly the given connections, with names of numbers already used.\<close>

definition srv_inv :: "TcpServer \<Rightarrow> nat \<Rightarrow> srv_conn list \<Rightarrow> bool" where
  "srv_inv s i cs \<longleftrightarrow> nextConnId s = int i \<and> 1 \<le> i \<and> hasNewConnectionCallback (acceptor s)
     \<and> pool_started (threadPool s) \<and> threads (threadPool s) \<noteq> []
     \<and> pool_next (threadPool s) = (i - 1) mod length (threads (threadPool s))
     \<and> distinct (map cn_name cs)
     \<and> Mapping.lookup (connections s) = map_of (map (\<lambda>c. (cn_name c, c)) cs)
     \<and> (\<forall>c \<in> set cs. \<exists>j < i. cn_name c = full_name (srv_name s) (srv_hostport s) j)"

lemma mapping_empty_lookup: "Mapping.lookup m = Map.empty \<Longrightarrow> m = Mapping.empty"
  by transfer simp

lemma lookup_delete_fun: "Mapping.lookup (Mapping.delete k m) = (Mapping.lookup m)(k := None)"
  by transfer simp

lemma names_lookup:
  "distinct (map cn_name cs) \<Longrightarrow> c \<in> set cs \<Longrightarrow> map_of (map (\<lambda>c. (cn_name c, c)) cs) (cn_name c) = Some c"
  by (intro map_of_is_SomeI) (simp_all add: comp_def)

lemma map_of_names_append:
  assumes "cn_name c \<notin> cn_name ` set cs"
  shows "map_of (map (\<lambda>c. (cn_name c, c)) (cs @ [c])) = (map_of (map (\<lambda>c. (cn_name c, c)) cs))(cn_name c \<mapsto> c)"
  using assms by (induction cs) (auto simp: fun_eq_iff)

lemma map_of_names_remove1:
  assumes "distinct (map cn_name cs)" "c \<in> set cs"
  shows "map_of (map (\<lambda>c. (cn_name c, c)) (remove1 c cs)) = (map_of (map (\<lambda>c. (cn_name c, c)) cs))(cn_name c := None)"
  using assms
proof (induction cs)
  case (Cons d ds)
  show ?case
  proof (cases "c = d")
    case True
    have "map_of (map (\<lambda>c. (cn_name c, c)) ds) (cn_name d) = None"
      using Cons.prems by (auto simp: map_of_eq_None_iff)
    then show ?thesis using True by (auto simp: fun_eq_iff)
  next
    case False
    then have "c \<in> set ds" using Cons.prems(2) by simp
    then have "cn_name c \<in> cn_name ` set ds" by (rule imageI)
    then have "cn_name c \<noteq> cn_name d" using Cons.prems(1) by auto
    then show ?thesis using Cons False by (auto simp: fun_eq_iff)
  qed
qed simp

lemma newConnection_inv:
  assumes "srv_inv s i cs" "i < 2 ^ 31 - 1" "length (srv_hostport s) \<le> 50"
  shows "\<exists>s'. newConnection nd True s f = Inr s'
     \<and> srv_inv s' (i + 1) (cs @ [\<lparr>cn_name = full_name (srv_name s) (srv_hostport s) i,
          cn_loop = threads (threadPool s) ! ((i - 1) mod length (threads (threadPool s))), cn_fd = f,
          cn_connectionCallback = fst (srv_callbacks s), cn_messageCallback = snd (srv_callbacks s)\<rparr>])
     \<and> srv_name s' = srv_name s \<and> srv_hostport s' = srv_hostport s
     \<and> threads (threadPool s') = threads (threadPool s) \<and> srv_callbacks s' = srv_callbacks s"
proof -
  note iv = assms(1)[unfolded srv_inv_def]
  let ?n = "length (threads (threadPool s))"
  have nm: "conn_name s = full_name (srv_name s) (srv_hostport s) i"
    using conn_name_full [of s i] iv assms(2,3) by simp
  have fresh: "full_name (srv_name s) (srv_hostport s) i \<notin> cn_name ` set cs"
    using iv by (force simp: full_name_inj)
  have "pool_next (threadPool s) < ?n" using iv by simp
  then have gn: "getNextLoop nd True (threadPool s) = Inr (threads (threadPool s) ! ((i - 1) mod ?n),
      (threadPool s)\<lparr>pool_next := ((i - 1) mod ?n + 1) mod ?n\<rparr>)"
    using getNextLoop_ok [of "threadPool s" nd True] iv by simp
  have step: "((i - 1) mod ?n + 1) mod ?n = i mod ?n"
    using iv by (metis mod_add_left_eq le_add_diff_inverse2)
  have lt: "nextConnId s \<noteq> 2147483647" using iv assms(2) by simp
  let ?c = "\<lparr>cn_name = full_name (srv_name s) (srv_hostport s) i,
      cn_loop = threads (threadPool s) ! ((i - 1) mod ?n), cn_fd = f,
          cn_connectionCallback = fst (srv_callbacks s), cn_messageCallback = snd (srv_callbacks s)\<rparr>"
  let ?s = "s\<lparr>threadPool := (threadPool s)\<lparr>pool_next := i mod ?n\<rparr>, nextConnId := nextConnId s + 1,
      connections := Mapping.update (cn_name ?c) ?c (connections s),
      posted := posted s @ [(cn_loop ?c, ConnectEstablished ?c)]\<rparr>"
  have run: "newConnection nd True s f = Inr ?s"
    using lt by (simp add: newConnection_def gn assertInLoopThread_def cassert_def nm Let_def step [simplified] srv_callbacks_def)
  have tab: "Mapping.lookup (connections ?s) = map_of (map (\<lambda>c. (cn_name c, c)) (cs @ [?c]))"
    using iv fresh by (simp add: map_of_names_append lookup_update' fun_eq_iff del: map_append)
  have used: "\<forall>c \<in> set (cs @ [?c]). \<exists>j < i + 1. cn_name c = full_name (srv_name s) (srv_hostport s) j"
  proof
    fix c assume c: "c \<in> set (cs @ [?c])"
    then show "\<exists>j < i + 1. cn_name c = full_name (srv_name s) (srv_hostport s) j"
      using iv by (cases "c = ?c") (auto intro: less_SucI)
  qed
  have "srv_inv ?s (i + 1) (cs @ [?c])"
    unfolding srv_inv_def tab using used iv fresh by simp
  then show ?thesis using run by (simp add: srv_callbacks_def)
qed

lemma removeConnectionInLoop_inv:
  assumes "srv_inv s i cs" "c \<in> set cs"
  shows "\<exists>s'. removeConnectionInLoop nd True s c = Inr s' \<and> srv_inv s' i (remove1 c cs)
     \<and> srv_name s' = srv_name s \<and> srv_hostport s' = srv_hostport s
     \<and> threads (threadPool s') = threads (threadPool s) \<and> srv_callbacks s' = srv_callbacks s"
proof -
  note iv = assms(1)[unfolded srv_inv_def]
  have mem: "Mapping.lookup (connections s) (cn_name c) = Some c"
    using names_lookup [OF _ assms(2)] iv by simp
  let ?s = "s\<lparr>connections := Mapping.delete (cn_name c) (connections s),
      posted := posted s @ [(cn_loop c, ConnectDestroyed c)]\<rparr>"
  have run: "removeConnectionInLoop nd True s c = Inr ?s"
    by (simp add: removeConnectionInLoop_def assertInLoopThread_def cassert_def mem)
  have tab: "Mapping.lookup (connections ?s) = map_of (map (\<lambda>c. (cn_name c, c)) (remove1 c cs))"
    using iv assms(2) by (simp add: map_of_names_remove1 lookup_delete_fun)
  have "distinct (map cn_name (remove1 c cs))"
    using iv by (auto simp: distinct_map inj_on_def dest: notin_set_remove1)
  then have "srv_inv ?s i (remove1 c cs)"
    unfolding srv_inv_def tab using iv by (auto dest: notin_set_remove1)
  then show ?thesis using run by (simp add: srv_callbacks_def)
qed

lemma srv_run_inv:
  assumes "srv_inv s i cs" "length (srv_hostport s) \<le> 50"
    and "open_conns (srv_name s) (srv_hostport s) (threads (threadPool s)) (srv_callbacks s) i cs xs = Some ds"
  shows "\<exists>s' k. srv_run nd s xs = Inr s' \<and> srv_inv s' k ds"
  using assms
proof (induction "srv_name s" "srv_hostport s" "threads (threadPool s)" "srv_callbacks s" i cs xs arbitrary: s rule: open_conns.induct)
  case (1 i cs)
  then show ?case by auto
next
  case (2 i cs f xs)
  have g: "0 \<le> f" "i < 2 ^ 31 - 1" using "2.prems"(3) by (auto split: if_splits)
  obtain s1 where s1: "newConnection nd True s f = Inr s1"
     "srv_inv s1 (i + 1) (cs @ [\<lparr>cn_name = full_name (srv_name s) (srv_hostport s) i,
          cn_loop = threads (threadPool s) ! ((i - 1) mod length (threads (threadPool s))), cn_fd = f,
          cn_connectionCallback = fst (srv_callbacks s), cn_messageCallback = snd (srv_callbacks s)\<rparr>])"
     "srv_name s1 = srv_name s" "srv_hostport s1 = srv_hostport s" "threads (threadPool s1) = threads (threadPool s)" "srv_callbacks s1 = srv_callbacks s"
    using newConnection_inv [OF "2.prems"(1) g(2) "2.prems"(2)] by blast
  have "srv_step nd s (Accept (Accepted f)) = Inr s1"
    using g(1) s1(1) "2.prems"(1)
    by (simp add: srv_acceptable_def acceptor_handleRead_def assertInLoopThread_def cassert_def Socket_accept_def srv_inv_def)
  moreover have "\<exists>s' k. srv_run nd s1 xs = Inr s' \<and> srv_inv s' k ds"
    using "2.hyps" [of s1] s1(2-6) g "2.prems"(2,3) by simp
  ultimately show ?case by simp
next
  case (3 i cs e xs)
  have e: "e \<in> set tolerated_errors" using "3.prems"(3) by (auto split: if_splits)
  have "srv_step nd s (Accept (AcceptError e)) = Inr s"
    using e by (simp add: srv_acceptable_def acceptor_handleRead_def assertInLoopThread_def cassert_def Socket_accept_def)
  then show ?case using "3.hyps" [of s] e "3.prems" by simp
next
  case (4 i cs c xs)
  have c: "c \<in> set cs" using "4.prems"(3) by (auto split: if_splits)
  obtain s1 where "removeConnectionInLoop nd True s c = Inr s1" "srv_inv s1 i (remove1 c cs)"
     "srv_name s1 = srv_name s" "srv_hostport s1 = srv_hostport s" "threads (threadPool s1) = threads (threadPool s)" "srv_callbacks s1 = srv_callbacks s"
    using removeConnectionInLoop_inv [OF "4.prems"(1) c] by blast
  then show ?case using "4.hyps" [of s1] c "4.prems"(2,3) by simp
qed

text \<open>A server with \<open>n\<close> I/O threads that has been started and accepted nothing yet.\<close>

definition started_server :: "bool \<Rightarrow> (nat \<Rightarrow> nat) \<Rightarrow> int \<Rightarrow> TcpServer \<Rightarrow> TcpServer res" where
  "started_server nd newLoop n s = rbind (srv_setThreadNum nd n s) (srv_start nd True newLoop)"

text \<open>A server as its user constructs it and installs the callbacks.\<close>

definition configured :: "nat \<Rightarrow> string \<Rightarrow> string \<Rightarrow> user_callback \<times> user_callback \<Rightarrow> user_callback option \<Rightarrow> TcpServer" where
  "configured loop hostport name cbs init =
     (let s = srv_setMessageCallback (snd cbs) (srv_setConnectionCallback (fst cbs) (TcpServer_new loop hostport name))
      in case init of None \<Rightarrow> s | Some cb \<Rightarrow> srv_setThreadInitCallback cb s)"

lemma started_server_inv:
  assumes "0 < n"
  shows "\<exists>s. started_server nd newLoop n (configured loop hp name cbs init) = Inr s \<and> srv_inv s 1 []
    \<and> srv_name s = name \<and> srv_hostport s = hp \<and> threads (threadPool s) = map newLoop [1..<nat n + 1] \<and> srv_callbacks s = cbs
    \<and> srv_threadInitCallback s = init"
  using assms
  by (cases init) (simp_all add: started_server_def configured_def srv_setThreadNum_def TcpServer_new_def srv_start_def pool_start_def
      pool_setThreadNum_def EventLoopThreadPool_new_def setNewConneptCallback_def Acceptor_new_def srv_inv_def
      srv_setMessageCallback_def srv_setConnectionCallback_def srv_setThreadInitCallback_def srv_callbacks_def
      assertInLoopThread_def cassert_def Let_def lookup_empty fun_eq_iff)

text \<open>The destructor: every connection of the table is destroyed on its own loop, once.\<close>

lemma TcpServer_destroy_posts:
  assumes "srv_inv s i cs"
  shows "\<exists>s' ds. TcpServer_destroy nd True s = Inr s' \<and> connections s' = Mapping.empty
    \<and> posted s' = posted s @ map (\<lambda>c. (cn_loop c, ConnectDestroyed c)) ds \<and> mset ds = mset cs"
proof -
  note iv = assms[unfolded srv_inv_def]
  let ?m = "connections s"
  let ?g = "\<lambda>k. the (Mapping.lookup ?m k)"
  let ?ds = "map ?g (Mapping.ordered_keys ?m)"
  have keys: "Mapping.keys ?m = cn_name ` set cs"
    using iv by (simp add: keys_dom_lookup dom_map_of_conv_image_fst image_image)
  have look: "?g (cn_name c) = c" if "c \<in> set cs" for c
    using names_lookup [OF _ that] iv by simp
  have "set ?ds = set cs" using keys look by (force simp: image_iff)
  moreover have "distinct ?ds" using keys look by (auto simp: distinct_map inj_on_def)
  moreover have "distinct cs" using iv by (auto simp: distinct_map)
  ultimately have "mset ?ds = mset cs" by (metis set_eq_iff_mset_eq_distinct)
  moreover have "TcpServer_destroy nd True s = Inr (s\<lparr>connections := Mapping.empty,
      posted := posted s @ map (\<lambda>c. (cn_loop c, ConnectDestroyed c)) ?ds\<rparr>)"
    by (simp add: TcpServer_destroy_def assertInLoopThread_def cassert_def Let_def)
  ultimately show ?thesis
    by (intro exI [of _ "s\<lparr>connections := Mapping.empty,
        posted := posted s @ map (\<lambda>c. (cn_loop c, ConnectDestroyed c)) ?ds\<rparr>"] exI [of _ ?ds] conjI) simp_all
qed

section \<open>Property\<close>

text \<open>C8: From a started server with at least one I/O thread, and whatever connections are accepted
  and closed in whatever order (with the errors of \<open>accept4\<close> the code lets pass in between), the
  handlers never fault in either build, and the table holds exactly the open connections: under
  distinct names, the k-th accepted one named with number k, given to thread
  \<open>(k - 1) mod n\<close> and furnished with the callbacks of the server. The address is at most 50 characters long, more than \<open>ip:port\<close> needs.\<close>

theorem server_dispatch:
  assumes "0 < n" "length hp \<le> 50"
    and "open_conns name hp (map newLoop [1..<nat n + 1]) cbs 1 [] xs = Some cs"
  shows "\<exists>s. rbind (started_server nd newLoop n (configured loop hp name cbs init)) (\<lambda>s0. srv_run nd s0 xs) = Inr s
    \<and> distinct (map cn_name cs)
    \<and> (\<forall>nm. Mapping.lookup (connections s) nm = find (\<lambda>c. cn_name c = nm) cs)"
proof -
  obtain s0 where s0: "started_server nd newLoop n (configured loop hp name cbs init) = Inr s0" "srv_inv s0 1 []"
    "srv_name s0 = name" "srv_hostport s0 = hp" "threads (threadPool s0) = map newLoop [1..<nat n + 1]" "srv_callbacks s0 = cbs"
    using started_server_inv [OF assms(1)] by blast
  obtain s k where s: "srv_run nd s0 xs = Inr s" "srv_inv s k cs"
    using srv_run_inv [OF s0(2), of xs cs nd] s0(3-6) assms(2,3) by auto
  have "map_of (map (\<lambda>c. (cn_name c, c)) ds) nm = find (\<lambda>c. cn_name c = nm) ds" for ds nm
    by (induction ds) auto
  then show ?thesis using s0(1) s by (auto simp: srv_inv_def)
qed

definition demo_hp :: string where "demo_hp = ''0.0.0.0:8080''"

definition demo_srv_conn :: "nat \<Rightarrow> nat \<Rightarrow> int \<Rightarrow> srv_conn" where
  "demo_srv_conn i l f = \<lparr>cn_name = full_name ''HttpServer'' demo_hp i, cn_loop = l, cn_fd = f,
     cn_connectionCallback = OnConnection, cn_messageCallback = OnMessage\<rparr>"

definition demo_ops :: "srv_op list" where
  "demo_ops = [Accept (Accepted 9), Accept (Accepted 10), Accept (AcceptError ''EMFILE''), Accept (Accepted 11),
     Close (demo_srv_conn 1 101 9)]"

theorem server_dispatch_witness:
  "\<exists>s. rbind (started_server True (\<lambda>i. 100 + i) 2 (configured 0 demo_hp ''HttpServer'' (OnConnection, OnMessage) (Some ThreadFunc))) (\<lambda>s0. srv_run True s0 demo_ops) = Inr s
    \<and> distinct (map cn_name [demo_srv_conn 2 102 10, demo_srv_conn 3 101 11])
    \<and> (\<forall>nm. Mapping.lookup (connections s) nm = find (\<lambda>c. cn_name c = nm) [demo_srv_conn 2 102 10, demo_srv_conn 3 101 11])"
proof -
  have lp: "map (\<lambda>i. 100 + i) [1..<nat 2 + 1] = [101, 102 :: nat]" by code_simp
  have "open_conns ''HttpServer'' demo_hp (map (\<lambda>i. 100 + i) [1..<nat 2 + 1]) (OnConnection, OnMessage) 1 [] demo_ops =
      Some [demo_srv_conn 2 102 10, demo_srv_conn 3 101 11]"
    unfolding lp by (simp add: demo_ops_def demo_srv_conn_def tolerated_errors_def numeral_2_eq_2 [symmetric])
  then show ?thesis by (intro server_dispatch) (simp_all add: demo_hp_def)
qed

end
