(* ===== verification/InetAddress.thy ===== *)
theory InetAddress
  imports Strings "HOL-Library.Word"
begin

text \<open>
  \<^verbatim>\<open>InetAddress.h/.cpp\<close>, \<^verbatim>\<open>SocketsOps.cpp\<close> and the socket options of \<^verbatim>\<open>Socket.cpp\<close>. A \<open>sockaddr_in\<close> is
  its 16 bytes, as an x86 machine lays them out: the family in host order, the port and the
  address in network order, eight bytes of padding. \<open>inet_pton\<close> and \<open>inet_ntop\<close> are those of the
  C library for \<open>AF_INET\<close>.
\<close>

type_synonym sockaddr_in = "8 word list"

section \<open>The C library\<close>

definition htobe16 :: "16 word \<Rightarrow> 8 word list" where
  "htobe16 p = [word_of_nat (unat p div 256), word_of_nat (unat p mod 256)]"

definition be16toh :: "8 word list \<Rightarrow> nat" where
  "be16toh bs = unat (bs ! 0) * 256 + unat (bs ! 1)"

definition inet_ntop :: "8 word list \<Rightarrow> string" where
  "inet_ntop bs = dec_nat (unat (bs ! 0)) @ ''.'' @ dec_nat (unat (bs ! 1)) @ ''.'' @ dec_nat (unat (bs ! 2))
     @ ''.'' @ dec_nat (unat (bs ! 3))"

fun split_on :: "char \<Rightarrow> string \<Rightarrow> string list" where
  "split_on c [] = [[]]"
| "split_on c (x # xs) = (if x = c then [] # split_on c xs
     else case split_on c xs of [] \<Rightarrow> [[x]] | p # ps \<Rightarrow> (x # p) # ps)"

text \<open>A decimal octet: digits, no superfluous zero in front, at most 255.\<close>

definition octet :: "string \<Rightarrow> 8 word option" where
  "octet s = (if s \<noteq> [] \<and> list_all (\<lambda>c. digit_val c \<noteq> None) s \<and> (hd s = CHR ''0'' \<longrightarrow> s = ''0'') \<and> read_digits 0 s \<le> 255
     then Some (word_of_nat (read_digits 0 s)) else None)"

definition inet_pton :: "string \<Rightarrow> 8 word list option" where
  "inet_pton s = (case map octet (split_on (CHR ''.'') s) of
     [Some a, Some b, Some c, Some d] \<Rightarrow> Some [a, b, c, d] | _ \<Rightarrow> None)"

section \<open>InetAddress\<close>

definition AF_INET :: "8 word list" where "AF_INET = [2, 0]"

definition sin_port :: "sockaddr_in \<Rightarrow> 8 word list" where "sin_port a = take 2 (drop 2 a)"
definition sin_addr :: "sockaddr_in \<Rightarrow> 8 word list" where "sin_addr a = take 4 (drop 4 a)"

definition InetAddress_port :: "16 word \<Rightarrow> sockaddr_in" where
  "InetAddress_port portArg = AF_INET @ htobe16 portArg @ replicate 4 0 @ replicate 8 0"

text \<open>\<open>inet_pton(AF_INET, ip, addr)\<close> writes the four bytes of the address at the start of the
  structure; of an unreadable text it writes nothing, which is only logged.\<close>

definition fromIpPort :: "string \<Rightarrow> 16 word \<Rightarrow> sockaddr_in \<Rightarrow> sockaddr_in" where
  "fromIpPort ip port addr =
     (let a = AF_INET @ htobe16 port @ drop 4 addr
      in case inet_pton ip of None \<Rightarrow> a | Some bs \<Rightarrow> bs @ drop 4 a)"

definition InetAddress_ip :: "string \<Rightarrow> 16 word \<Rightarrow> sockaddr_in" where
  "InetAddress_ip ip port = fromIpPort ip port (replicate 16 0)"

definition toIp :: "sockaddr_in \<Rightarrow> string" where
  "toIp a = take 31 (inet_ntop (sin_addr a))"

text \<open>\<open>sprintf\<close> into an array of 32 characters.\<close>

definition toIpPort :: "sockaddr_in \<Rightarrow> string res" where
  "toIpPort a =
     (let s = inet_ntop (sin_addr a) @ '':'' @ dec_nat (be16toh (sin_port a))
      in if length s < 32 then Inr s else Inl OutOfBounds)"

definition ipNetEndian :: "sockaddr_in \<Rightarrow> 8 word list" where "ipNetEndian a = sin_addr a"
definition portNetEndian :: "sockaddr_in \<Rightarrow> 8 word list" where "portNetEndian a = sin_port a"

section \<open>Socket calls\<close>

text \<open>\<open>createNonblockingOrDie\<close> has no \<open>return\<close>: what a caller gets is an argument.\<close>

definition createNonblockingOrDie :: "int \<Rightarrow> int \<Rightarrow> int res" where
  "createNonblockingOrDie socket_result indeterminate = (if socket_result < 0 then Inl ProcessAbort else Inr indeterminate)"

text \<open>\<open>getsockname\<close> and \<open>getpeername\<close>: on an error the structure stays zero.\<close>

definition getAddr :: "sockaddr_in option \<Rightarrow> sockaddr_in" where
  "getAddr r = (case r of None \<Rightarrow> replicate 16 0 | Some a \<Rightarrow> a)"

definition isSelfConnect :: "sockaddr_in option \<Rightarrow> sockaddr_in option \<Rightarrow> bool" where
  "isSelfConnect sockname peername =
     (let localaddr = getAddr sockname; peeraddr = getAddr peername
      in sin_addr localaddr = sin_addr peeraddr \<and> sin_port localaddr = sin_port peeraddr)"

definition getSocketError :: "int \<Rightarrow> int option \<Rightarrow> int" where
  "getSocketError err optval = (case optval of None \<Rightarrow> err | Some v \<Rightarrow> v)"

text \<open>The calls of \<open>setsockopt\<close>: level, option and value.\<close>

datatype sockopt = TCP_NODELAY | SO_REUSEADDR | SO_REUSEPORT | SO_KEEPALIVE
datatype sockopt_level = IPPROTO_TCP | SOL_SOCKET

definition optval :: "bool \<Rightarrow> int" where "optval on = (if on then 1 else 0)"

definition setTcpNoDelay :: "bool \<Rightarrow> sockopt_level \<times> sockopt \<times> int" where
  "setTcpNoDelay on = (IPPROTO_TCP, TCP_NODELAY, optval on)"
definition setReuseAddr :: "bool \<Rightarrow> sockopt_level \<times> sockopt \<times> int" where
  "setReuseAddr on = (IPPROTO_TCP, SO_REUSEADDR, optval on)"
definition setReusePort :: "bool \<Rightarrow> sockopt_level \<times> sockopt \<times> int" where
  "setReusePort on = (IPPROTO_TCP, SO_REUSEPORT, optval on)"
definition setKeepAlive :: "bool \<Rightarrow> sockopt_level \<times> sockopt \<times> int" where
  "setKeepAlive on = (IPPROTO_TCP, SO_KEEPALIVE, optval on)"

section \<open>Texts of addresses\<close>

lemma digit_not_dot: "digit_val (CHR ''.'') = None"
  by code_simp

lemma dot_not_in_dec: "CHR ''.'' \<notin> set (dec_nat n)"
  using dec_nat_digits [of n] digit_not_dot by (auto simp: list_all_iff)

lemma split_on_append: "c \<notin> set xs \<Longrightarrow> split_on c (xs @ c # ys) = xs # split_on c ys"
  by (induction xs) auto

lemma split_on_none: "c \<notin> set xs \<Longrightarrow> split_on c xs = [xs]"
  by (induction xs) auto

lemma hd_dec_nat: "hd (dec_nat n) = CHR ''0'' \<Longrightarrow> n = 0"
proof (induction n rule: dec_nat.induct)
  case (1 n)
  show ?case
  proof (cases "n < 10")
    case True
    have "of_char (CHR ''0'') = (48 :: nat)" by code_simp
    moreover have "of_char (char_of (48 + n) :: char) = 48 + n" using True by simp
    moreover have "char_of (48 + n) = CHR ''0''" using True "1.prems" by (simp add: dec_nat.simps [of n])
    ultimately show ?thesis by (metis add_cancel_left_right)
  next
    case False
    then have "hd (dec_nat (n div 10)) = CHR ''0''" using "1.prems" by (simp add: dec_nat.simps [of n])
    then show ?thesis using "1.IH" [OF False] False by simp
  qed
qed

lemma byte_less: "unat (w :: 8 word) < 256"
  using unsigned_less [of w] by simp

lemma octet_dec: "octet (dec_nat (unat (w :: 8 word))) = Some w"
proof -
  have "unat w \<le> 255" using byte_less [of w] by simp
  moreover have "dec_nat 0 = ''0''" by code_simp
  ultimately show ?thesis
    using dec_nat_digits [of "unat w"] hd_dec_nat [of "unat w"] by (auto simp: octet_def read_digits_dec_nat)
qed

lemma inet_pton_ntop: "inet_pton (inet_ntop bs) = Some [bs ! 0, bs ! 1, bs ! 2, bs ! 3]"
  by (simp add: inet_pton_def inet_ntop_def split_on_append split_on_none dot_not_in_dec octet_dec)

lemma length_octet_text: "length (dec_nat (unat (w :: 8 word))) \<le> 3"
  using byte_less [of w] by (simp add: length_dec_nat)

lemma length_ntop: "length (inet_ntop bs) \<le> 15"
  using length_octet_text [of "bs ! 0"] length_octet_text [of "bs ! 1"] length_octet_text [of "bs ! 2"] length_octet_text [of "bs ! 3"]
  by (simp add: inet_ntop_def)

lemma be16_less: "be16toh bs < 65536"
  using byte_less [of "bs ! 0"] byte_less [of "bs ! 1"] by (simp add: be16toh_def)

lemma be16_htobe16: "be16toh (htobe16 p) = unat p"
proof -
  have "unat p < 65536" using unsigned_less [of p] by simp
  then have "unat p div 256 < 256" by (simp add: less_mult_imp_div_less)
  then show ?thesis by (simp add: be16toh_def htobe16_def unat_of_nat)
qed

lemma toIpPort_any: "toIpPort (InetAddress_port p) = Inr (''0.0.0.0:'' @ dec_nat (unat p))"
proof -
  have "length (dec_nat (be16toh (htobe16 p))) \<le> 5" using be16_less [of "htobe16 p"] by (simp add: length_dec_nat)
  moreover have "dec_nat 0 = ''0''" by code_simp
  moreover have "sin_addr (InetAddress_port p) = replicate 4 0" "sin_port (InetAddress_port p) = htobe16 p"
    by (simp_all add: sin_addr_def sin_port_def InetAddress_port_def AF_INET_def htobe16_def)
  ultimately show ?thesis
    by (simp add: toIpPort_def inet_ntop_def be16_htobe16 nth_Cons' numeral_eq_Suc)
qed

section \<open>Properties\<close>

text \<open>The text of an address fits its array and says what the address is: \<open>toIpPort\<close> never
  writes outside its 32 characters, its text is the dotted address, a colon and the port and at
  most 21 characters long, and reading the dotted part with \<open>inet_pton\<close> gives the bytes of the
  address back; the address of the constructor for a port reads \<open>0.0.0.0\<close> and that port.\<close>

theorem address_text:
  "\<exists>s. toIpPort a = Inr s \<and> length s \<le> 21 \<and> s = toIp a @ '':'' @ dec_nat (be16toh (portNetEndian a))
     \<and> inet_pton (toIp a) = Some [sin_addr a ! 0, sin_addr a ! 1, sin_addr a ! 2, sin_addr a ! 3]
     \<and> toIpPort (InetAddress_port p) = Inr (''0.0.0.0:'' @ dec_nat (unat p))"
proof -
  have l: "length (inet_ntop bs) \<le> 15" "length (dec_nat (be16toh cs)) \<le> 5" for bs cs
    using length_ntop [of bs] be16_less [of cs] by (simp_all add: length_dec_nat)
  show ?thesis
    using toIpPort_any [of p] l(1) [of "sin_addr a"] l(2) [of "sin_port a"]
    by (simp add: toIpPort_def toIp_def portNetEndian_def inet_pton_ntop Let_def)
qed

text \<open>An address made from a text is not that address: whatever the four numbers, the result has
  the address \<open>0.0.0.0\<close>, and its port is made of the last two numbers instead of the given port,
  because \<open>inet_pton\<close> writes to the start of the structure.\<close>

theorem address_from_text_is_wrong:
  "toIpPort (InetAddress_ip (inet_ntop [a, b, c, d]) port) = Inr (''0.0.0.0:'' @ dec_nat (unat c * 256 + unat d))"
proof -
  have "InetAddress_ip (inet_ntop [a, b, c, d]) port = [a, b, c, d] @ replicate 12 0"
    by (simp add: InetAddress_ip_def fromIpPort_def inet_pton_ntop Let_def AF_INET_def htobe16_def)
  then have "sin_addr (InetAddress_ip (inet_ntop [a, b, c, d]) port) = replicate 4 0"
    "sin_port (InetAddress_ip (inet_ntop [a, b, c, d]) port) = [c, d]"
    by (simp_all add: sin_addr_def sin_port_def)
  moreover have "dec_nat 0 = ''0''" by code_simp
  moreover have "length (dec_nat (unat c * 256 + unat d)) \<le> 5" using be16_less [of "[c, d]"] by (simp add: length_dec_nat be16toh_def)
  ultimately show ?thesis by (simp add: toIpPort_def inet_ntop_def be16toh_def nth_Cons' numeral_eq_Suc)
qed

end
