(* ===== verification/LogStream.thy ===== *)
theory LogStream
  imports Strings "HOL-Library.Signed_Division"
begin

text \<open>
  \<^verbatim>\<open>base/LogStream.h\<close> and \<^verbatim>\<open>base/LogStream.cpp\<close>: the fixed-size buffer a log line is built in and the
  conversions to text. A buffer is its block of memory and the offset of \<open>cur_\<close>; writing
  outside the block is a fault. The text \<open>snprintf\<close> makes of a \<open>double\<close> with \<open>%.12g\<close> is an
  argument. Integers are given by their values; the bounds of the C++ types are premises of
  the theorems.
\<close>

section \<open>The fixed-size buffer\<close>

record FixedBuffer =
  fb_buf :: "char list"
  fb_cur :: nat

definition FixedBuffer_new :: "nat \<Rightarrow> FixedBuffer" where
  "FixedBuffer_new cap = \<lparr>fb_buf = replicate cap NUL, fb_cur = 0\<rparr>"

definition avail :: "FixedBuffer \<Rightarrow> nat" where
  "avail b = szsub (length (fb_buf b)) (fb_cur b)"

definition fb_length :: "FixedBuffer \<Rightarrow> nat" where
  "fb_length b = fb_cur b"

definition fb_add :: "FixedBuffer \<Rightarrow> nat \<Rightarrow> FixedBuffer" where
  "fb_add b n = b\<lparr>fb_cur := fb_cur b + n\<rparr>"

definition fb_reset :: "FixedBuffer \<Rightarrow> FixedBuffer" where
  "fb_reset b = b\<lparr>fb_cur := 0\<rparr>"

definition fb_bzero :: "FixedBuffer \<Rightarrow> FixedBuffer" where
  "fb_bzero b = \<lparr>fb_buf = replicate (length (fb_buf b)) NUL, fb_cur = 0\<rparr>"

definition fb_append :: "FixedBuffer \<Rightarrow> string \<Rightarrow> FixedBuffer res" where
  "fb_append b d =
     (if avail b > length d
      then rbind (mem_write (fb_buf b) (fb_cur b) d) (\<lambda>m. Inr (fb_add (b\<lparr>fb_buf := m\<rparr>) (length d)))
      else Inr b)"

section \<open>Conversions\<close>

definition digits :: string where "digits = ''9876543210123456789''"
definition digitsHex :: string where "digitsHex = ''0123456789ABCDEF''"

text \<open>The loop of \<open>convert\<close>: the characters in the order they are stored, and the value left.
  The division truncates towards zero, and \<open>zero[i]\<close> is the digit of the absolute value.\<close>

function convert_loop :: "int \<Rightarrow> string \<times> int" where
  "convert_loop v =
     (let i = v smod 10; w = v sdiv 10; c = digits ! nat (9 + i)
      in if w > 0 then (case convert_loop w of (s, r) \<Rightarrow> (c # s, r)) else ([c], w))"
  by pat_completeness auto
termination
proof (relation "measure nat")
  fix v i w :: int and c
  assume w: "w = v sdiv 10" "w > 0"
  have "v > 0"
  proof (rule ccontr)
    assume "\<not> v > 0"
    then have "v sdiv 10 \<le> 0" by (cases "v = 0") (auto simp: signed_divide_int_def)
    with w show False by simp
  qed
  then have "v sdiv 10 < v" by (simp add: signed_divide_int_def)
  then show "(w, v) \<in> measure nat" using w \<open>v > 0\<close> by simp
qed simp

declare convert_loop.simps [simp del]

definition convert :: "int \<Rightarrow> string" where
  "convert v = (case convert_loop v of (s, r) \<Rightarrow> rev (if r < 0 then s @ ''-'' else s))"

function convertHex_loop :: "nat \<Rightarrow> string" where
  "convertHex_loop i = digitsHex ! (i mod 16) # (if i div 16 \<noteq> 0 then convertHex_loop (i div 16) else [])"
  by pat_completeness auto
termination by (relation "measure id") auto

declare convertHex_loop.simps [simp del]

definition convertHex :: "nat \<Rightarrow> string" where
  "convertHex v = rev (convertHex_loop v)"

section \<open>The stream\<close>

definition MaxNumericSize :: nat where "MaxNumericSize = 32"
definition SmallBuffer :: nat where "SmallBuffer = 4096"
definition LargeBuffer :: nat where "LargeBuffer = 4096 * 1024"

text \<open>A conversion writes its text and a zero byte at \<open>current()\<close> before \<open>add\<close> moves the end.\<close>

definition write_text :: "FixedBuffer \<Rightarrow> string \<Rightarrow> FixedBuffer res" where
  "write_text b s =
     rbind (mem_write (fb_buf b) (fb_cur b) (s @ [NUL])) (\<lambda>m. Inr (fb_add (b\<lparr>fb_buf := m\<rparr>) (length s)))"

definition formatInteger :: "FixedBuffer \<Rightarrow> int \<Rightarrow> FixedBuffer res" where
  "formatInteger b v = (if avail b > MaxNumericSize then write_text b (convert v) else Inr b)"

definition put_pointer :: "FixedBuffer \<Rightarrow> nat \<Rightarrow> FixedBuffer res" where
  "put_pointer b p = (if avail b \<ge> MaxNumericSize then write_text b (''0x'' @ convertHex p) else Inr b)"

definition put_double :: "FixedBuffer \<Rightarrow> string \<Rightarrow> FixedBuffer res" where
  "put_double b g = (if avail b > MaxNumericSize
     then rbind (mem_write (fb_buf b) (fb_cur b) (take (MaxNumericSize - 1) g @ [NUL])) (\<lambda>m.
          Inr (fb_add (b\<lparr>fb_buf := m\<rparr>) (length g)))
     else Inr b)"

definition put_cstring :: "FixedBuffer \<Rightarrow> string option \<Rightarrow> FixedBuffer res" where
  "put_cstring b v = (case v of Some s \<Rightarrow> fb_append b s | None \<Rightarrow> fb_append b ''(null)'')"

datatype log_item = LBool bool | LInt int | LDouble string | LPointer nat | LCString "string option"
  | LString string | LChar char

fun log_put :: "FixedBuffer \<Rightarrow> log_item \<Rightarrow> FixedBuffer res" where
  "log_put b (LBool v) = fb_append b (if v then ''1'' else ''0'')"
| "log_put b (LInt v) = formatInteger b v"
| "log_put b (LDouble g) = put_double b g"
| "log_put b (LPointer p) = put_pointer b p"
| "log_put b (LCString v) = put_cstring b v"
| "log_put b (LString s) = put_cstring b (Some (cstr_at s 0))"
| "log_put b (LChar c) = fb_append b [c]"

section \<open>Lemmas\<close>

definition fb_text :: "FixedBuffer \<Rightarrow> string" where
  "fb_text b = take (fb_cur b) (fb_buf b)"

definition fb_inv :: "nat \<Rightarrow> FixedBuffer \<Rightarrow> bool" where
  "fb_inv cap b \<longleftrightarrow> length (fb_buf b) = cap \<and> fb_cur b \<le> cap"

lemma avail_eq: "fb_inv cap b \<Longrightarrow> avail b = cap - fb_cur b"
  by (simp add: fb_inv_def avail_def)

lemma fb_append_ok:
  assumes "fb_inv cap b"
  shows "\<exists>b'. fb_append b d = Inr b' \<and> fb_inv cap b'
    \<and> fb_text b' = fb_text b @ (if length d < avail b then d else [])"
proof (cases "length d < avail b")
  case True
  let ?m = "take (fb_cur b) (fb_buf b) @ d @ drop (fb_cur b + length d) (fb_buf b)"
  have fit: "fb_cur b + length d \<le> length (fb_buf b)"
    using True avail_eq [OF assms] assms by (simp add: fb_inv_def)
  then have "fb_append b d = Inr (fb_add (b\<lparr>fb_buf := ?m\<rparr>) (length d))"
    using True by (simp add: fb_append_def)
  then show ?thesis
    using True assms fit by (simp add: fb_inv_def fb_text_def fb_add_def)
next
  case False
  then show ?thesis using assms by (simp add: fb_append_def)
qed

lemma write_text_ok:
  assumes "fb_inv cap b" "length s < avail b"
  shows "\<exists>b'. write_text b s = Inr b' \<and> fb_inv cap b' \<and> fb_text b' = fb_text b @ s"
  using assms avail_eq [OF assms(1)] by (simp add: write_text_def fb_inv_def fb_add_def fb_text_def)

lemma digits_table:
  assumes "n < 10"
  shows "digits ! (9 + n) = char_of (48 + n)" "digits ! (9 - n) = char_of (48 + n)"
proof -
  have "list_all (\<lambda>n. digits ! (9 + n) = char_of (48 + n) \<and> digits ! (9 - n) = char_of (48 + n)) [0..<10]"
    by code_simp
  then show "digits ! (9 + n) = char_of (48 + n)" "digits ! (9 - n) = char_of (48 + n)"
    using assms by (auto simp: list_all_iff)
qed

lemma sdivmod_nat: "int n sdiv 10 = int (n div 10)" "int n smod 10 = int (n mod 10)"
  "(- int n) sdiv 10 = - int (n div 10)" "(- int n) smod 10 = - int (n mod 10)"
  by (cases "n = 0"; simp add: signed_divide_int_def signed_modulo_int_def zdiv_int zmod_int)+

lemma convert_loop_nat: "convert_loop (int n) = (rev (dec_nat n), 0)"
proof (induction n rule: dec_nat.induct)
  case (1 n)
  have d: "digits ! nat (9 + int (n mod 10)) = char_of (48 + n mod 10)"
    using digits_table(1) [of "n mod 10"] by (simp add: nat_add_distrib)
  show ?case
  proof (cases "n < 10")
    case True
    then show ?thesis using d by (simp add: convert_loop.simps [of "int n"] sdivmod_nat Let_def dec_nat.simps [of n])
  next
    case False
    then show ?thesis
      using d "1.IH" by (simp add: convert_loop.simps [of "int n"] sdivmod_nat Let_def dec_nat.simps [of n])
  qed
qed

lemma convert_nat: "convert (int n) = dec_nat n"
  by (simp add: convert_def convert_loop_nat)

lemma convert_neg:
  assumes "0 < n"
  shows "convert (- int n) = (if n < 10 then [] else ''-'') @ [char_of (48 + n mod 10)]"
proof -
  have "nat (9 + - int (n mod 10)) = 9 - n mod 10" by (simp add: nat_diff_distrib')
  then have "digits ! nat (9 + - int (n mod 10)) = char_of (48 + n mod 10)"
    using digits_table(2) [of "n mod 10"] by simp
  then show ?thesis
    by (auto simp: convert_def convert_loop.simps [of "- int n"] sdivmod_nat Let_def)
qed

lemma length_convert:
  assumes "- (2 ^ 63) \<le> v" "v < 2 ^ 64"
  shows "length (convert v) \<le> 20"
proof (cases "0 \<le> v")
  case True
  then obtain n where n: "v = int n" using nonneg_int_cases by blast
  then have "n < 10 ^ 20" using assms(2) by simp
  then show ?thesis using n length_dec_nat [of 20 n] by (simp add: convert_nat)
next
  case False
  then obtain n where "v = - int n" "0 < n" using neg_int_cases [of v] by auto
  then show ?thesis by (simp add: convert_neg)
qed

lemma length_convertHex: "0 < k \<Longrightarrow> i < 16 ^ k \<Longrightarrow> length (convertHex_loop i) \<le> k"
proof (induction i arbitrary: k rule: convertHex_loop.induct)
  case (1 i)
  show ?case
  proof (cases "i div 16 = 0")
    case True
    then show ?thesis using "1.prems" by (simp add: convertHex_loop.simps [of i])
  next
    case False
    then obtain j where j: "k = Suc j" "0 < j" using "1.prems" by (cases k; cases "k - 1") auto
    then have "i div 16 < 16 ^ j" using "1.prems"(2) by (simp add: div_less_iff_less_mult mult.commute)
    then show ?thesis using "1.IH" [OF False j(2)] False j by (simp add: convertHex_loop.simps [of i])
  qed
qed

section \<open>Properties\<close>

text \<open>C32: Unsigned and non-negative numbers are logged as their decimal digits: \<open>convert\<close> agrees
  with the reference printer, whose text read back is the number. Of a negative number only
  the last digit is logged, with the sign only if there are two or more: the loop runs while
  the value is positive.\<close>

theorem convert_text:
  "convert (int n) = dec_nat n \<and> read_digits 0 (convert (int n)) = n
   \<and> (0 < n \<longrightarrow> convert (- int n) = (if n < 10 then [] else ''-'') @ [char_of (48 + n mod 10)])"
  using convert_neg by (simp add: convert_nat read_digits_dec_nat)

theorem convert_text_witness: "convert (int 120) = ''120'' \<and> convert (- int 123) = ''-3''"
proof -
  have "dec_nat 120 = ''120''" "[char_of (48 + (123 :: nat) mod 10)] = ''3''" by code_simp+
  then show ?thesis using convert_text [of 120] convert_text [of 123] by simp
qed

fun item_text :: "log_item \<Rightarrow> string" where
  "item_text (LBool v) = (if v then ''1'' else ''0'')"
| "item_text (LInt v) = convert v"
| "item_text (LDouble g) = g"
| "item_text (LPointer p) = ''0x'' @ convertHex p"
| "item_text (LCString v) = (case v of Some s \<Rightarrow> s | None \<Rightarrow> ''(null)'')"
| "item_text (LString s) = cstr_at s 0"
| "item_text (LChar c) = [c]"

fun item_fits :: "nat \<Rightarrow> log_item \<Rightarrow> bool" where
  "item_fits room (LInt v) \<longleftrightarrow> 32 < room"
| "item_fits room (LDouble g) \<longleftrightarrow> 32 < room"
| "item_fits room (LPointer p) \<longleftrightarrow> 32 \<le> room"
| "item_fits room i \<longleftrightarrow> length (item_text i) < room"

fun item_range :: "log_item \<Rightarrow> bool" where
  "item_range (LInt v) \<longleftrightarrow> - (2 ^ 63) \<le> v \<and> v < 2 ^ 64"
| "item_range (LDouble g) \<longleftrightarrow> length g < 32"
| "item_range (LPointer p) \<longleftrightarrow> p < 2 ^ 64"
| "item_range _ \<longleftrightarrow> True"

lemma log_put_ok:
  assumes "fb_inv cap b" "item_range i"
  shows "\<exists>b'. log_put b i = Inr b' \<and> fb_inv cap b'
    \<and> fb_text b' = fb_text b @ (if item_fits (avail b) i then item_text i else [])"
proof (cases i)
  case (LInt v)
  have "length (convert v) \<le> 20" using assms(2) LInt length_convert by simp
  then show ?thesis
    using write_text_ok [OF assms(1), of "convert v"] assms(1) LInt
    by (auto simp: formatInteger_def MaxNumericSize_def)
next
  case (LPointer p)
  have "length (convertHex p) \<le> 16" using length_convertHex [of 16 p] assms(2) LPointer by (simp add: convertHex_def)
  then show ?thesis
    using write_text_ok [OF assms(1), of "''0x'' @ convertHex p"] assms(1) LPointer
    by (auto simp: put_pointer_def MaxNumericSize_def)
next
  case (LDouble g)
  then have "put_double b g = (if avail b > 32 then write_text b g else Inr b)"
    using assms(2) by (simp add: put_double_def write_text_def MaxNumericSize_def)
  then show ?thesis using write_text_ok [OF assms(1), of g] assms LDouble by auto
next
  case (LBool v)
  then show ?thesis using fb_append_ok [OF assms(1), of "item_text i"] by simp
next
  case (LCString v)
  then show ?thesis using fb_append_ok [OF assms(1), of "item_text i"] by (cases v) (simp_all add: put_cstring_def)
next
  case (LString v)
  then show ?thesis using fb_append_ok [OF assms(1), of "item_text i"] by (simp add: put_cstring_def)
next
  case (LChar v)
  then show ?thesis using fb_append_ok [OF assms(1), of "item_text i"] by simp
qed

text \<open>C30: Logging is safe and all or nothing: each item put into a well-formed buffer, whatever
  its size, returns, keeps the buffer well formed, never writes outside the block (the zero
  byte behind a number included), and adds exactly the item's text, or nothing at all if the
  room left does not exceed the text (for numbers: the fixed reserve of 32 bytes).\<close>

theorem log_put_safe:
  assumes "fb_inv cap b" "item_range i"
  shows "\<exists>b'. log_put b i = Inr b' \<and> fb_inv cap b'
    \<and> fb_text b' = fb_text b @ (if item_fits (avail b) i then item_text i else [])"
  using assms by (rule log_put_ok)

theorem log_put_safe_witness:
  "\<exists>b'. log_put (FixedBuffer_new 40) (LCString (Some ''abc'')) = Inr b' \<and> fb_text b' = ''abc''"
proof -
  have "fb_inv 40 (FixedBuffer_new 40)" "fb_text (FixedBuffer_new 40) = []" "avail (FixedBuffer_new 40) = 40"
    by (simp_all add: fb_inv_def FixedBuffer_new_def fb_text_def avail_def)
  then show ?thesis using log_put_safe [of 40 "FixedBuffer_new 40" "LCString (Some ''abc'')"] by auto
qed

end
