(* ===== verification/Sync.thy ===== *)
theory Sync
  imports Prelude
begin

text \<open>
  \<^verbatim>\<open>base/MutexLock.h/.cpp\<close>, \<^verbatim>\<open>base/Condition.h\<close>, \<^verbatim>\<open>base/CountDownLatch.h/.cpp\<close> and the two
  handshakes built on a latch, \<open>Thread::start\<close> (\<^verbatim>\<open>base/Thread.cpp\<close>) and \<open>EventLoopThread::startLoop\<close>
  (\<^verbatim>\<open>EventLoopThread.cpp\<close>). Threads are numbers above 0 and interleave; a step is what a thread
  does between two calls of the thread library. A waiting thread may wake up at any time.
\<close>

section \<open>Mutex and condition variable\<close>

text \<open>\<open>owner\<close> is the state of the \<open>pthread_mutex_t\<close>, \<open>holder\<close> the member beside it.\<close>

record MutexLock =
  owner :: "nat option"
  holder :: nat

definition MutexLock_new :: MutexLock where
  "MutexLock_new = \<lparr>owner = None, holder = 0\<rparr>"

definition assignHolder :: "nat \<Rightarrow> MutexLock \<Rightarrow> MutexLock" where
  "assignHolder t m = m\<lparr>holder := t\<rparr>"

definition unassignHolder :: "MutexLock \<Rightarrow> MutexLock" where
  "unassignHolder m = m\<lparr>holder := 0\<rparr>"

text \<open>\<open>lock\<close>, for a thread that finds the mutex free; \<open>None\<close> means that it has to wait.\<close>

definition mutex_lock :: "nat \<Rightarrow> MutexLock \<Rightarrow> MutexLock option" where
  "mutex_lock t m = (if owner m = None then Some (assignHolder t (m\<lparr>owner := Some t\<rparr>)) else None)"

definition mutex_unlock :: "MutexLock \<Rightarrow> MutexLock" where
  "mutex_unlock m = (unassignHolder m)\<lparr>owner := None\<rparr>"

definition isLockedByThisThread :: "nat \<Rightarrow> MutexLock \<Rightarrow> bool" where
  "isLockedByThisThread t m \<longleftrightarrow> t = holder m"

definition MutexLock_destroy :: "bool \<Rightarrow> MutexLock \<Rightarrow> unit res" where
  "MutexLock_destroy nd m = cassert nd (0 = holder m)"

definition assertLocked :: "bool \<Rightarrow> nat \<Rightarrow> MutexLock \<Rightarrow> unit res" where
  "assertLocked nd t m = cassert nd (isLockedByThisThread t m)"

text \<open>\<open>Condition::wait\<close> in its two halves: the thread library frees the mutex, which the caller has to
  own, and takes it again before it returns. Neither half touches \<open>holder\<close>.\<close>

definition cond_block :: "nat \<Rightarrow> MutexLock \<Rightarrow> MutexLock res" where
  "cond_block t m = (if owner m = Some t then Inr (m\<lparr>owner := None\<rparr>) else Inl NotOwner)"

definition cond_return :: "nat \<Rightarrow> MutexLock \<Rightarrow> MutexLock option" where
  "cond_return t m = (if owner m = None then Some (m\<lparr>owner := Some t\<rparr>) else None)"

text \<open>\<open>waitForSeconds\<close>: the deadline it computes from the clock (seconds and nanoseconds), and its
  return, with whether the time was up.\<close>

definition wait_deadline :: "int \<times> int \<Rightarrow> int \<Rightarrow> int \<times> int" where
  "wait_deadline now seconds = (fst now + seconds, snd now)"

definition timed_return :: "nat \<Rightarrow> int \<times> int \<Rightarrow> int \<times> int \<Rightarrow> bool \<Rightarrow> MutexLock \<Rightarrow> (bool \<times> MutexLock) option" where
  "timed_return t abstime now woken m =
     (case cond_return t m of None \<Rightarrow> None
      | Some m' \<Rightarrow> if woken then Some (False, m')
                   else if fst abstime < fst now \<or> fst abstime = fst now \<and> snd abstime \<le> snd now then Some (True, m') else None)"

text \<open>It says that the time was up only if the clock has advanced by the seconds asked for.\<close>

lemma timed_return_after:
  assumes "timed_return t (wait_deadline start seconds) now woken m = Some (True, m')"
    and "0 \<le> snd now" "snd start < 1000000000"
  shows "fst start * 1000000000 + snd start + seconds * 1000000000 \<le> fst now * 1000000000 + snd now"
  using assms by (auto simp: timed_return_def wait_deadline_def split: option.splits if_splits)

text \<open>After a wait during which another thread used the mutex, the waiter owns the mutex and
  \<open>isLockedByThisThread\<close> denies it.\<close>

lemma wait_loses_holder:
  assumes "owner m = Some t" "t \<noteq> 0"
  shows "\<exists>m1 m2 m3. cond_block t m = Inr m1 \<and> mutex_lock u m1 = Some m2
    \<and> cond_return t (mutex_unlock m2) = Some m3 \<and> owner m3 = Some t \<and> \<not> isLockedByThisThread t m3
    \<and> assertLocked False t m3 = Inl AssertionFailed"
  using assms
  by (simp add: assertLocked_def cond_block_def mutex_lock_def cond_return_def mutex_unlock_def isLockedByThisThread_def
      assignHolder_def unassignHolder_def)

section \<open>The latch\<close>

text \<open>Where a thread is in a call of the latch.\<close>

datatype latch_pc = Outside | WaitLock | WaitTest | WaitBlocked | WaitWoken | WaitDone
  | DownLock | DownCount | DownUnlock | DownDone

record CountDownLatch =
  latch_count :: int
  latch_mutex :: MutexLock
  latch_pc :: "nat \<Rightarrow> latch_pc"
  latch_downs :: nat

definition CountDownLatch_new :: "int \<Rightarrow> CountDownLatch" where
  "CountDownLatch_new num = \<lparr>latch_count = num, latch_mutex = MutexLock_new, latch_pc = (\<lambda>t. Outside), latch_downs = 0\<rparr>"

definition latch_goto :: "nat \<Rightarrow> latch_pc \<Rightarrow> CountDownLatch \<Rightarrow> CountDownLatch" where
  "latch_goto t p l = l\<lparr>latch_pc := (latch_pc l)(t := p)\<rparr>"

text \<open>\<open>while(count > 0) cond.wait();\<close> and the end of the guard's scope.\<close>

definition latch_test :: "nat \<Rightarrow> CountDownLatch \<Rightarrow> CountDownLatch res" where
  "latch_test t l =
     (if latch_count l > 0
      then rbind (cond_block t (latch_mutex l)) (\<lambda>m. Inr (latch_goto t WaitBlocked (l\<lparr>latch_mutex := m\<rparr>)))
      else Inr (latch_goto t WaitDone (l\<lparr>latch_mutex := mutex_unlock (latch_mutex l)\<rparr>)))"

text \<open>\<open>--count\<close> and, at zero, \<open>notifyAll\<close>.\<close>

definition latch_down :: "nat \<Rightarrow> CountDownLatch \<Rightarrow> CountDownLatch" where
  "latch_down t l =
     (let l1 = l\<lparr>latch_count := latch_count l - 1, latch_downs := latch_downs l + 1\<rparr>;
          l2 = (if latch_count l1 = 0
                then l1\<lparr>latch_pc := (\<lambda>u. if latch_pc l1 u = WaitBlocked then WaitWoken else latch_pc l1 u)\<rparr> else l1)
      in latch_goto t DownUnlock l2)"

inductive latch_step :: "CountDownLatch \<Rightarrow> CountDownLatch \<Rightarrow> bool" where
  call_wait: "latch_pc l t = Outside \<Longrightarrow> latch_step l (latch_goto t WaitLock l)"
| call_down: "latch_pc l t = Outside \<Longrightarrow> latch_step l (latch_goto t DownLock l)"
| wait_lock: "latch_pc l t = WaitLock \<Longrightarrow> mutex_lock t (latch_mutex l) = Some m \<Longrightarrow>
    latch_step l (latch_goto t WaitTest (l\<lparr>latch_mutex := m\<rparr>))"
| down_lock: "latch_pc l t = DownLock \<Longrightarrow> mutex_lock t (latch_mutex l) = Some m \<Longrightarrow>
    latch_step l (latch_goto t DownCount (l\<lparr>latch_mutex := m\<rparr>))"
| test: "latch_pc l t = WaitTest \<Longrightarrow> latch_test t l = Inr l' \<Longrightarrow> latch_step l l'"
| spurious: "latch_pc l t = WaitBlocked \<Longrightarrow> latch_step l (latch_goto t WaitWoken l)"
| woken: "latch_pc l t = WaitWoken \<Longrightarrow> cond_return t (latch_mutex l) = Some m \<Longrightarrow>
    latch_step l (latch_goto t WaitTest (l\<lparr>latch_mutex := m\<rparr>))"
| down: "latch_pc l t = DownCount \<Longrightarrow> latch_step l (latch_down t l)"
| down_unlock: "latch_pc l t = DownUnlock \<Longrightarrow>
    latch_step l (latch_goto t DownDone (l\<lparr>latch_mutex := mutex_unlock (latch_mutex l)\<rparr>))"

inductive latch_reachable :: "int \<Rightarrow> CountDownLatch \<Rightarrow> bool" for num where
  latch_init: "latch_reachable num (CountDownLatch_new num)"
| latch_next: "latch_reachable num l \<Longrightarrow> latch_step l l' \<Longrightarrow> latch_reachable num l'"

definition inside :: "latch_pc \<Rightarrow> bool" where
  "inside p \<longleftrightarrow> p \<in> {WaitTest, DownCount, DownUnlock}"

definition latch_inv :: "int \<Rightarrow> CountDownLatch \<Rightarrow> bool" where
  "latch_inv num l \<longleftrightarrow> (\<forall>t. inside (latch_pc l t) \<longleftrightarrow> owner (latch_mutex l) = Some t)
     \<and> latch_count l = num - int (latch_downs l)
     \<and> (\<forall>t. latch_pc l t = WaitBlocked \<longrightarrow> latch_count l > 0)
     \<and> (\<forall>t. latch_pc l t = WaitDone \<longrightarrow> latch_count l \<le> 0)"

lemmas latch_defs = latch_goto_def mutex_lock_def mutex_unlock_def assignHolder_def unassignHolder_def
  cond_return_def cond_block_def

lemma latch_down_inv: "latch_pc l t = DownCount \<Longrightarrow> latch_inv num l \<Longrightarrow> latch_inv num (latch_down t l)"
  unfolding latch_inv_def
  by (auto simp: latch_down_def Let_def latch_goto_def inside_def)

lemma latch_goto_inv:
  assumes "latch_inv num l" "\<And>u. u \<noteq> t \<Longrightarrow> owner m = Some u \<longleftrightarrow> owner (latch_mutex l) = Some u"
    and "inside p \<longleftrightarrow> owner m = Some t" "p = WaitBlocked \<Longrightarrow> latch_count l > 0" "p = WaitDone \<Longrightarrow> latch_count l \<le> 0"
  shows "latch_inv num (latch_goto t p (l\<lparr>latch_mutex := m\<rparr>))"
  using assms by (auto simp: latch_inv_def latch_goto_def)

lemma latch_own: "latch_inv num l \<Longrightarrow> inside (latch_pc l t) \<longleftrightarrow> owner (latch_mutex l) = Some t"
  by (simp add: latch_inv_def)

lemma latch_goto_same: "latch_goto t p l = latch_goto t p (l\<lparr>latch_mutex := latch_mutex l\<rparr>)"
  by simp

lemma latch_step_inv: "latch_step l l' \<Longrightarrow> latch_inv num l \<Longrightarrow> latch_inv num l'"
proof (induction rule: latch_step.induct)
  case (call_wait l t)
  then show ?case
    using latch_own [of num l t] by (subst latch_goto_same, intro latch_goto_inv) (auto simp: inside_def)
next
  case (call_down l t)
  then show ?case
    using latch_own [of num l t] by (subst latch_goto_same, intro latch_goto_inv) (auto simp: inside_def)
next
  case (wait_lock l t m)
  then show ?case by (intro latch_goto_inv) (auto simp: latch_defs inside_def split: if_splits)
next
  case (down_lock l t m)
  then show ?case by (intro latch_goto_inv) (auto simp: latch_defs inside_def split: if_splits)
next
  case (test l t l')
  have own: "owner (latch_mutex l) = Some t" using latch_own [OF test.prems, of t] test.hyps(1) by (simp add: inside_def)
  have b: "latch_inv num (latch_goto t WaitBlocked (l\<lparr>latch_mutex := (latch_mutex l)\<lparr>owner := None\<rparr>\<rparr>))" if "latch_count l > 0"
    by (rule latch_goto_inv [OF test.prems]) (use own that in \<open>auto simp: inside_def\<close>)
  have d: "latch_inv num (latch_goto t WaitDone (l\<lparr>latch_mutex := mutex_unlock (latch_mutex l)\<rparr>))" if "latch_count l \<le> 0"
    by (rule latch_goto_inv [OF test.prems]) (use own that in \<open>auto simp: inside_def mutex_unlock_def\<close>)
  show ?case
    using test.hyps(2) own b d by (cases "latch_count l > 0") (auto simp: latch_test_def cond_block_def)
next
  case (spurious l t)
  then show ?case
    using latch_own [of num l t] by (subst latch_goto_same, intro latch_goto_inv) (auto simp: inside_def)
next
  case (woken l t m)
  then show ?case by (intro latch_goto_inv) (auto simp: latch_defs inside_def split: if_splits)
next
  case (down l t)
  then show ?case by (rule latch_down_inv)
next
  case (down_unlock l t)
  have "owner (latch_mutex l) = Some t" using latch_own [OF down_unlock.prems, of t] down_unlock.hyps by (simp add: inside_def)
  then show ?case using down_unlock.prems by (intro latch_goto_inv) (auto simp: inside_def mutex_unlock_def)
qed

lemma latch_reachable_inv: "latch_reachable num l \<Longrightarrow> latch_inv num l"
proof (induction rule: latch_reachable.induct)
  case latch_init
  then show ?case by (simp add: latch_inv_def CountDownLatch_new_def MutexLock_new_def inside_def)
next
  case (latch_next l l')
  then show ?case using latch_step_inv by blast
qed

text \<open>No thread is stuck inside a call for good once the count has reached zero: whoever is not
  done can take a step, or waits for a mutex whose owner can.\<close>

lemma latch_progress:
  assumes "latch_inv num l" "latch_count l \<le> 0" "latch_pc l t \<notin> {Outside, WaitDone, DownDone}"
  shows "\<exists>u l'. (u = t \<or> owner (latch_mutex l) = Some u) \<and> latch_step l l' \<and> latch_pc l' u \<noteq> latch_pc l u"
proof (cases "owner (latch_mutex l)")
  case None
  then have p: "latch_pc l t \<in> {WaitLock, WaitWoken, DownLock}"
    using latch_own [OF assms(1), of t] assms by (cases "latch_pc l t") (auto simp: inside_def latch_inv_def)
  have "mutex_lock t (latch_mutex l) = Some (assignHolder t ((latch_mutex l)\<lparr>owner := Some t\<rparr>))"
    "cond_return t (latch_mutex l) = Some ((latch_mutex l)\<lparr>owner := Some t\<rparr>)"
    using None by (simp_all add: mutex_lock_def cond_return_def)
  note st = wait_lock [OF _ this(1)] down_lock [OF _ this(1)] woken [OF _ this(2)]
  have g: "latch_pc (latch_goto t q l1) t = q" for q l1 by (simp add: latch_goto_def)
  consider "latch_pc l t = WaitLock" | "latch_pc l t = DownLock" | "latch_pc l t = WaitWoken" using p by auto
  then show ?thesis
  proof cases
    case 1
    then show ?thesis using st(1) g by (intro exI [of _ t]) fastforce
  next
    case 2
    then show ?thesis using st(2) g by (intro exI [of _ t]) fastforce
  next
    case 3
    then show ?thesis using st(3) g by (intro exI [of _ t]) fastforce
  qed
next
  case (Some u)
  then have u: "latch_pc l u \<in> {WaitTest, DownCount, DownUnlock}" using latch_own [OF assms(1), of u] by (simp add: inside_def)
  have "latch_test u l = Inr (latch_goto u WaitDone (l\<lparr>latch_mutex := mutex_unlock (latch_mutex l)\<rparr>))"
    using assms(2) by (simp add: latch_test_def)
  then have "\<exists>l'. latch_step l l' \<and> latch_pc l' u \<noteq> latch_pc l u"
    using u test [of l u] down [of l u] down_unlock [of l u] by (fastforce simp: latch_goto_def latch_down_def Let_def)
  then show ?thesis using Some by blast
qed

section \<open>Publishing through a latch\<close>

text \<open>Steps of a latch, seen from outside.\<close>

definition downing :: "latch_pc \<Rightarrow> bool" where
  "downing p \<longleftrightarrow> p \<in> {DownLock, DownCount, DownUnlock, DownDone}"

lemma latch_step_downs:
  "latch_step l l' \<Longrightarrow> latch_downs l' = latch_downs l \<or> (\<exists>t. latch_pc l t = DownCount)"
  by (cases rule: latch_step.cases) (auto simp: latch_goto_def latch_test_def split: if_splits)

lemma latch_step_downing:
  "latch_step l l' \<Longrightarrow> downing (latch_pc l' t) \<Longrightarrow> downing (latch_pc l t) \<or> (latch_pc l t = Outside \<and> latch_pc l' t = DownLock)"
  by (cases rule: latch_step.cases)
     (auto simp: latch_goto_def latch_test_def latch_down_def downing_def Let_def split: if_splits)

text \<open>
  A thread that starts another one waits on a latch of count one, which the other counts down
  after it has published something. The contract: the system moves the latch by its own steps,
  what is published stays so, and a thread enters \<open>countDown\<close> only after publishing.
\<close>

locale handshake =
  fixes latch_of :: "'s \<Rightarrow> CountDownLatch" and published :: "'s \<Rightarrow> bool"
    and init :: "'s \<Rightarrow> bool" and step :: "'s \<Rightarrow> 's \<Rightarrow> bool"
  assumes init_latch: "init s \<Longrightarrow> latch_of s = CountDownLatch_new 1"
    and step_latch: "step s s' \<Longrightarrow> latch_of s' = latch_of s \<or> latch_step (latch_of s) (latch_of s')"
    and stays: "step s s' \<Longrightarrow> published s \<Longrightarrow> published s'"
    and enters: "step s s' \<Longrightarrow> latch_pc (latch_of s) t = Outside \<Longrightarrow> latch_pc (latch_of s') t = DownLock \<Longrightarrow> published s"
begin

inductive reach :: "'s \<Rightarrow> bool" where
  reach_init: "init s \<Longrightarrow> reach s"
| reach_step: "reach s \<Longrightarrow> step s s' \<Longrightarrow> reach s'"

definition hs_inv :: "'s \<Rightarrow> bool" where
  "hs_inv s \<longleftrightarrow> latch_inv 1 (latch_of s) \<and> (latch_downs (latch_of s) \<noteq> 0 \<longrightarrow> published s)
     \<and> (\<forall>t. downing (latch_pc (latch_of s) t) \<longrightarrow> published s)"

lemma hs_inv_step:
  assumes "hs_inv s" "step s s'"
  shows "hs_inv s'"
proof (cases "latch_of s' = latch_of s")
  case True
  then show ?thesis using assms stays by (auto simp: hs_inv_def)
next
  case False
  then have st: "latch_step (latch_of s) (latch_of s')" using step_latch [OF assms(2)] by blast
  have "downing (latch_pc (latch_of s') t) \<Longrightarrow> published s" for t
    using latch_step_downing [OF st, of t] enters [OF assms(2), of t] assms(1) by (auto simp: hs_inv_def)
  moreover have "latch_downs (latch_of s') \<noteq> 0 \<Longrightarrow> published s"
    using latch_step_downs [OF st] assms(1) by (auto simp: hs_inv_def downing_def)
  ultimately show ?thesis
    using latch_step_inv [OF st] stays [OF assms(2)] assms(1) unfolding hs_inv_def by blast
qed

lemma reach_inv: "reach s \<Longrightarrow> hs_inv s"
proof (induction rule: reach.induct)
  case (reach_init s)
  have "latch_inv 1 (CountDownLatch_new 1)" by (rule latch_reachable_inv [OF latch_init])
  then show ?case using init_latch [OF reach_init] by (simp add: hs_inv_def CountDownLatch_new_def downing_def)
next
  case (reach_step s s')
  then show ?case using hs_inv_step by blast
qed

lemma waiter_sees:
  assumes "reach s" "latch_pc (latch_of s) t = WaitDone"
  shows "published s"
proof -
  have inv: "hs_inv s" by (rule reach_inv [OF assms(1)])
  then have "latch_count (latch_of s) \<le> 0" "latch_count (latch_of s) = 1 - int (latch_downs (latch_of s))"
    using assms(2) by (auto simp: hs_inv_def latch_inv_def)
  then show ?thesis using inv by (auto simp: hs_inv_def)
qed

lemma blocked_before_publishing:
  assumes "reach s" "latch_pc (latch_of s) t = WaitBlocked"
  shows "latch_downs (latch_of s) = 0"
  using reach_inv [OF assms(1)] assms(2) by (fastforce simp: hs_inv_def latch_inv_def)

end

section \<open>Properties\<close>

text \<open>C15: The latch does what its name says, under any interleaving of any number of threads: the
  mutex keeps the calls apart; \<open>wait\<close> has returned to somebody only if \<open>countDown\<close> was called at
  least \<open>num\<close> times; and once it was, no thread is blocked on the condition variable, and
  while some thread is inside a call, it or the owner of the mutex can take a step (no lost
  wake-up, no deadlock).\<close>

theorem latch_releases:
  assumes "latch_reachable num l"
  shows "(latch_pc l t = WaitDone \<longrightarrow> num \<le> int (latch_downs l))
    \<and> (num \<le> int (latch_downs l) \<longrightarrow> latch_pc l t \<noteq> WaitBlocked
        \<and> (latch_pc l t \<notin> {Outside, WaitDone, DownDone} \<longrightarrow>
            (\<exists>u l'. (u = t \<or> owner (latch_mutex l) = Some u) \<and> latch_step l l' \<and> latch_pc l' u \<noteq> latch_pc l u)))
    \<and> (inside (latch_pc l t) \<longrightarrow> inside (latch_pc l u) \<longrightarrow> t = u)"
proof -
  have inv: "latch_inv num l" by (rule latch_reachable_inv [OF assms])
  have cnt: "latch_count l = num - int (latch_downs l)" using inv by (simp add: latch_inv_def)
  have 1: "latch_pc l t = WaitDone \<longrightarrow> num \<le> int (latch_downs l)"
    "num \<le> int (latch_downs l) \<longrightarrow> latch_pc l t \<noteq> WaitBlocked"
    using inv cnt by (fastforce simp: latch_inv_def)+
  have 2: "inside (latch_pc l t) \<longrightarrow> inside (latch_pc l u) \<longrightarrow> t = u"
    using latch_own [OF inv] by simp
  show ?thesis using 1 2 latch_progress [OF inv, of t] cnt by simp
qed

text \<open>A latch of count one that a thread waits for and another one counts down.\<close>

definition demo_latch :: CountDownLatch where
  "demo_latch = latch_down 2 (latch_goto 2 DownCount ((latch_goto 2 DownLock (CountDownLatch_new 1))\<lparr>latch_mutex := \<lparr>owner = Some 2, holder = 2\<rparr>\<rparr>))"

lemma demo_latch_reachable: "latch_reachable 1 demo_latch"
proof -
  let ?l1 = "latch_goto 2 DownLock (CountDownLatch_new 1)"
  have 1: "latch_reachable 1 ?l1"
    by (rule latch_next [OF latch_init call_down]) (simp add: CountDownLatch_new_def)
  let ?l2 = "latch_goto 2 DownCount (?l1\<lparr>latch_mutex := \<lparr>owner = Some 2, holder = 2\<rparr>\<rparr>)"
  have 2: "latch_reachable 1 ?l2"
    by (rule latch_next [OF 1 down_lock])
       (simp_all add: latch_defs CountDownLatch_new_def MutexLock_new_def)
  show ?thesis unfolding demo_latch_def by (rule latch_next [OF 2 down]) (simp add: latch_goto_def)
qed

theorem latch_releases_witness:
  "latch_downs demo_latch = 1 \<and> latch_pc demo_latch 3 \<noteq> WaitBlocked
    \<and> (\<exists>u l'. (u = 2 \<or> owner (latch_mutex demo_latch) = Some u) \<and> latch_step demo_latch l' \<and> latch_pc l' u \<noteq> latch_pc demo_latch u)"
proof -
  have d: "latch_downs demo_latch = 1" "latch_pc demo_latch 2 = DownUnlock"
    by (simp_all add: demo_latch_def latch_down_def latch_goto_def CountDownLatch_new_def)
  show ?thesis
    using latch_releases [OF demo_latch_reachable, of 3 3] latch_releases [OF demo_latch_reachable, of 2 2] d by simp
qed

end
