(* ===== verification/Thread.thy ===== *)
theory Thread
  imports Sync Strings
begin

text \<open>
  \<^verbatim>\<open>base/Thread.h/.cpp\<close> and \<^verbatim>\<open>EventLoopThread.h/.cpp\<close>: a thread object, the data of the running
  thread, and the thread that runs an event loop. The answers of \<open>pthread_create\<close> and \<open>gettid\<close>
  are arguments. Parent and child are threads 1 and 2 of a latch.
\<close>

section \<open>The current thread\<close>

record CurrentThread =
  t_cachedTid :: int
  t_tidString :: string
  t_threadName :: string

definition CurrentThread_new :: CurrentThread where
  "CurrentThread_new = \<lparr>t_cachedTid = 0, t_tidString = [], t_threadName = ''unknow''\<rparr>"

text \<open>\<open>"%5d"\<close> into an array of 32 characters.\<close>

definition cacheTid :: "int \<Rightarrow> CurrentThread \<Rightarrow> CurrentThread" where
  "cacheTid gettid c =
     (let s = dec_int gettid
      in c\<lparr>t_cachedTid := gettid, t_tidString := take 31 (replicate (5 - length s) (CHR '' '') @ s)\<rparr>)"

definition current_tid :: "int \<Rightarrow> CurrentThread \<Rightarrow> int \<times> CurrentThread" where
  "current_tid gettid c = (let c1 = (if t_cachedTid c = 0 then cacheTid gettid c else c) in (t_cachedTid c1, c1))"

definition setName :: "string \<Rightarrow> CurrentThread \<Rightarrow> CurrentThread" where
  "setName n c = c\<lparr>t_threadName := n\<rparr>"

lemma current_tid_stable:
  assumes "g \<noteq> 0"
  shows "fst (current_tid g' (snd (current_tid g c))) = fst (current_tid g c)"
  using assms by (simp add: current_tid_def cacheTid_def Let_def)

section \<open>Threads\<close>

record Thread =
  th_started :: bool
  th_joined :: bool
  th_tid :: int
  th_name :: string

text \<open>The constructor takes the number of threads created so far and returns the new one.\<close>

definition setDefaultNmae :: "int \<Rightarrow> Thread \<Rightarrow> Thread \<times> int" where
  "setDefaultNmae numCreated th =
     (let num = numCreated + 1
      in (if th_name th = [] then th\<lparr>th_name := ''thread_'' @ dec_int num\<rparr> else th, num))"

definition Thread_new :: "int \<Rightarrow> string \<Rightarrow> Thread \<times> int" where
  "Thread_new numCreated name =
     setDefaultNmae numCreated \<lparr>th_started = False, th_joined = False, th_tid = 0, th_name = name\<rparr>"

definition Thread_join :: "bool \<Rightarrow> Thread \<Rightarrow> Thread res" where
  "Thread_join nd th =
     rbind (cassert nd (th_started th)) (\<lambda>_. rbind (cassert nd (\<not> th_joined th)) (\<lambda>_. Inr (th\<lparr>th_joined := True\<rparr>)))"

text \<open>\<open>start\<close> up to the wait on the latch, and behind it. A failing \<open>pthread_create\<close> ends the
  process.\<close>

definition start_create :: "bool \<Rightarrow> bool \<Rightarrow> Thread \<Rightarrow> Thread res" where
  "start_create nd created th =
     rbind (cassert nd (\<not> th_started th)) (\<lambda>_.
       if created then Inr (th\<lparr>th_started := True\<rparr>) else Inl ProcessAbort)"

definition start_return :: "bool \<Rightarrow> Thread \<Rightarrow> unit res" where
  "start_return nd th = cassert nd (th_tid th > 0)"

text \<open>The destructor detaches a thread that was started and not joined.\<close>

definition Thread_detaches :: "Thread \<Rightarrow> bool" where
  "Thread_detaches th \<longleftrightarrow> th_started th \<and> \<not> th_joined th"

text \<open>\<open>ThreadData::runInThread\<close> behind the handshake: the name while the function runs, and what its
  end means. An exception of the standard library aborts; any other is thrown on and ends the
  process too.\<close>

datatype func_end = Returned | StdException | OtherException

definition run_func :: "string \<Rightarrow> func_end \<Rightarrow> CurrentThread \<Rightarrow> CurrentThread res" where
  "run_func name r c =
     (let c1 = setName (if name = [] then ''unknow'' else name) c
      in case r of Returned \<Rightarrow> Inr (setName ''finished'' c1) | StdException \<Rightarrow> Inl ProcessAbort | OtherException \<Rightarrow> Inl ProcessAbort)"

datatype child_pc = Unborn | Born | Published

record thread_sys =
  ts_thread :: Thread
  ts_latch :: CountDownLatch
  ts_child :: child_pc

definition thread_init :: "thread_sys \<Rightarrow> bool" where
  "thread_init s \<longleftrightarrow> \<not> th_started (ts_thread s) \<and> th_tid (ts_thread s) = 0
     \<and> ts_latch s = CountDownLatch_new 1 \<and> ts_child s = Unborn"

text \<open>A step inside the latch: of a thread that has called it already.\<close>

definition latch_inner :: "CountDownLatch \<Rightarrow> CountDownLatch \<Rightarrow> bool" where
  "latch_inner l l' \<longleftrightarrow> latch_step l l' \<and> (\<forall>t. latch_pc l t = Outside \<longrightarrow> latch_pc l' t = Outside)"

inductive thread_step :: "bool \<Rightarrow> thread_sys \<Rightarrow> thread_sys \<Rightarrow> bool" for nd where
  create: "latch_pc (ts_latch s) 1 = Outside \<Longrightarrow> ts_child s = Unborn \<Longrightarrow> start_create nd True (ts_thread s) = Inr th \<Longrightarrow>
    thread_step nd s (s\<lparr>ts_thread := th, ts_child := Born, ts_latch := latch_goto 1 WaitLock (ts_latch s)\<rparr>)"
| set_tid: "ts_child s = Born \<Longrightarrow> gettid > 0 \<Longrightarrow> current_tid gettid CurrentThread_new = (v, c) \<Longrightarrow>
    thread_step nd s (s\<lparr>ts_thread := (ts_thread s)\<lparr>th_tid := v\<rparr>, ts_child := Published\<rparr>)"
| count_down: "ts_child s = Published \<Longrightarrow> latch_pc (ts_latch s) 2 = Outside \<Longrightarrow>
    thread_step nd s (s\<lparr>ts_latch := latch_goto 2 DownLock (ts_latch s)\<rparr>)"
| in_latch: "latch_inner (ts_latch s) l \<Longrightarrow> thread_step nd s (s\<lparr>ts_latch := l\<rparr>)"

inductive thread_reachable :: "bool \<Rightarrow> thread_sys \<Rightarrow> bool" for nd where
  thread_new: "thread_init s \<Longrightarrow> thread_reachable nd s"
| thread_next: "thread_reachable nd s \<Longrightarrow> thread_step nd s s' \<Longrightarrow> thread_reachable nd s'"

interpretation thread_start: handshake ts_latch "\<lambda>s. ts_child s = Published" thread_init "thread_step nd" for nd
proof (unfold_locales, goal_cases)
  case (1 s)
  then show ?case by (simp add: thread_init_def)
next
  case (2 s s')
  then show ?case by (auto elim!: thread_step.cases simp: latch_inner_def intro: latch_step.intros)
next
  case (3 s s')
  then show ?case by (auto elim!: thread_step.cases)
next
  case (4 s s' t)
  then show ?case by (auto elim!: thread_step.cases simp: latch_inner_def latch_goto_def split: if_splits)
qed

lemma thread_reachable_reach: "thread_reachable nd s \<Longrightarrow> thread_start.reach nd s"
  by (induction rule: thread_reachable.induct) (auto intro: thread_start.reach.intros)

lemma published_tid: "thread_reachable nd s \<Longrightarrow> ts_child s = Published \<Longrightarrow> th_tid (ts_thread s) > 0"
proof (induction rule: thread_reachable.induct)
  case (thread_next s s')
  from thread_next.hyps(2) thread_next.prems thread_next.IH show ?case
    by cases (auto simp: current_tid_def cacheTid_def CurrentThread_new_def Let_def)
qed (simp add: thread_init_def)

section \<open>The thread of an event loop\<close>

text \<open>\<open>elt_loop\<close> is \<open>loop_\<close>; \<open>elt_inits\<close> records the calls of the init callback; \<open>elt_ended\<close> that
  \<open>loop()\<close> has returned in the child.\<close>

record EventLoopThread =
  elt_exiting :: bool
  elt_loop :: "nat option"
  elt_thread :: Thread
  elt_callback :: bool
  elt_inits :: "nat list"
  elt_latch :: CountDownLatch
  elt_child :: child_pc
  elt_ended :: bool

definition EventLoopThread_new :: "int \<Rightarrow> bool \<Rightarrow> string \<Rightarrow> EventLoopThread" where
  "EventLoopThread_new numCreated cb name =
     \<lparr>elt_exiting = False, elt_loop = None, elt_thread = fst (Thread_new numCreated name), elt_callback = cb, elt_inits = [],
      elt_latch = CountDownLatch_new 1, elt_child = Unborn, elt_ended = False\<rparr>"

text \<open>\<open>startLoop\<close> up to its wait, after \<open>Thread::start\<close> has returned; \<open>threadFunc\<close> up to \<open>countDown\<close>, with
  the loop \<open>lp\<close> made in the child; its end.\<close>

definition startLoop_begin :: "bool \<Rightarrow> EventLoopThread \<Rightarrow> EventLoopThread res" where
  "startLoop_begin nd e =
     rbind (cassert nd (\<not> th_started (elt_thread e))) (\<lambda>_.
     rbind (start_create nd True (elt_thread e)) (\<lambda>th.
       Inr (e\<lparr>elt_thread := th, elt_child := Born, elt_latch := latch_goto 1 WaitLock (elt_latch e)\<rparr>)))"

definition elt_threadFunc :: "nat \<Rightarrow> EventLoopThread \<Rightarrow> EventLoopThread" where
  "elt_threadFunc lp e =
     (let e1 = (if elt_callback e then e\<lparr>elt_inits := elt_inits e @ [lp]\<rparr> else e)
      in e1\<lparr>elt_loop := Some lp, elt_child := Published\<rparr>)"

definition elt_end :: "EventLoopThread \<Rightarrow> EventLoopThread" where
  "elt_end e = e\<lparr>elt_loop := None, elt_ended := True\<rparr>"

text \<open>The destructor: does it stop the loop and join the thread?\<close>

definition EventLoopThread_destroy :: "bool \<Rightarrow> EventLoopThread \<Rightarrow> (EventLoopThread \<times> bool) res" where
  "EventLoopThread_destroy nd e =
     (let e1 = e\<lparr>elt_exiting := True\<rparr>
      in case elt_loop e1 of None \<Rightarrow> Inr (e1, False)
       | Some lp \<Rightarrow> rbind (Thread_join nd (elt_thread e1)) (\<lambda>th. Inr (e1\<lparr>elt_thread := th\<rparr>, True)))"

inductive elt_step :: "bool \<Rightarrow> EventLoopThread \<Rightarrow> EventLoopThread \<Rightarrow> bool" for nd where
  startLoop: "latch_pc (elt_latch e) 1 = Outside \<Longrightarrow> elt_child e = Unborn \<Longrightarrow> startLoop_begin nd e = Inr e' \<Longrightarrow> elt_step nd e e'"
| func: "elt_child e = Born \<Longrightarrow> elt_step nd e (elt_threadFunc lp e)"
| elt_down: "elt_child e = Published \<Longrightarrow> latch_pc (elt_latch e) 2 = Outside \<Longrightarrow>
    elt_step nd e (e\<lparr>elt_latch := latch_goto 2 DownLock (elt_latch e)\<rparr>)"
| elt_inner: "latch_inner (elt_latch e) l \<Longrightarrow> elt_step nd e (e\<lparr>elt_latch := l\<rparr>)"
| ends: "latch_pc (elt_latch e) 2 = DownDone \<Longrightarrow> elt_step nd e (elt_end e)"

inductive elt_reachable :: "bool \<Rightarrow> EventLoopThread \<Rightarrow> bool" for nd where
  elt_new: "elt_reachable nd (EventLoopThread_new num cb name)"
| elt_next: "elt_reachable nd e \<Longrightarrow> elt_step nd e e' \<Longrightarrow> elt_reachable nd e'"

definition elt_init :: "EventLoopThread \<Rightarrow> bool" where
  "elt_init e \<longleftrightarrow> elt_latch e = CountDownLatch_new 1"

lemmas elt_defs = startLoop_begin_def elt_threadFunc_def elt_end_def start_create_def

interpretation loop_start: handshake elt_latch "\<lambda>e. elt_child e = Published" elt_init "elt_step nd" for nd
proof (unfold_locales, goal_cases)
  case (1 e)
  then show ?case by (simp add: elt_init_def)
next
  case (2 e e')
  then show ?case
  proof cases
    case startLoop
    then show ?thesis using latch_step.call_wait [of "elt_latch e" 1] by (auto simp: elt_defs)
  qed (auto simp: elt_defs latch_inner_def Let_def intro: latch_step.intros)
next
  case (3 e e')
  then show ?case by (auto elim!: elt_step.cases simp: elt_defs Let_def)
next
  case (4 e e' t)
  then show ?case by (auto elim!: elt_step.cases simp: elt_defs latch_inner_def latch_goto_def Let_def split: if_splits)
qed

lemma elt_reachable_reach: "elt_reachable nd e \<Longrightarrow> loop_start.reach nd e"
proof (induction rule: elt_reachable.induct)
  case (elt_new num cb name)
  show ?case by (rule loop_start.reach_init) (simp add: elt_init_def EventLoopThread_new_def)
next
  case (elt_next e e')
  then show ?case by (blast intro: loop_start.reach_step)
qed

lemma published_loop:
  "elt_reachable nd e \<Longrightarrow> elt_child e = Published \<Longrightarrow>
     (elt_ended e \<or> elt_loop e \<noteq> None) \<and> (elt_callback e \<longrightarrow> length (elt_inits e) = 1)"
proof (induction rule: elt_reachable.induct)
  case (elt_next e e')
  have "elt_child e \<noteq> Published \<Longrightarrow> elt_inits e = []"
    using elt_next.hyps(1)
    by (induction rule: elt_reachable.induct) (auto elim!: elt_step.cases simp: elt_defs Let_def EventLoopThread_new_def split: if_splits)
  with elt_next.hyps(2) elt_next.prems elt_next.IH show ?case
    by cases (auto simp: elt_defs Let_def split: if_splits)
qed (simp add: EventLoopThread_new_def)

section \<open>Properties\<close>

text \<open>C16: Starting a thread hands its number over: whatever the scheduler does, when \<open>Thread::start\<close>
  comes back from the latch the child has stored a positive thread number, so the assert behind
  the latch holds; and \<open>EventLoopThread::startLoop\<close> comes back from its latch only after the
  child has run the init callback, once, and set the loop pointer (which is null again only if
  the loop has already ended).\<close>

theorem thread_start_hands_over:
  assumes "thread_reachable nd s" "latch_pc (ts_latch s) 1 = WaitDone"
    and "elt_reachable nd e" "latch_pc (elt_latch e) 1 = WaitDone"
  shows "th_tid (ts_thread s) > 0 \<and> start_return nd' (ts_thread s) = Inr ()
    \<and> (elt_ended e \<or> elt_loop e \<noteq> None) \<and> (elt_callback e \<longrightarrow> length (elt_inits e) = 1)"
proof -
  have "ts_child s = Published" by (rule thread_start.waiter_sees [OF thread_reachable_reach [OF assms(1)] assms(2)])
  then have 1: "th_tid (ts_thread s) > 0" by (rule published_tid [OF assms(1)])
  have "elt_child e = Published" by (rule loop_start.waiter_sees [OF elt_reachable_reach [OF assms(3)] assms(4)])
  then show ?thesis using 1 published_loop [OF assms(3)] by (simp add: start_return_def)
qed

text \<open>A run to the end: the child counts down before the parent looks.\<close>

lemma latch_inner_run:
  "\<exists>l. latch_inner\<^sup>*\<^sup>* (latch_goto 2 DownLock (latch_goto 1 WaitLock (CountDownLatch_new 1))) l \<and> latch_pc l 1 = WaitDone"
proof -
  let ?l0 = "latch_goto 2 DownLock (latch_goto 1 WaitLock (CountDownLatch_new 1))"
  let ?m2 = "\<lparr>owner = Some 2, holder = 2\<rparr>" and ?m1 = "\<lparr>owner = Some 1, holder = 1\<rparr>" and ?m0 = "\<lparr>owner = None, holder = 0\<rparr>"
  let ?l1 = "latch_goto 2 DownCount (?l0\<lparr>latch_mutex := ?m2\<rparr>)"
  let ?l2 = "latch_down 2 ?l1"
  let ?l3 = "latch_goto 2 DownDone (?l2\<lparr>latch_mutex := mutex_unlock (latch_mutex ?l2)\<rparr>)"
  let ?l4 = "latch_goto 1 WaitTest (?l3\<lparr>latch_mutex := ?m1\<rparr>)"
  let ?l5 = "latch_goto 1 WaitDone (?l4\<lparr>latch_mutex := mutex_unlock (latch_mutex ?l4)\<rparr>)"
  have e: "latch_step ?l4 ?l5"
    by (rule latch_step.test [where t = 1]) (simp_all add: latch_test_def latch_defs latch_down_def CountDownLatch_new_def)
  have s: "latch_step ?l0 ?l1" "latch_step ?l1 ?l2" "latch_step ?l2 ?l3" "latch_step ?l3 ?l4"
    by (rule latch_step.down_lock latch_step.down latch_step.down_unlock latch_step.wait_lock;
        simp add: latch_defs latch_down_def latch_test_def CountDownLatch_new_def MutexLock_new_def)+
  have "latch_inner ?l0 ?l1" "latch_inner ?l1 ?l2" "latch_inner ?l2 ?l3" "latch_inner ?l3 ?l4" "latch_inner ?l4 ?l5"
    using s e by (simp_all add: latch_inner_def) (simp_all add: latch_goto_def latch_down_def CountDownLatch_new_def)
  then have "latch_inner\<^sup>*\<^sup>* ?l0 ?l5" by (meson converse_rtranclp_into_rtranclp rtranclp.rtrancl_refl)
  then show ?thesis by (intro exI [of _ ?l5]) (simp add: latch_goto_def)
qed

lemma thread_in_latch:
  "latch_inner\<^sup>*\<^sup>* l l' \<Longrightarrow> thread_reachable nd (s\<lparr>ts_latch := l\<rparr>) \<Longrightarrow> thread_reachable nd (s\<lparr>ts_latch := l'\<rparr>)"
proof (induction rule: rtranclp_induct)
  case (step l1 l2)
  then show ?case using thread_next [OF _ in_latch [of "s\<lparr>ts_latch := l1\<rparr>" l2]] by simp
qed simp

lemma elt_in_latch:
  "latch_inner\<^sup>*\<^sup>* l l' \<Longrightarrow> elt_reachable nd (e\<lparr>elt_latch := l\<rparr>) \<Longrightarrow> elt_reachable nd (e\<lparr>elt_latch := l'\<rparr>)"
proof (induction rule: rtranclp_induct)
  case (step l1 l2)
  then show ?case using elt_next [OF _ elt_inner [of "e\<lparr>elt_latch := l1\<rparr>" l2]] by simp
qed simp

lemma demo_thread: "\<exists>s. thread_reachable False s \<and> latch_pc (ts_latch s) 1 = WaitDone"
proof -
  let ?t = "fst (Thread_new 0 [])"
  let ?s0 = "\<lparr>ts_thread = ?t, ts_latch = CountDownLatch_new 1, ts_child = Unborn\<rparr>"
  let ?l1 = "latch_goto 1 WaitLock (CountDownLatch_new 1)"
  let ?s1 = "\<lparr>ts_thread = ?t\<lparr>th_started := True\<rparr>, ts_latch = ?l1, ts_child = Born\<rparr>"
  let ?s2 = "\<lparr>ts_thread = ?t\<lparr>th_started := True, th_tid := 42\<rparr>, ts_latch = ?l1, ts_child = Published\<rparr>"
  have f: "\<not> th_started ?t" "th_tid ?t = 0" by (simp_all add: Thread_new_def setDefaultNmae_def Let_def)
  have "thread_reachable False ?s0" by (rule thread_new) (simp add: thread_init_def f)
  moreover have "thread_step False ?s0 ?s1"
    using create [of ?s0 False "?t\<lparr>th_started := True\<rparr>"] f by (simp add: CountDownLatch_new_def start_create_def)
  moreover have "thread_step False ?s1 ?s2"
    using set_tid [of ?s1 42 42 "cacheTid 42 CurrentThread_new"] by (simp add: current_tid_def CurrentThread_new_def cacheTid_def Let_def)
  moreover have "thread_step False ?s2 (?s2\<lparr>ts_latch := latch_goto 2 DownLock ?l1\<rparr>)"
    using count_down [of ?s2] by (simp add: latch_goto_def CountDownLatch_new_def)
  ultimately have "thread_reachable False (?s2\<lparr>ts_latch := latch_goto 2 DownLock ?l1\<rparr>)" by (meson thread_next)
  then show ?thesis using latch_inner_run thread_in_latch [where s = ?s2] by fastforce
qed

lemma demo_loop_thread: "\<exists>e. elt_reachable False e \<and> latch_pc (elt_latch e) 1 = WaitDone \<and> elt_callback e"
proof -
  let ?e0 = "EventLoopThread_new 0 True []"
  let ?l1 = "latch_goto 1 WaitLock (CountDownLatch_new 1)"
  let ?e1 = "?e0\<lparr>elt_thread := (elt_thread ?e0)\<lparr>th_started := True\<rparr>, elt_child := Born, elt_latch := ?l1\<rparr>"
  let ?e2 = "elt_threadFunc 7 ?e1"
  have "elt_step False ?e0 ?e1"
    by (rule startLoop) (simp_all add: startLoop_begin_def start_create_def EventLoopThread_new_def Thread_new_def
        setDefaultNmae_def CountDownLatch_new_def Let_def)
  moreover have "elt_step False ?e1 ?e2" by (rule func) simp
  moreover have "elt_step False ?e2 (?e2\<lparr>elt_latch := latch_goto 2 DownLock (elt_latch ?e2)\<rparr>)"
    by (rule elt_down) (simp_all add: elt_threadFunc_def latch_goto_def CountDownLatch_new_def Let_def)
  ultimately have "elt_reachable False (?e2\<lparr>elt_latch := latch_goto 2 DownLock (elt_latch ?e2)\<rparr>)"
    by (meson elt_new elt_next)
  moreover have "elt_latch ?e2 = ?l1" "elt_callback ?e2" by (simp_all add: elt_threadFunc_def EventLoopThread_new_def Let_def)
  ultimately show ?thesis using latch_inner_run elt_in_latch [where e = ?e2] by fastforce
qed

theorem thread_start_hands_over_witness:
  "\<exists>s e. thread_reachable False s \<and> latch_pc (ts_latch s) 1 = WaitDone \<and> start_return False (ts_thread s) = Inr ()
     \<and> elt_reachable False e \<and> latch_pc (elt_latch e) 1 = WaitDone \<and> length (elt_inits e) = 1"
proof -
  obtain s where s: "thread_reachable False s" "latch_pc (ts_latch s) 1 = WaitDone" using demo_thread by blast
  obtain e where e: "elt_reachable False e" "latch_pc (elt_latch e) 1 = WaitDone" "elt_callback e" using demo_loop_thread by blast
  show ?thesis using thread_start_hands_over [OF s e(1,2), of False] s e by blast
qed

end
