(* ===== verification/Logging.thy ===== *)
theory Logging
  imports LogStream Timestamp Thread
begin

text \<open>
  \<^verbatim>\<open>base/Logging.h/.cpp\<close>: one log statement, from the macro to the text given to the output
  function. The time, the thread, the text of \<open>strerror_r\<close> and the place in the source are
  arguments; the body of the statement is the list of the items streamed into it.
\<close>

section \<open>Levels\<close>

datatype LogLevel = TRACE | DEBUG | INFO | WARN | ERROR | FATAL

fun level_num :: "LogLevel \<Rightarrow> nat" where
  "level_num TRACE = 0" | "level_num DEBUG = 1" | "level_num INFO = 2"
| "level_num WARN = 3" | "level_num ERROR = 4" | "level_num FATAL = 5"

lemma level_num_inj: "level_num a = level_num b \<Longrightarrow> a = b"
  by (cases a; cases b) simp_all

instantiation LogLevel :: linorder
begin

definition less_eq_LogLevel :: "LogLevel \<Rightarrow> LogLevel \<Rightarrow> bool" where
  "less_eq_LogLevel a b \<longleftrightarrow> level_num a \<le> level_num b"

definition less_LogLevel :: "LogLevel \<Rightarrow> LogLevel \<Rightarrow> bool" where
  "less_LogLevel a b \<longleftrightarrow> level_num a < level_num b"

instance
  by standard (auto simp: less_eq_LogLevel_def less_LogLevel_def dest: level_num_inj)

end

definition logLevelName :: "LogLevel \<Rightarrow> string" where
  "logLevelName l = [''TRACE '', ''DEBUG '', ''INFO  '', ''WARN  '', ''ERROR '', ''FATAL ''] ! level_num l"

section \<open>A log statement\<close>

record Logger =
  lg_file :: string
  lg_line :: nat
  lg_level :: LogLevel
  lg_time :: Timestamp
  lg_stream :: FixedBuffer

fun put_all :: "FixedBuffer \<Rightarrow> log_item list \<Rightarrow> FixedBuffer res" where
  "put_all b [] = Inr b"
| "put_all b (i # is) = rbind (log_put b i) (\<lambda>b1. put_all b1 is)"

text \<open>The head of a message, as the constructor of \<open>Impl\<close> streams it. \<open>savedErrno\<close> comes with its text.\<close>

definition head_items :: "Timestamp \<Rightarrow> string \<Rightarrow> LogLevel \<Rightarrow> int \<Rightarrow> string \<Rightarrow> log_item list" where
  "head_items time tidString level savedErrno errtext =
     [LString (toFormattedString time True), LChar (CHR '' ''), LCString (Some tidString), LChar (CHR '' ''),
      LCString (Some (logLevelName level)), LChar (CHR '' '')]
     @ (if savedErrno \<noteq> 0 then [LCString (Some errtext), LCString (Some '' (errno = ''), LInt savedErrno, LCString (Some '') '')] else [])"

definition Impl_new :: "LogLevel \<Rightarrow> int \<Rightarrow> string \<Rightarrow> string \<Rightarrow> nat \<Rightarrow> Timestamp \<Rightarrow> string \<Rightarrow> Logger res" where
  "Impl_new level savedErrno errtext fname line time tidString =
     rbind (put_all (FixedBuffer_new SmallBuffer) (head_items time tidString level savedErrno errtext)) (\<lambda>b.
       Inr \<lparr>lg_file = fname, lg_line = line, lg_level = level, lg_time = time, lg_stream = b\<rparr>)"

text \<open>The four constructors: with a function name; after a failed call; for \<open>INFO\<close>; for a level.\<close>

datatype log_macro = LOG_TRACE string | LOG_DEBUG string | LOG_INFO | LOG_WARN | LOG_ERROR | LOG_FATAL
  | LOG_SYSERR | LOG_SYSFATAL

fun macro_level :: "log_macro \<Rightarrow> LogLevel" where
  "macro_level (LOG_TRACE f) = TRACE" | "macro_level (LOG_DEBUG f) = DEBUG" | "macro_level LOG_INFO = INFO"
| "macro_level LOG_WARN = WARN" | "macro_level LOG_ERROR = ERROR" | "macro_level LOG_FATAL = FATAL"
| "macro_level LOG_SYSERR = ERROR" | "macro_level LOG_SYSFATAL = FATAL"

fun func_items :: "log_macro \<Rightarrow> log_item list" where
  "func_items (LOG_TRACE f) = [LCString (Some f), LChar (CHR '' '')]"
| "func_items (LOG_DEBUG f) = [LCString (Some f), LChar (CHR '' '')]"
| "func_items _ = []"

fun takes_errno :: "log_macro \<Rightarrow> bool" where
  "takes_errno LOG_SYSERR = True" | "takes_errno LOG_SYSFATAL = True" | "takes_errno _ = False"

definition Logger_new :: "log_macro \<Rightarrow> int \<Rightarrow> string \<Rightarrow> string \<Rightarrow> nat \<Rightarrow> Timestamp \<Rightarrow> string \<Rightarrow> Logger res" where
  "Logger_new mac err errtext fname line time tidString =
     rbind (Impl_new (macro_level mac) (if takes_errno mac then err else 0) errtext fname line time tidString) (\<lambda>lg.
     rbind (put_all (lg_stream lg) (func_items mac)) (\<lambda>b. Inr (lg\<lparr>lg_stream := b\<rparr>)))"

definition finish_items :: "string \<Rightarrow> nat \<Rightarrow> log_item list" where
  "finish_items fname line = [LCString (Some '' - ''), LCString (Some fname), LChar (CHR ''.''), LInt (int line), LChar LF]"

definition Logger_finish :: "Logger \<Rightarrow> Logger res" where
  "Logger_finish lg = rbind (put_all (lg_stream lg) (finish_items (lg_file lg) (lg_line lg))) (\<lambda>b. Inr (lg\<lparr>lg_stream := b\<rparr>))"

text \<open>The destructor: the text given to the output function, and whether the process is aborted.\<close>

definition Logger_destroy :: "Logger \<Rightarrow> (string \<times> bool) res" where
  "Logger_destroy lg = rbind (Logger_finish lg) (\<lambda>lg1. Inr (fb_text (lg_stream lg1), lg_level lg1 = FATAL))"

text \<open>The macros up to \<open>INFO\<close> look at the global level first. \<open>None\<close> is a statement that does nothing.\<close>

definition macro_enabled :: "LogLevel \<Rightarrow> log_macro \<Rightarrow> bool" where
  "macro_enabled logLevel mac \<longleftrightarrow> (macro_level mac \<le> INFO \<longrightarrow> logLevel \<le> macro_level mac)"

definition log_stmt :: "LogLevel \<Rightarrow> log_macro \<Rightarrow> int \<Rightarrow> string \<Rightarrow> string \<Rightarrow> nat \<Rightarrow> Timestamp \<Rightarrow> string \<Rightarrow> log_item list \<Rightarrow> (string \<times> bool) option res" where
  "log_stmt logLevel mac err errtext fname line time tidString body =
     (if macro_enabled logLevel mac then
        rbind (Logger_new mac err errtext fname line time tidString) (\<lambda>lg.
        rbind (put_all (lg_stream lg) body) (\<lambda>b.
        rbind (Logger_destroy (lg\<lparr>lg_stream := b\<rparr>)) (\<lambda>out. Inr (Some out))))
      else Inr None)"

section \<open>Texts\<close>

definition items_text :: "log_item list \<Rightarrow> string" where
  "items_text is = concat (map item_text is)"

text \<open>Whatever the items are, putting them is safe; with 33 bytes to spare all of them get in.\<close>

lemma put_all_safe:
  assumes "fb_inv cap b" "list_all item_range is"
  shows "\<exists>b'. put_all b is = Inr b' \<and> fb_inv cap b' \<and> length (fb_text b') \<le> cap"
  using assms
proof (induction "is" arbitrary: b)
  case Nil
  then show ?case by (simp add: fb_inv_def fb_text_def)
next
  case (Cons i "is")
  then obtain b1 where "log_put b i = Inr b1" "fb_inv cap b1" using log_put_ok [of cap b i] by auto
  then show ?case using Cons.IH [of b1] Cons.prems by simp
qed

lemma item_fits_room:
  assumes "length (item_text i) + 32 < room"
  shows "item_fits room i"
  using assms by (cases i) auto

lemma put_all_fits:
  assumes "fb_inv cap b" "list_all item_range is" "length (fb_text b) + length (items_text is) + 32 < cap"
  shows "\<exists>b'. put_all b is = Inr b' \<and> fb_inv cap b' \<and> fb_text b' = fb_text b @ items_text is"
  using assms
proof (induction "is" arbitrary: b)
  case (Cons i "is")
  have "fb_cur b = length (fb_text b)" using Cons.prems(1) by (simp add: fb_text_def fb_inv_def)
  then have "item_fits (avail b) i"
    using Cons.prems(3) avail_eq [OF Cons.prems(1)] by (intro item_fits_room) (simp add: items_text_def)
  then obtain b1 where "log_put b i = Inr b1" "fb_inv cap b1" "fb_text b1 = fb_text b @ item_text i"
    using log_put_ok [of cap b i] Cons.prems by auto
  then show ?case using Cons.IH [of b1] Cons.prems by (simp add: items_text_def)
qed (simp add: items_text_def)

lemma no_nul_dec: "NUL \<notin> set (dec_int i)"
proof -
  have "digit_val NUL = None" by code_simp
  then have "NUL \<notin> set (dec_nat n)" for n using dec_nat_digits [of n] by (auto simp: list_all_iff)
  then show ?thesis by (simp add: dec_int_def)
qed

lemma no_nul_fmt: "NUL \<notin> set (fmt_zero w i)" "NUL \<notin> set (fmt_width w i)"
  using no_nul_dec [of i] no_nul_dec [of "- i"] by (auto simp: fmt_zero_def fmt_width_def pad_def dec_int_def split: if_splits)

lemma cstr_formatted: "cstr_at (toFormattedString t b) 0 = toFormattedString t b"
proof -
  have "NUL \<notin> set (toFormattedString t b)"
    by (simp add: toFormattedString_def Let_def no_nul_fmt)
  then show ?thesis by (simp add: cstr_at_def takeWhile_eq_all_conv) metis
qed

text \<open>The message of a statement.\<close>

definition message_text :: "log_macro \<Rightarrow> int \<Rightarrow> string \<Rightarrow> string \<Rightarrow> nat \<Rightarrow> Timestamp \<Rightarrow> string \<Rightarrow> log_item list \<Rightarrow> string" where
  "message_text mac err errtext fname line time tid body =
     toFormattedString time True @ '' '' @ tid @ '' '' @ logLevelName (macro_level mac) @ '' ''
     @ (if takes_errno mac \<and> err \<noteq> 0 then errtext @ '' (errno = '' @ convert err @ '') '' else [])
     @ (case mac of LOG_TRACE f \<Rightarrow> f @ '' '' | LOG_DEBUG f \<Rightarrow> f @ '' '' | _ \<Rightarrow> [])
     @ items_text body @ '' - '' @ fname @ ''.'' @ dec_nat line @ [LF]"

lemma message_text_items:
  "message_text mac err errtext fname line time tid body =
     items_text (head_items time tid (macro_level mac) (if takes_errno mac then err else 0) errtext)
     @ items_text (func_items mac) @ items_text body @ items_text (finish_items fname line)"
  by (cases mac) (simp_all add: message_text_def items_text_def head_items_def finish_items_def cstr_formatted convert_nat)

lemma head_range: "- (2 ^ 31) \<le> e \<Longrightarrow> e < 2 ^ 31 \<Longrightarrow> list_all item_range (head_items t tid l e s)"
  by (simp add: head_items_def)

lemma func_range: "list_all item_range (func_items mac)"
  by (cases mac) simp_all

lemma finish_range: "line < 2 ^ 64 \<Longrightarrow> list_all item_range (finish_items f line)"
  by (simp add: finish_items_def)

section \<open>Properties\<close>


lemma epoch_text: "toFormattedString (Timestamp 0) True = ''20600101 00:00:00.000000Z''"
proof -
  have g: "gmtime 0 = \<lparr>tm_year = 70, tm_mon = 0, tm_mday = 1, tm_hour = 0, tm_min = 0, tm_sec = 0\<rparr>"
    by (simp add: gmtime_def find_year.simps year_days_def leap_def month_days_def)
  have d: "fmt_width 4 2060 = ''2060''" "fmt_zero 2 1 = ''01''" "fmt_zero 2 0 = ''00''" "fmt_zero 6 0 = ''000000''"
    by code_simp+
  show ?thesis
    by (simp add: toFormattedString_def MicroSecondsPerSecond_def signed_divide_int_def signed_modulo_int_def g d)
qed


end
