(* ===== verification/Main_Server.thy ===== *)
theory Main_Server
  imports HttpServer TcpServer InetAddress Logging
begin

text \<open>
  \<^verbatim>\<open>Main.cpp\<close>: the options of the program and the server they set up, composed from the address,
  the TCP server with its threads and the HTTP server's wheels. \<open>getopt\<close> delivers the options
  one by one, each with its argument.
\<close>

section \<open>Options\<close>

record main_config =
  mc_logLevel :: LogLevel
  mc_threadNum :: int
  mc_port :: int
  mc_idleSeconds :: int
  mc_basename :: "string option"

definition main_defaults :: main_config where
  "main_defaults = \<lparr>mc_logLevel = INFO, mc_threadNum = 8, mc_port = 8080, mc_idleSeconds = 8, mc_basename = None\<rparr>"

text \<open>One turn of the loop; \<open>None\<close> is the help text and \<open>exit(0)\<close>. \<open>getopt\<close> answers a question mark for
  an option it does not know.\<close>

definition main_option :: "main_config \<Rightarrow> char \<times> string \<Rightarrow> main_config option" where
  "main_option c oa = (case oa of (opt, optarg) \<Rightarrow>
     if opt = CHR ''0'' then Some (c\<lparr>mc_logLevel := TRACE\<rparr>)
     else if opt = CHR ''1'' then Some (c\<lparr>mc_logLevel := DEBUG\<rparr>)
     else if opt = CHR ''2'' then Some (c\<lparr>mc_logLevel := INFO\<rparr>)
     else if opt = CHR ''3'' then Some (c\<lparr>mc_logLevel := WARN\<rparr>)
     else if opt = CHR ''4'' then Some (c\<lparr>mc_logLevel := ERROR\<rparr>)
     else if opt = CHR ''5'' then Some (c\<lparr>mc_logLevel := FATAL\<rparr>)
     else if opt = CHR ''h'' then None
     else if opt = CHR ''t'' then Some (c\<lparr>mc_threadNum := atoi optarg\<rparr>)
     else if opt = CHR ''p'' then Some (c\<lparr>mc_port := atoi optarg\<rparr>)
     else if opt = CHR ''s'' then Some (c\<lparr>mc_idleSeconds := atoi optarg\<rparr>)
     else if opt = CHR ''l'' then Some (c\<lparr>mc_basename := Some optarg\<rparr>)
     else Some c)"

fun main_options :: "main_config \<Rightarrow> (char \<times> string) list \<Rightarrow> main_config option" where
  "main_options c [] = Some c"
| "main_options c (o1 # os) = (case main_option c o1 of None \<Rightarrow> None | Some c1 \<Rightarrow> main_options c1 os)"

definition LogBaseName :: string where
  "LogBaseName = ''/home/yjh/HighPerformanceWebServer/HighPerformanceWebServer/WebServer/logfiles/HttpServer''"

definition main_basename :: "main_config \<Rightarrow> string" where
  "main_basename c = (case mc_basename c of None \<Rightarrow> LogBaseName | Some b \<Rightarrow> b)"

section \<open>Setting up\<close>

text \<open>The HTTP server is a TCP server with its own callbacks; the other operations are those of the TCP
  server.\<close>

definition HttpServer_new :: "nat \<Rightarrow> string \<Rightarrow> TcpServer" where
  "HttpServer_new loop hostport =
     (let s = TcpServer_new loop hostport ''HttpServer'';
          s1 = srv_setConnectionCallback OnConnection s;
          s2 = srv_setMessageCallback OnMessage s1
      in srv_setThreadInitCallback ThreadFunc s2)"

definition http_setThreadInitCallback :: "user_callback \<Rightarrow> TcpServer \<Rightarrow> TcpServer" where
  "http_setThreadInitCallback cb s = srv_setThreadInitCallback cb s"

definition http_setThreadNum :: "bool \<Rightarrow> int \<Rightarrow> TcpServer \<Rightarrow> TcpServer res" where
  "http_setThreadNum nd n s = srv_setThreadNum nd n s"

definition http_start :: "bool \<Rightarrow> bool \<Rightarrow> (nat \<Rightarrow> nat) \<Rightarrow> TcpServer \<Rightarrow> TcpServer res" where
  "http_start nd here newLoop s = srv_start nd here newLoop s"

text \<open>\<open>InetAddress addr(port)\<close>: the \<open>int\<close> becomes a 16-bit number.\<close>

definition main_server :: "bool \<Rightarrow> (nat \<Rightarrow> nat) \<Rightarrow> main_config \<Rightarrow> TcpServer res" where
  "main_server nd newLoop c =
     rbind (toIpPort (InetAddress_port (word_of_int (mc_port c)))) (\<lambda>hp.
     rbind (http_setThreadNum nd (mc_threadNum c) (HttpServer_new 0 hp)) (\<lambda>s.
       http_start nd True newLoop s))"

text \<open>The context of the I/O loop numbered \<open>lp\<close>: \<open>threadFunc\<close> ran on it if it is the init callback and was called.\<close>

definition main_loop_context :: "TcpServer \<Rightarrow> main_config \<Rightarrow> nat \<Rightarrow> io_loop res" where
  "main_loop_context s c lp =
     (if lp \<in> set (initCalls (threadPool s)) \<and> srv_threadInitCallback s = Some ThreadFunc
      then threadFunc (mc_idleSeconds c) io_loop_new else Inr io_loop_new)"

definition http_user_callbacks :: "user_callback \<times> user_callback" where
  "http_user_callbacks = (OnConnection, OnMessage)"

lemma main_server_configured:
  "main_server nd newLoop c = rbind (toIpPort (InetAddress_port (word_of_int (mc_port c)))) (\<lambda>hp.
     started_server nd newLoop (mc_threadNum c) (configured 0 hp ''HttpServer'' http_user_callbacks (Some ThreadFunc)))"
  by (simp add: main_server_def started_server_def configured_def HttpServer_new_def http_setThreadNum_def http_start_def http_user_callbacks_def)

lemma started_server_inits:
  assumes "started_server nd newLoop n (configured 0 hp nm cbs (Some cb)) = Inr s"
  shows "initCalls (threadPool s) = map newLoop [1..<nat n + 1] @ (if n = 0 then [0] else [])"
  using assms
  by (auto simp: started_server_def configured_def srv_setThreadNum_def TcpServer_new_def srv_start_def pool_start_def
      srv_setMessageCallback_def srv_setConnectionCallback_def srv_setThreadInitCallback_def
      pool_setThreadNum_def EventLoopThreadPool_new_def Let_def split: if_splits)

lemma toIpPort_port: "toIpPort (InetAddress_port p) = Inr (''0.0.0.0:'' @ dec_nat (unat p))"
  using toIpPort_any [of p] .

text \<open>The text of the address the server listens on.\<close>

definition main_hostport :: "main_config \<Rightarrow> string" where
  "main_hostport c = ''0.0.0.0:'' @ dec_nat (nat (mc_port c mod 65536))"

lemma main_server_started:
  assumes "0 < mc_threadNum c"
  shows "\<exists>s. main_server nd newLoop c = Inr s \<and> srv_inv s 1 [] \<and> srv_name s = ''HttpServer'' \<and> srv_hostport s = main_hostport c
    \<and> threads (threadPool s) = map newLoop [1..<nat (mc_threadNum c) + 1] \<and> initCalls (threadPool s) = threads (threadPool s)
    \<and> srv_callbacks s = http_user_callbacks \<and> srv_threadInitCallback s = Some ThreadFunc"
proof -
  let ?p = "word_of_int (mc_port c) :: 16 word"
  have up: "unat ?p = nat (mc_port c mod 65536)" by (simp add: unsigned_of_int take_bit_eq_mod)
  let ?s0 = "configured 0 (''0.0.0.0:'' @ dec_nat (unat ?p)) ''HttpServer'' http_user_callbacks (Some ThreadFunc)"
  obtain s where s: "started_server nd newLoop (mc_threadNum c) ?s0 = Inr s"
    "srv_inv s 1 []" "srv_name s = ''HttpServer''" "srv_hostport s = ''0.0.0.0:'' @ dec_nat (unat ?p)"
    "threads (threadPool s) = map newLoop [1..<nat (mc_threadNum c) + 1]" "srv_callbacks s = http_user_callbacks"
    "srv_threadInitCallback s = Some ThreadFunc"
    using started_server_inv [OF assms] by blast
  then show ?thesis
    using started_server_inits [OF s(1)] up assms by (auto simp: main_server_configured toIpPort_port main_hostport_def)
qed

lemma main_hostport_length: "length (main_hostport c) \<le> 50"
proof -
  have "mc_port c mod 65536 < 65536" by simp
  then have "nat (mc_port c mod 65536) < 65536" by linarith
  then have "length (dec_nat (nat (mc_port c mod 65536))) \<le> 5" by (simp add: length_dec_nat)
  then show ?thesis by (simp add: main_hostport_def)
qed

lemma main_loop_context_holds:
  assumes "lp \<in> set (initCalls (threadPool s))" "0 < mc_idleSeconds c" "srv_threadInitCallback s = Some ThreadFunc"
  shows "\<exists>l. main_loop_context s c lp = Inr l \<and> ctx_holds {} l \<and> timers_empty l"
  using assms threadFunc_holds [OF assms(2)] by (simp add: main_loop_context_def)

text \<open>A user who installs another init callback replaces the one that makes the contexts.\<close>

lemma replaced_init_dereferences_null:
  assumes "rbind (http_setThreadNum nd n (http_setThreadInitCallback (UserCallback k) (HttpServer_new 0 hp))) (http_start nd True newLoop) = Inr s"
    and "connected (hc_conn hc)"
  shows "rbind (main_loop_context s c lp) (\<lambda>l. onConnection True e rq rs l hc) = Inl NullDereference"
proof -
  have "srv_threadInitCallback s = Some (UserCallback k)"
    using assms(1)
    by (auto simp: http_setThreadNum_def http_setThreadInitCallback_def HttpServer_new_def http_start_def srv_setThreadNum_def
        srv_setThreadInitCallback_def srv_start_def TcpServer_new_def srv_setConnectionCallback_def srv_setMessageCallback_def Let_def)
  then show ?thesis using assms(2) by (simp add: main_loop_context_def io_loop_new_def onConnection_def touch_def)
qed

section \<open>Properties\<close>

text \<open>What the options set up: with a positive number of threads and of idle seconds the program
  starts a server, in either build, that listens on all addresses at the port taken modulo
  65536, has that many I/O loops in a row and no connection, and in each of these loops the
  first connection is taken over without a fault.\<close>

theorem main_sets_up:
  assumes "main_options main_defaults os = Some c" "0 < mc_threadNum c" "0 < mc_idleSeconds c"
    and "tc_state (hc_conn hc) = Connected"
  shows "\<exists>s. main_server nd newLoop c = Inr s \<and> srv_hostport s = main_hostport c
    \<and> threads (threadPool s) = map newLoop [1..<nat (mc_threadNum c) + 1] \<and> connections s = Mapping.empty
    \<and> (\<forall>lp \<in> set (threads (threadPool s)). \<exists>l l' hc'. main_loop_context s c lp = Inr l
          \<and> onConnection nd e rq rs l hc = Inr (l', hc') \<and> live_entries l' = {e})"
proof -
  obtain s where s: "main_server nd newLoop c = Inr s" "srv_inv s 1 []" "srv_hostport s = main_hostport c"
    "threads (threadPool s) = map newLoop [1..<nat (mc_threadNum c) + 1]" "initCalls (threadPool s) = threads (threadPool s)"
    "srv_threadInitCallback s = Some ThreadFunc"
    using main_server_started [OF assms(2)] by blast
  have "\<exists>l l' hc'. main_loop_context s c lp = Inr l \<and> onConnection nd e rq rs l hc = Inr (l', hc') \<and> live_entries l' = {e}"
    if lp: "lp \<in> set (threads (threadPool s))" for lp
  proof -
    obtain l where l: "main_loop_context s c lp = Inr l" "ctx_holds {} l" "timers_empty l"
      using main_loop_context_holds [OF _ assms(3) s(6)] lp s(5) by metis
    obtain l' where l': "touch nd e l = Inr l'" "ctx_holds {e} l'" "timers_empty l'" using touch_holds [OF l(2,3)] by blast
    have "live_entries l' = {e}" using l'(2,3) by (auto simp: live_entries_def ctx_holds_def timers_empty_def)
    then show ?thesis using l(1) l'(1) assms(4) by (simp add: onConnection_def connected_def)
  qed
  moreover have "connections s = Mapping.empty" using s(2) by (simp add: srv_inv_def mapping_empty_lookup)
  ultimately show ?thesis using s by auto
qed

definition demo_options :: "(char \<times> string) list" where
  "demo_options = [(CHR ''p'', ''65616''), (CHR ''t'', ''2''), (CHR ''3'', []), (CHR ''p'', ''65617'')]"

theorem main_sets_up_witness:
  "\<exists>c hc s. main_options main_defaults demo_options = Some c \<and> mc_logLevel c = WARN \<and> tc_state (hc_conn hc) = Connected
    \<and> main_server True (\<lambda>i. i) c = Inr s \<and> srv_hostport s = ''0.0.0.0:81'' \<and> threads (threadPool s) = [1, 2]
    \<and> (\<forall>lp \<in> {1, 2}. \<exists>l l' hc'. main_loop_context s c lp = Inr l
          \<and> onConnection True 5 (request fresh) (response fresh) l hc = Inr (l', hc') \<and> live_entries l' = {5})"
proof -
  obtain l0 hc where hc: "ready l0 hc 1000 1000" using demo_ready by blast
  then have st: "tc_state (hc_conn hc) = Connected" by (simp add: ready_def)
  let ?c = "\<lparr>mc_logLevel = WARN, mc_threadNum = 2, mc_port = 65617, mc_idleSeconds = 8, mc_basename = None\<rparr>"
  have n: "atoi ''65616'' = 65616" "atoi ''65617'' = 65617" "atoi ''2'' = 2"
    by (simp_all add: atoi_def is_space_def digit_val_def)
  then have o: "main_options main_defaults demo_options = Some ?c"
    by (simp add: demo_options_def main_option_def main_defaults_def)
  have d: "dec_nat 81 = ''81''" by code_simp
  obtain s where "main_server True (\<lambda>i. i) ?c = Inr s" "srv_hostport s = ''0.0.0.0:'' @ dec_nat 81"
    "threads (threadPool s) = [1, 2]"
    "\<forall>lp \<in> {1, 2}. \<exists>l l' hc'. main_loop_context s ?c lp = Inr l
          \<and> onConnection True 5 (request fresh) (response fresh) l hc = Inr (l', hc') \<and> live_entries l' = {5}"
    using main_sets_up [OF o, of hc True "\<lambda>i. i" 5 "request fresh" "response fresh"] st by (auto simp: upt_rec numeral_2_eq_2 main_hostport_def)
  then show ?thesis using o st d by (intro exI [of _ ?c] exI [of _ hc] exI [of _ s]) simp
qed

text \<open>What other option values do, none of which is checked: no idle seconds at all make the first
  connection of a loop insert into an empty wheel; a negative number makes the constructor of
  the wheel throw; a negative number of threads is refused by an assert in the debug build, and
  in the other one starts no thread and initialises no loop, so the first connection
  dereferences a null context.\<close>

theorem main_bad_options:
  assumes "connected (hc_conn hc)"
  shows "rbind (threadFunc 0 io_loop_new) (\<lambda>l. onConnection True e rq rs l hc) = Inl OutOfBounds
    \<and> (n < 0 \<longrightarrow> threadFunc n io_loop_new = Inl LengthError)
    \<and> (mc_threadNum c < 0 \<longrightarrow> main_server False newLoop c = Inl AssertionFailed
        \<and> (\<exists>s. main_server True newLoop c = Inr s \<and> threads (threadPool s) = []
             \<and> rbind (main_loop_context s c lp) (\<lambda>l. onConnection True e rq rs l hc) = Inl NullDereference))"
proof (intro conjI impI)
  show "rbind (threadFunc 0 io_loop_new) (\<lambda>l. onConnection True e rq rs l hc) = Inl OutOfBounds"
    using assms by (simp add: threadFunc_def wheel_new_def wheel_resize_def io_loop_new_def onConnection_def touch_def back_insert_def Let_def)
  show "n < 0 \<Longrightarrow> threadFunc n io_loop_new = Inl LengthError" by (simp add: threadFunc_def wheel_new_def)
next
  assume n: "mc_threadNum c < 0"
  show "main_server False newLoop c = Inl AssertionFailed"
    using n by (simp add: main_server_def toIpPort_port http_setThreadNum_def srv_setThreadNum_def)
  let ?hp = "''0.0.0.0:'' @ dec_nat (unat (word_of_int (mc_port c) :: 16 word))"
  obtain s where s: "started_server True newLoop (mc_threadNum c) (configured 0 ?hp ''HttpServer'' http_user_callbacks (Some ThreadFunc)) = Inr s" "threads (threadPool s) = []"
    using n by (simp add: started_server_def configured_def srv_setThreadNum_def TcpServer_new_def srv_start_def pool_start_def
      srv_setMessageCallback_def srv_setConnectionCallback_def srv_setThreadInitCallback_def pool_setThreadNum_def EventLoopThreadPool_new_def assertInLoopThread_def Let_def)
  have "initCalls (threadPool s) = []" using started_server_inits [OF s(1)] n by simp
  then show "\<exists>s. main_server True newLoop c = Inr s \<and> threads (threadPool s) = []
      \<and> rbind (main_loop_context s c lp) (\<lambda>l. onConnection True e rq rs l hc) = Inl NullDereference"
    using s assms
    by (intro exI [of _ s]) (simp add: main_server_configured toIpPort_port main_loop_context_def io_loop_new_def onConnection_def touch_def)
qed

theorem main_bad_options_witness:
  "\<exists>hc s. threadFunc (- 8) io_loop_new = Inl LengthError
     \<and> main_server True (\<lambda>i. i) (main_defaults\<lparr>mc_threadNum := - 1\<rparr>) = Inr s \<and> threads (threadPool s) = []
     \<and> rbind (main_loop_context s (main_defaults\<lparr>mc_threadNum := - 1\<rparr>) 0) (\<lambda>l. onConnection True 5 (request fresh) (response fresh) l hc) = Inl NullDereference"
proof -
  obtain l0 hc where "ready l0 hc 1000 1000" using demo_ready by blast
  then have "connected (hc_conn hc)" by (simp add: ready_def connected_def)
  from main_bad_options [OF this, of 5 "request fresh" "response fresh" "- 8" "main_defaults\<lparr>mc_threadNum := - 1\<rparr>" "\<lambda>i. i" 0]
  show ?thesis by auto
qed

end
