(* ===== verification/Interleaving.thy ===== *)
theory Interleaving
  imports Prelude
begin

text \<open>
  Several clients that take turns on one shared state, as the connections of an I/O loop do: the
  loop thread calls the handler of one client after the other, in the order in which events
  arrive. A step of a client changes its own state and the shared one; \<open>None\<close> is a handler that
  does not return.
\<close>

section \<open>Runs\<close>

fun interleave :: "('i \<Rightarrow> 'l \<Rightarrow> 'c \<Rightarrow> 'e \<Rightarrow> ('l \<times> 'c) res option) \<Rightarrow> 'l \<Rightarrow> ('i \<Rightarrow> 'c) \<Rightarrow> ('i \<times> 'e) list
    \<Rightarrow> ('l \<times> ('i \<Rightarrow> 'c)) res option" where
  "interleave step l cs [] = Some (Inr (l, cs))"
| "interleave step l cs ((i, ev) # sched) =
     (case step i l (cs i) ev of None \<Rightarrow> None | Some (Inl f) \<Rightarrow> Some (Inl f)
      | Some (Inr (l1, c1)) \<Rightarrow> interleave step l1 (cs(i := c1)) sched)"

text \<open>What one client sees of the schedule.\<close>

definition events_of :: "'i \<Rightarrow> ('i \<times> 'e) list \<Rightarrow> 'e list" where
  "events_of i sched = map snd (filter (\<lambda>x. fst x = i) sched)"

lemma events_of_simps [simp]:
  "events_of i [] = []"
  "events_of i ((j, ev) # sched) = (if j = i then ev # events_of i sched else events_of i sched)"
  by (simp_all add: events_of_def)

section \<open>The contract of a client\<close>

text \<open>
  \<open>rdy l c evs\<close>: with the shared state \<open>l\<close> the client is able to take the events \<open>evs\<close>. An event it is
  ready for does not fault or hang, leaves it ready for the rest, and does not disturb what any
  other client is ready for. \<open>fin c evs c'\<close> relates the client before and after its events; it is
  built up from the end.
\<close>

locale shared_loop =
  fixes step :: "'i \<Rightarrow> 'l \<Rightarrow> 'c \<Rightarrow> 'e \<Rightarrow> ('l \<times> 'c) res option"
    and rdy :: "'l \<Rightarrow> 'c \<Rightarrow> 'e list \<Rightarrow> bool"
    and fin :: "'c \<Rightarrow> 'e list \<Rightarrow> 'c \<Rightarrow> bool"
  assumes step_law: "rdy l c (ev # evs) \<Longrightarrow> \<exists>l' c'. step i l c ev = Some (Inr (l', c')) \<and> rdy l' c' evs
      \<and> (\<forall>d. fin c' evs d \<longrightarrow> fin c (ev # evs) d)"
    and frame_law: "rdy l c (ev # evs) \<Longrightarrow> rdy l d fs \<Longrightarrow> step i l c ev = Some (Inr (l', c')) \<Longrightarrow> rdy l' d fs"
    and stop_law: "rdy l c [] \<Longrightarrow> fin c [] c"
begin

text \<open>Whatever the order in which the clients take turns, the run comes to its end, and every client
  ends as if it had been alone.\<close>

lemma interleaved_run:
  assumes "\<And>i. rdy l (cs i) (events_of i sched)"
  shows "\<exists>l' cs'. interleave step l cs sched = Some (Inr (l', cs'))
    \<and> (\<forall>i. rdy l' (cs' i) [] \<and> fin (cs i) (events_of i sched) (cs' i))"
  using assms
proof (induction sched arbitrary: l cs)
  case Nil
  then show ?case using stop_law by auto
next
  case (Cons x sched)
  obtain i ev where x: "x = (i, ev)" by (cases x)
  have r: "rdy l (cs i) (ev # events_of i sched)" using Cons.prems [of i] x by simp
  from step_law [OF r, of i] obtain l1 c1 where s: "step i l (cs i) ev = Some (Inr (l1, c1))" "rdy l1 c1 (events_of i sched)"
    "\<forall>d. fin c1 (events_of i sched) d \<longrightarrow> fin (cs i) (ev # events_of i sched) d" by blast
  have others: "rdy l1 (cs j) (events_of j sched)" if "j \<noteq> i" for j
    using frame_law [OF r _ s(1)] Cons.prems [of j] x that by auto
  have "rdy l1 ((cs(i := c1)) j) (events_of j sched)" for j
    using others s(2) by (cases "j = i") simp_all
  from Cons.IH [OF this] obtain l' cs' where run: "interleave step l1 (cs(i := c1)) sched = Some (Inr (l', cs'))"
    "\<forall>j. rdy l' (cs' j) [] \<and> fin ((cs(i := c1)) j) (events_of j sched) (cs' j)" by blast
  have "fin (cs j) (events_of j (x # sched)) (cs' j)" for j
    using run(2) [rule_format, of j] s(3) x by (cases "j = i") auto
  then show ?case using run s(1) x by auto
qed

end

end
