(* ===== verification/Session.thy ===== *)
theory Session
  imports Main_Server Interleaving
begin

text \<open>
  A connection from its acceptance to its end: \<open>TcpServer::newConnection\<close> makes it and posts
  \<open>connectEstablished\<close> to its I/O loop, whose last statement calls \<open>HttpServer::onConnection\<close>;
  then the loop hands every event of its descriptor to its channel; when the client has gone, the
  server posts \<open>connectDestroyed\<close>. The connections of a loop take turns in these calls, in any
  order: the contract of clients that share a loop is interpreted on them here.
\<close>

section \<open>The calls\<close>

text \<open>The initial value of \<open>highWaterMark_\<close>, the number of the wheel entry and the indeterminate
  members of the parser's request and response are arguments.\<close>

definition open_session :: "bool \<Rightarrow> srv_conn \<Rightarrow> nat \<Rightarrow> nat \<Rightarrow> HttpRequest \<Rightarrow> HttpResponse \<Rightarrow> io_loop \<Rightarrow> (io_loop \<times> http_conn) res" where
  "open_session nd cn hwm e rq rs l =
     rbind (Buffer_new nd InitialSize) (\<lambda>b.
     rbind (connectEstablished nd True (TcpConnection_new (cn_loop cn) (cn_fd cn) hwm b b)) (\<lambda>c.
       onConnection nd e rq rs l \<lparr>hc_conn = c, hc_context = None\<rparr>))"

text \<open>The connection comes up; a message of the client, given by its requests, with what the kernel
  takes of each reply at once; a writable event in which the kernel takes all that is waiting; what
  timers do to the wheel in between; the client closes its end, so that \<open>readv\<close> gives 0; and the
  end of the connection.\<close>

datatype session_event = Opened | Requests "http_req list" "nat list" | Drained | Others "wheel_op list" | Gone | Destroyed

definition session_step :: "parser_env \<Rightarrow> bool \<Rightarrow> io_loop \<Rightarrow> http_conn \<Rightarrow> session_event \<Rightarrow> (io_loop \<times> http_conn) res option" where
  "session_step env nd l hc ev = (case ev of
     Requests rqs ks \<Rightarrow> http_event env nd EPOLLIN (ReadBytes (concat (map print_req rqs))) (\<lambda>i. Sent (ks ! i)) (Sent 0) l hc
   | Drained \<Rightarrow> http_event env nd EPOLLOUT (ReadBytes []) (\<lambda>i. Sent 0) (Sent (length (contents (outputBuffer (hc_conn hc))))) l hc
   | Others ops \<Rightarrow> Some (rbind (wheel_run nd l ops) (\<lambda>(l1, dead). Inr (l1, hc)))
   | Gone \<Rightarrow> http_event env nd EPOLLIN (ReadBytes []) (\<lambda>i. Sent 0) (Sent 0) l hc
   | Destroyed \<Rightarrow> Some (rbind (connectDestroyed nd True (hc_conn hc)) (\<lambda>c. Inr (l, hc\<lparr>hc_conn := c\<rparr>)))
   | Opened \<Rightarrow> Some (Inl AssertionFailed))"

record session_env =
  se_parser :: parser_env
  se_mark :: "srv_conn \<Rightarrow> nat"
  se_entry :: "srv_conn \<Rightarrow> nat"
  se_request :: HttpRequest
  se_response :: HttpResponse

text \<open>The step of a connection in its loop; \<open>None\<close> is one that has not come up yet.\<close>

definition life_step :: "session_env \<Rightarrow> bool \<Rightarrow> srv_conn \<Rightarrow> io_loop \<Rightarrow> http_conn option \<Rightarrow> session_event
    \<Rightarrow> (io_loop \<times> http_conn option) res option" where
  "life_step se nd cn l oc ev = (case oc of
     None \<Rightarrow> if ev = Opened
             then Some (rbind (open_session nd cn (se_mark se cn) (se_entry se cn) (se_request se) (se_response se) l)
                         (\<lambda>(l1, hc). Inr (l1, Some hc)))
             else Some (Inl NullDereference)
   | Some hc \<Rightarrow> map_option (\<lambda>r. rbind r (\<lambda>(l1, hc1). Inr (l1, Some hc1))) (session_step (se_parser se) nd l hc ev))"

section \<open>What the client should get\<close>

text \<open>The replies to a list of requests, and to all messages of a session behind its opening; \<open>None\<close>
  if a message is not made of well-formed keep-alive requests the server can answer, the kernel
  takes more than it is given, or the events come in an order in which they cannot come.\<close>

fun replies :: "parser_env \<Rightarrow> http_req list \<Rightarrow> string list option" where
  "replies env [] = Some []"
| "replies env (r # rs) = (case reply env r of Inl e \<Rightarrow> None | Inr t \<Rightarrow> map_option ((#) t) (replies env rs))"

fun expected :: "parser_env \<Rightarrow> session_event list \<Rightarrow> string option" where
  "expected env [] = Some []"
| "expected env (Drained # evs) = expected env evs"
| "expected env (Others ops # evs) = expected env evs"
| "expected env (Requests rqs ks # evs) =
     (if rqs \<noteq> [] \<and> list_all req_ok rqs \<and> list_all (\<lambda>r. keep_of (rq_headers r)) rqs then
        case replies env rqs of None \<Rightarrow> None | Some ts \<Rightarrow>
          if list_all2 (\<lambda>t k. k \<le> length t) ts ks then map_option (\<lambda>out. concat ts @ out) (expected env evs) else None
      else None)"
| "expected env (Gone # evs) = (if evs = [] \<or> evs = [Destroyed] then Some [] else None)"
| "expected env (Destroyed # evs) = None"
| "expected env (Opened # evs) = None"

fun received :: "session_event list \<Rightarrow> nat" where
  "received [] = 0"
| "received (Requests rqs ks # evs) = length (concat (map print_req rqs)) + received evs"
| "received (_ # evs) = received evs"

text \<open>The events of one connection: none at all, or its opening and a session that moves at most 2 to
  the power 62 bytes in either direction.\<close>

fun script_ok :: "parser_env \<Rightarrow> session_event list \<Rightarrow> bool" where
  "script_ok env [] = True"
| "script_ok env (Opened # evs) =
     (case expected env evs of None \<Rightarrow> False | Some out \<Rightarrow> received evs \<le> 2 ^ 62 \<and> length out \<le> 2 ^ 62)"
| "script_ok env (_ # evs) = False"

lemma replies_list_all2: "replies env rqs = Some ts \<Longrightarrow> list_all2 (\<lambda>r t. reply env r = Inr t) rqs ts"
  by (induction rqs arbitrary: ts) (auto split: sum.splits)

section \<open>The wheel only grows\<close>

text \<open>What a step of one connection does to the loop: entries are added to the wheel of the context and
  the wheels of the timers stay empty.\<close>

definition grows :: "io_loop \<Rightarrow> io_loop \<Rightarrow> bool" where
  "grows l l' \<longleftrightarrow> (\<forall>E. ctx_holds E l \<and> timers_empty l \<longrightarrow> (\<exists>E'. E \<subseteq> E' \<and> ctx_holds E' l' \<and> timers_empty l'))"

lemma grows_refl [simp]: "grows l l"
  by (auto simp: grows_def)

lemma grows_trans: "grows l l1 \<Longrightarrow> grows l1 l2 \<Longrightarrow> grows l l2"
  unfolding grows_def by (meson order_trans)

lemma touch_grows:
  assumes "touch nd e l = Inr l'"
  shows "grows l l'"
  unfolding grows_def
proof (intro allI impI)
  fix E assume "ctx_holds E l \<and> timers_empty l"
  then show "\<exists>E'. E \<subseteq> E' \<and> ctx_holds E' l' \<and> timers_empty l'"
    using touch_holds [of E l nd e] assms by (intro exI [of _ "insert e E"]) auto
qed

lemma wheel_run_grows:
  assumes "wheel_run nd l ops = Inr (l', d)"
  shows "grows l l'"
  unfolding grows_def
proof (intro allI impI)
  fix E assume "ctx_holds E l \<and> timers_empty l"
  then show "\<exists>E'. E \<subseteq> E' \<and> ctx_holds E' l' \<and> timers_empty l'"
    using wheel_run_holds [of E l nd ops] assms by (intro exI [of _ "E \<union> touched ops"]) auto
qed

lemma open_session_grows: "open_session nd cn hwm e rq rs l = Inr (l', hc) \<Longrightarrow> grows l l'"
  by (auto simp: open_session_def onConnection_def dest: touch_grows split: if_splits)

lemma onMessage_grows: "onMessage env nd here l hc taken = Some (Inr (l', hc')) \<Longrightarrow> grows l l'"
  by (auto simp: onMessage_def Let_def dest: touch_grows split: option.splits sum.splits prod.splits if_splits)

lemma http_callback_grows: "http_callback env nd rd taken wr cb l hc = Some (Inr (l', hc')) \<Longrightarrow> grows l l'"
  by (cases cb) (auto simp: http_callback_def http_handleRead_def Let_def dest: onMessage_grows split: sum.splits if_splits)

lemma http_callbacks_grows: "http_callbacks env nd rd taken wr cbs l hc = Some (Inr (l', hc')) \<Longrightarrow> grows l l'"
proof (induction cbs arbitrary: l hc)
  case (Cons cb cbs)
  then obtain l1 hc1 where "http_callback env nd rd taken wr cb l hc = Some (Inr (l1, hc1))"
    "http_callbacks env nd rd taken wr cbs l1 hc1 = Some (Inr (l', hc'))"
    by (auto split: option.splits sum.splits)
  then show ?case using Cons.IH http_callback_grows grows_trans by blast
qed simp

lemma session_step_grows: "session_step env nd l hc ev = Some (Inr (l', hc')) \<Longrightarrow> grows l l'"
  by (cases ev) (auto simp: session_step_def http_event_def Let_def dest: http_callbacks_grows wheel_run_grows)

lemma life_step_grows: "life_step se nd cn l oc ev = Some (Inr (l', oc')) \<Longrightarrow> grows l l'"
  by (cases oc) (auto simp: life_step_def dest: open_session_grows session_step_grows split: if_splits)

lemma ready_grows: "ready l hc m n \<Longrightarrow> grows l l' \<Longrightarrow> ready l' hc m n"
  unfolding ready_def grows_def by (auto split: option.splits)

section \<open>The events of an open connection\<close>

lemma open_session_ready:
  assumes "ctx_holds E l" "timers_empty l" "m \<le> 2 ^ 62" "n \<le> 2 ^ 62"
  shows "\<exists>l' hc. open_session nd cn hwm e rq rs l = Inr (l', hc) \<and> ready l' hc m n \<and> outgoing hc = []"
proof -
  obtain b where b: "Buffer_new nd InitialSize = Inr b" using Buffer_new_ok [of InitialSize nd] by (auto simp: InitialSize_def)
  obtain c where c: "connectEstablished nd True (TcpConnection_new (cn_loop cn) (cn_fd cn) hwm b b) = Inr c"
    using connectEstablished_returns by blast
  from fresh_connection [OF b c assms(3,4)] onConnection_ready [OF _ _ _ _ _ _ _ assms(1,2), of c n m nd e rq rs]
  show ?thesis using b c by (auto simp: open_session_def)
qed

lemma drained_ready:
  assumes "ready l hc m n"
  shows "\<exists>hc'. session_step env nd l hc Drained = Some (Inr (l, hc')) \<and> ready l hc' m n \<and> outgoing hc' = outgoing hc
    \<and> contents (outputBuffer (hc_conn hc')) = []"
proof -
  let ?hc = "hc\<lparr>hc_conn := (hc_conn hc)\<lparr>channel := setRevrnts EPOLLOUT (channel (hc_conn hc))\<rparr>\<rparr>"
  let ?c = "hc_conn ?hc"
  have r: "ready l ?hc m n" using noted_ready(1) [OF assms] .
  then have c: "conn_inv ?c" "tc_state ?c = Connected" "untouched ?c n" by (simp_all only: ready_def)
  have "length (bufData (outputBuffer ?c)) + n \<le> ptrdiff_max" using c(3) by (simp add: untouched_def)
  from handleWrite_drains [OF c(1,2) this c(3), of nd] obtain c' where
    c': "handleWrite nd True ?c (Sent (length (pending ?c))) = Inr c'" "conn_inv c'" "tc_state c' = Connected"
    "untouched c' n" "wire c' = wire ?c @ pending ?c" "pending c' = []" "inputBuffer c' = inputBuffer ?c"
    by blast
  have "session_step env nd l hc Drained = Some (Inr (l, ?hc\<lparr>hc_conn := c'\<rparr>))"
    using c'(1) noted_ready(3) [OF assms] by (simp add: session_step_def http_event_def http_callback_def Let_def pending_def)
  moreover have "chan_cbs c' = chan_cbs ?c" using handleWrite_cbs [OF c'(1)] .
  ultimately show ?thesis using c' r
    by (intro exI [of _ "?hc\<lparr>hc_conn := c'\<rparr>"]) (simp add: pending_def outgoing_def ready_def)
qed

lemma others_ready:
  assumes "ready l hc m n"
  shows "\<exists>l'. session_step env nd l hc (Others ops) = Some (Inr (l', hc)) \<and> ready l' hc m n"
proof -
  obtain ctx E where E: "hc_context hc = Some ctx" "ctx_holds E l" "weakEntryPtr ctx \<in> E" "timers_empty l"
    using assms by (auto simp: ready_def split: option.splits)
  obtain l' where "wheel_run nd l ops = Inr (l', {})" "ctx_holds (E \<union> touched ops) l'" "timers_empty l'"
    using wheel_run_holds [OF E(2,4)] by blast
  then show ?thesis using assms E by (auto simp: session_step_def ready_def)
qed

lemma requests_ready:
  assumes "ready l hc (length (concat (map print_req rqs)) + m) (length (concat ts) + n)"
    and "rqs \<noteq> []" "list_all req_ok rqs" "list_all (\<lambda>r. keep_of (rq_headers r)) rqs" "replies env rqs = Some ts"
      "list_all2 (\<lambda>t k. k \<le> length t) ts ks"
  shows "\<exists>l' hc'. session_step env nd l hc (Requests rqs ks) = Some (Inr (l', hc')) \<and> ready l' hc' m n
    \<and> outgoing hc' = outgoing hc @ concat ts"
proof -
  let ?hc = "hc\<lparr>hc_conn := (hc_conn hc)\<lparr>channel := setRevrnts EPOLLIN (channel (hc_conn hc))\<rparr>\<rparr>"
  have o: "outgoing ?hc = outgoing hc" by (simp add: outgoing_def)
  from http_handleRead_ready [OF noted_ready(1) [OF assms(1)] assms(3,4,2) replies_list_all2 [OF assms(5)] assms(6),
      of "\<lambda>i. Sent (ks ! i)" nd EPOLLIN] o
  obtain l' hc' where "http_handleRead env nd True l ?hc (ReadBytes (concat (map print_req rqs))) (\<lambda>i. Sent (ks ! i)) = Some (Inr (l', hc'))"
    "ready l' hc' m n" "outgoing hc' = outgoing hc @ concat ts" by auto
  then show ?thesis
    using noted_ready(2) [OF assms(1)] by (simp add: session_step_def http_event_def http_callback_def Let_def)
qed

text \<open>The client has gone: the connection is closed, nothing it had to send is touched, and its channel
  is still registered until it is destroyed.\<close>

lemma gone_closed:
  assumes "ready l hc m n"
  shows "\<exists>hc'. session_step env nd l hc Gone = Some (Inr (l, hc')) \<and> outgoing hc' = outgoing hc
    \<and> tc_state (hc_conn hc') = DisConnected \<and> index (channel (hc_conn hc')) \<in> {kAdded, kDeleted}"
proof -
  let ?hc = "hc\<lparr>hc_conn := (hc_conn hc)\<lparr>channel := setRevrnts EPOLLIN (channel (hc_conn hc))\<rparr>\<rparr>"
  let ?c = "hc_conn ?hc"
  have r: "ready l ?hc m n" using noted_ready(1) [OF assms] .
  have st: "tc_state ?c = Connected" and ib: "binv (inputBuffer ?c)" using r by (simp_all only: ready_def)
  obtain b where b: "readFd nd (inputBuffer ?c) (ReadBytes []) = Inr ((0, None), b)"
    using binvD [OF ib] by (auto simp: readFd_def szadd_exact Let_def)
  let ?c1 = "emit CloseCallback (connectionCallback (watch DisableAll (?c\<lparr>inputBuffer := b, tc_state := DisConnected\<rparr>)))"
  have "handleClose nd True (?c\<lparr>inputBuffer := b\<rparr>) = Inr ?c1"
    using st by (simp add: handleClose_def assertInLoopThread_def cassert_def)
  then have "session_step env nd l hc Gone = Some (Inr (l, ?hc\<lparr>hc_conn := ?c1\<rparr>))"
    using b noted_ready(2) [OF assms]
    by (simp add: session_step_def http_event_def http_callback_def http_handleRead_def assertInLoopThread_def cassert_def Let_def)
  then show ?thesis by (simp add: outgoing_def connectionCallback_def watch_def emit_def Let_def)
qed

lemma destroyed_closed:
  assumes "tc_state (hc_conn hc) = DisConnected" "index (channel (hc_conn hc)) \<in> {kAdded, kDeleted}"
  shows "\<exists>hc'. session_step env nd l hc Destroyed = Some (Inr (l, hc')) \<and> outgoing hc' = outgoing hc
    \<and> tc_state (hc_conn hc') = DisConnected \<and> index (channel (hc_conn hc')) = kNew"
  using assms
  by (auto simp: session_step_def connectDestroyed_def assertInLoopThread_def cassert_def Let_def outgoing_def unwatch_def)

section \<open>The connections of a loop as clients\<close>

text \<open>Ready for its events: not there yet, between two messages, or closed.\<close>

definition life_ready :: "parser_env \<Rightarrow> io_loop \<Rightarrow> http_conn option \<Rightarrow> session_event list \<Rightarrow> bool" where
  "life_ready env l oc evs \<longleftrightarrow> (\<exists>E. ctx_holds E l) \<and> timers_empty l \<and> (case oc of
     None \<Rightarrow> script_ok env evs
   | Some hc \<Rightarrow> (\<exists>out. expected env evs = Some out \<and> ready l hc (received evs) (length out))
       \<or> (tc_state (hc_conn hc) = DisConnected
          \<and> (evs = [] \<or> evs = [Destroyed] \<and> index (channel (hc_conn hc)) \<in> {kAdded, kDeleted})))"

text \<open>What the events make of it: the replies are behind what it had sent before; it is closed exactly
  if the client has gone.\<close>

definition conn_fin :: "parser_env \<Rightarrow> string \<Rightarrow> session_event list \<Rightarrow> http_conn option \<Rightarrow> bool" where
  "conn_fin env base evs oc' \<longleftrightarrow> (\<exists>hc'. oc' = Some hc' \<and> outgoing hc' = base @ the (expected env evs)
     \<and> (evs \<noteq> [] \<and> last evs = Drained \<longrightarrow> contents (outputBuffer (hc_conn hc')) = [])
     \<and> tc_state (hc_conn hc') = (if Gone \<in> set evs then DisConnected else Connected)
     \<and> (Destroyed \<in> set evs \<longrightarrow> index (channel (hc_conn hc')) = kNew))"

definition life_fin :: "parser_env \<Rightarrow> http_conn option \<Rightarrow> session_event list \<Rightarrow> http_conn option \<Rightarrow> bool" where
  "life_fin env oc evs oc' \<longleftrightarrow> (if evs = [] then oc' = oc else case oc of
     None \<Rightarrow> conn_fin env [] (tl evs) oc'
   | Some hc \<Rightarrow> if tc_state (hc_conn hc) = DisConnected
       then (\<exists>hc'. oc' = Some hc' \<and> outgoing hc' = outgoing hc \<and> tc_state (hc_conn hc') = DisConnected
              \<and> (Destroyed \<in> set evs \<longrightarrow> index (channel (hc_conn hc')) = kNew))
       else conn_fin env (outgoing hc) evs oc')"

lemma life_ready_grows: "life_ready env l oc evs \<Longrightarrow> grows l l' \<Longrightarrow> life_ready env l' oc evs"
  using ready_grows unfolding life_ready_def
  by (auto simp: grows_def split: option.splits)

lemma ready_holds: "ready l hc m n \<Longrightarrow> (\<exists>E. ctx_holds E l) \<and> timers_empty l \<and> tc_state (hc_conn hc) = Connected"
  by (auto simp: ready_def split: option.splits)

lemma life_ready_open:
  "ready l hc (received evs) (length out) \<Longrightarrow> expected env evs = Some out \<Longrightarrow> life_ready env l (Some hc) evs"
  using ready_holds by (fastforce simp: life_ready_def)

lemma life_fin_open:
  assumes "life_fin env (Some hc) evs d" "tc_state (hc_conn hc) = Connected" "expected env evs = Some out"
  shows "conn_fin env (outgoing hc) evs d \<and> (evs = [] \<longrightarrow> d = Some hc)"
  using assms by (auto simp: life_fin_def conn_fin_def split: if_splits)

text \<open>The step of an open connection, event by event.\<close>

definition step_serves :: "parser_env \<Rightarrow> bool \<Rightarrow> io_loop \<Rightarrow> http_conn \<Rightarrow> session_event \<Rightarrow> session_event list \<Rightarrow> bool" where
  "step_serves env nd l hc ev evs \<longleftrightarrow> (\<exists>l' hc'. session_step env nd l hc ev = Some (Inr (l', hc')) \<and> life_ready env l' (Some hc') evs
     \<and> (\<forall>d. life_fin env (Some hc') evs d \<longrightarrow> conn_fin env (outgoing hc) (ev # evs) d))"

lemma step_servesI:
  assumes "session_step env nd l hc ev = Some (Inr (l', hc'))" "ready l' hc' (received evs) (length out)" "expected env evs = Some out"
    and "\<And>d. conn_fin env (outgoing hc') evs d \<Longrightarrow> (evs = [] \<Longrightarrow> d = Some hc') \<Longrightarrow> conn_fin env (outgoing hc) (ev # evs) d"
  shows "step_serves env nd l hc ev evs"
  unfolding step_serves_def using assms life_ready_open [OF assms(2,3)] life_fin_open [OF _ _ assms(3)] ready_holds [OF assms(2)] by blast

lemma requests_serve:
  assumes "expected env (Requests rqs ks # evs) = Some out" "ready l hc (received (Requests rqs ks # evs)) (length out)"
  shows "step_serves env nd l hc (Requests rqs ks) evs"
proof -
  obtain ts out1 where ts: "rqs \<noteq> []" "list_all req_ok rqs" "list_all (\<lambda>r. keep_of (rq_headers r)) rqs" "replies env rqs = Some ts"
    "list_all2 (\<lambda>t k. k \<le> length t) ts ks" "expected env evs = Some out1" "out = concat ts @ out1"
    using assms(1) by (auto split: if_splits option.splits)
  have "ready l hc (length (concat (map print_req rqs)) + received evs) (length (concat ts) + length out1)"
    using assms(2) ts(7) by simp
  from requests_ready [OF this ts(1-5), of nd] obtain l' hc' where
    s: "session_step env nd l hc (Requests rqs ks) = Some (Inr (l', hc'))" "ready l' hc' (received evs) (length out1)" "outgoing hc' = outgoing hc @ concat ts"
    by blast
  show ?thesis
    by (rule step_servesI [OF s(1,2) ts(6)]) (use s(3) assms(1) ts(6,7) in \<open>auto simp: conn_fin_def\<close>)
qed

lemma drained_serve:
  assumes "expected env (Drained # evs) = Some out" "ready l hc (received (Drained # evs)) (length out)"
  shows "step_serves env nd l hc Drained evs"
proof -
  obtain hc' where s: "session_step env nd l hc Drained = Some (Inr (l, hc'))" "ready l hc' (received evs) (length out)" "outgoing hc' = outgoing hc"
    "contents (outputBuffer (hc_conn hc')) = []"
    using drained_ready [OF assms(2), of env nd] by auto
  show ?thesis
    by (rule step_servesI [OF s(1,2)], use assms(1) in simp, cases "evs = []") (use s(3,4) in \<open>auto simp: conn_fin_def\<close>)
qed

lemma others_serve:
  assumes "expected env (Others ops # evs) = Some out" "ready l hc (received (Others ops # evs)) (length out)"
  shows "step_serves env nd l hc (Others ops) evs"
proof -
  obtain l' where s: "session_step env nd l hc (Others ops) = Some (Inr (l', hc))" "ready l' hc (received evs) (length out)"
    using others_ready [OF assms(2), of env nd ops] by auto
  show ?thesis
    by (rule step_servesI [OF s]) (use assms(1) in \<open>auto simp: conn_fin_def\<close>)
qed

lemma gone_serve:
  assumes "expected env (Gone # evs) = Some out" "ready l hc (received (Gone # evs)) (length out)"
  shows "step_serves env nd l hc Gone evs"
proof -
  have e: "evs = [] \<or> evs = [Destroyed]" "out = []" using assms(1) by (auto split: if_splits)
  obtain hc' where s: "session_step env nd l hc Gone = Some (Inr (l, hc'))" "outgoing hc' = outgoing hc"
    "tc_state (hc_conn hc') = DisConnected" "index (channel (hc_conn hc')) \<in> {kAdded, kDeleted}"
    using gone_closed [OF assms(2), of env nd] by auto
  have "life_ready env l (Some hc') evs"
    using s(3,4) e ready_holds [OF assms(2)] by (auto simp: life_ready_def)
  moreover have "conn_fin env (outgoing hc) (Gone # evs) d" if "life_fin env (Some hc') evs d" for d
    using that s e by (auto simp: conn_fin_def life_fin_def)
  ultimately show ?thesis using s(1) by (auto simp: step_serves_def)
qed

lemma life_step_open:
  assumes "life_ready env l (Some hc) (ev # evs)" "tc_state (hc_conn hc) = Connected"
  shows "step_serves env nd l hc ev evs"
proof -
  obtain out where out: "expected env (ev # evs) = Some out" "ready l hc (received (ev # evs)) (length out)"
    using assms by (auto simp: life_ready_def)
  then show ?thesis
    by (cases ev) (use requests_serve drained_serve others_serve gone_serve in auto)
qed

lemma life_step_law:
  assumes "life_ready (se_parser se) l oc (ev # evs)"
  shows "\<exists>l' oc'. life_step se nd cn l oc ev = Some (Inr (l', oc')) \<and> life_ready (se_parser se) l' oc' evs
    \<and> (\<forall>d. life_fin (se_parser se) oc' evs d \<longrightarrow> life_fin (se_parser se) oc (ev # evs) d)"
proof (cases oc)
  case None
  then have "script_ok (se_parser se) (ev # evs)" using assms by (simp add: life_ready_def)
  then obtain out where o: "ev = Opened" "expected (se_parser se) evs = Some out" "received evs \<le> 2 ^ 62" "length out \<le> 2 ^ 62"
    by (cases ev) (auto split: option.splits)
  obtain E where "ctx_holds E l" "timers_empty l" using assms by (auto simp: life_ready_def)
  from open_session_ready [OF this o(3,4)] obtain l' hc where
    s: "open_session nd cn (se_mark se cn) (se_entry se cn) (se_request se) (se_response se) l = Inr (l', hc)"
    "ready l' hc (received evs) (length out)" "outgoing hc = []" by blast
  have "life_fin (se_parser se) oc (ev # evs) d" if "life_fin (se_parser se) (Some hc) evs d" for d
    using life_fin_open [OF that _ o(2)] ready_holds [OF s(2)] s(3) None by (simp add: life_fin_def)
  then show ?thesis using None o(1) s life_ready_open [OF s(2) o(2)] by (auto simp: life_step_def)
next
  case (Some hc)
  show ?thesis
  proof (cases "tc_state (hc_conn hc) = Connected")
    case True
    then have "step_serves (se_parser se) nd l hc ev evs" using life_step_open assms Some by blast
    then show ?thesis using Some True by (auto simp: step_serves_def life_step_def life_fin_def)
  next
    case False
    then have ev: "ev = Destroyed" "evs = []" "tc_state (hc_conn hc) = DisConnected" "index (channel (hc_conn hc)) \<in> {kAdded, kDeleted}"
      using assms Some ready_holds by (auto simp: life_ready_def)
    obtain hc' where "session_step (se_parser se) nd l hc ev = Some (Inr (l, hc'))" "outgoing hc' = outgoing hc"
      "tc_state (hc_conn hc') = DisConnected" "index (channel (hc_conn hc')) = kNew"
      using destroyed_closed [OF ev(3,4)] ev(1) by blast
    then show ?thesis using Some ev assms by (auto simp: life_step_def life_fin_def life_ready_def)
  qed
qed

interpretation loop_conns: shared_loop "life_step se nd" "life_ready (se_parser se)" "life_fin (se_parser se)" for se nd
proof (unfold_locales, goal_cases)
  case (1 l oc ev evs cn)
  then show ?case by (rule life_step_law)
next
  case (2 l oc ev evs d fs cn l' oc')
  then show ?case using life_ready_grows life_step_grows by blast
next
  case (3 l oc)
  then show ?case by (simp add: life_fin_def)
qed

text \<open>What a connection has after its events \<open>evs\<close>: the replies expected of it and nothing else have been
  handed to the kernel or wait for it, all of them taken if its last event drained the buffer; it is
  closed exactly if the client has gone, and its channel is gone from the poller once it is destroyed.\<close>

definition served :: "parser_env \<Rightarrow> session_event list \<Rightarrow> http_conn \<Rightarrow> bool" where
  "served env evs hc \<longleftrightarrow> expected env evs = Some (outgoing hc)
     \<and> (evs \<noteq> [] \<and> last evs = Drained \<longrightarrow> wire (hc_conn hc) = outgoing hc)
     \<and> (tc_state (hc_conn hc) = DisConnected \<longleftrightarrow> Gone \<in> set evs)
     \<and> (Destroyed \<in> set evs \<longrightarrow> index (channel (hc_conn hc)) = kNew)"

lemma loop_sessions:
  assumes "ctx_holds {} l0" "timers_empty l0" and ok: "\<forall>cn. script_ok (se_parser se) (events_of cn sched)"
  shows "\<exists>l st. interleave (life_step se nd) l0 (\<lambda>_. None) sched = Some (Inr (l, st))
    \<and> (\<forall>cn evs. events_of cn sched = Opened # evs \<longrightarrow> (\<exists>hc. st cn = Some hc \<and> served (se_parser se) evs hc))"
proof -
  have "life_ready (se_parser se) l0 None (events_of cn sched)" for cn using assms by (auto simp: life_ready_def)
  from loop_conns.interleaved_run [OF this] obtain l st where st: "interleave (life_step se nd) l0 (\<lambda>_. None) sched = Some (Inr (l, st))"
    "\<forall>cn. life_fin (se_parser se) None (events_of cn sched) (st cn)" by blast
  have "\<exists>hc. st cn = Some hc \<and> served (se_parser se) evs hc" if "events_of cn sched = Opened # evs" for cn evs
    using st(2) [rule_format, of cn] ok [rule_format, of cn] that
    by (auto simp: life_fin_def conn_fin_def served_def outgoing_def split: option.splits if_splits)
  then show ?thesis using st(1) by blast
qed

section \<open>The loops of the open connections\<close>

lemma open_conns_all:
  assumes "open_conns name hp loops cbs i cs xs = Some ds" "\<And>c. c \<in> set cs \<Longrightarrow> P c"
    and "\<And>j f. P \<lparr>cn_name = full_name name hp j, cn_loop = loops ! ((j - 1) mod length loops), cn_fd = f,
           cn_connectionCallback = fst cbs, cn_messageCallback = snd cbs\<rparr>"
  shows "\<forall>c \<in> set ds. P c"
  using assms
proof (induction name hp loops cbs i cs xs rule: open_conns.induct)
  case (4 name hp loops cbs i cs c xs)
  then have c: "c \<in> set cs" "open_conns name hp loops cbs i (remove1 c cs) xs = Some ds" by (auto split: if_splits)
  have "P d" if "d \<in> set (remove1 c cs)" for d using 4(3) that set_remove1_subset by fast
  then show ?case using "4.IH" [OF c(1,2) _ 4(4)] by blast
qed (auto split: if_splits)

lemma open_conns_loops:
  assumes "open_conns name hp loops cbs i [] xs = Some ds" "loops \<noteq> []"
  shows "\<forall>c \<in> set ds. cn_loop c \<in> set loops \<and> cn_connectionCallback c = fst cbs \<and> cn_messageCallback c = snd cbs"
  using assms(2) by (intro open_conns_all [OF assms(1)]) simp_all

end
