(* ===== verification/Connector.thy ===== *)
theory Connector
  imports TcpConnection "HOL-Library.Multiset"
begin

text \<open>
  \<^verbatim>\<open>Connector.h/.cpp\<close>: the state machine that opens a connection to a server and tries again
  with growing delays. The functors given to the loop, the timers and the descriptors opened,
  closed and handed over are lists of the model. What \<open>socket\<close>, \<open>connect\<close>, \<open>SO_ERROR\<close> and the
  comparison of the two addresses answer are arguments.
\<close>

section \<open>State\<close>

datatype States = CtrDisconnected | CtrConnecting | CtrConnected

record ctr_chan =
  cc_fd :: int
  cc_watched :: bool

datatype ctr_fn = StartInLoop | StopInLoop | ResetChannel

datatype connect_result = ConnectOk | ConnectErr string

text \<open>\<open>ctr_dangling\<close> tells that a channel was destroyed while the poller watched it.\<close>

record Connector =
  ctr_connect :: bool
  ctr_state :: States
  retryDelayMs :: int
  ctr_channel :: "ctr_chan option"
  newConnetionCallback :: bool
  ctr_posted :: "ctr_fn list"
  ctr_timers :: "Timestamp list"
  ctr_opened :: "int list"
  ctr_closed :: "int list"
  ctr_given :: "int list"
  ctr_dangling :: bool

definition MaxRetryDelayMs :: int where "MaxRetryDelayMs = 30 * 1000"
definition InitRetryDelayMs :: int where "InitRetryDelayMs = 500"

definition Connector_new :: Connector where
  "Connector_new = \<lparr>ctr_connect = False, ctr_state = CtrDisconnected, retryDelayMs = InitRetryDelayMs,
     ctr_channel = None, newConnetionCallback = False, ctr_posted = [], ctr_timers = [], ctr_opened = [],
     ctr_closed = [], ctr_given = [], ctr_dangling = False\<rparr>"

definition setNewConnectionCallback :: "Connector \<Rightarrow> Connector" where
  "setNewConnectionCallback c = c\<lparr>newConnetionCallback := True\<rparr>"

section \<open>Operations\<close>

definition close_fd :: "int \<Rightarrow> Connector \<Rightarrow> Connector" where
  "close_fd sockfd c = c\<lparr>ctr_closed := ctr_closed c @ [sockfd]\<rparr>"

text \<open>\<open>channel_.reset(p)\<close> destroys the channel that was there.\<close>

definition set_channel :: "ctr_chan option \<Rightarrow> Connector \<Rightarrow> Connector" where
  "set_channel p c = c\<lparr>ctr_channel := p,
     ctr_dangling := ctr_dangling c \<or> (case ctr_channel c of None \<Rightarrow> False | Some ch \<Rightarrow> cc_watched ch)\<rparr>"

definition resetChannel :: "Connector \<Rightarrow> Connector" where
  "resetChannel c = set_channel None c"

text \<open>\<open>runAt(retryDelayMs_ / 1000.0, ...)\<close>: the parameter is a \<open>Timestamp\<close>, so the seconds become
  microseconds since the epoch, without their fraction.\<close>

definition retry :: "int \<Rightarrow> Connector \<Rightarrow> Connector" where
  "retry sockfd c =
     (let c1 = (close_fd sockfd c)\<lparr>ctr_state := CtrDisconnected\<rparr>
      in if ctr_connect c1
         then c1\<lparr>ctr_timers := ctr_timers c1 @ [Timestamp (retryDelayMs c1 div 1000)],
                 retryDelayMs := min (retryDelayMs c1 * 2) MaxRetryDelayMs\<rparr>
         else c1)"

definition ctr_connecting :: "bool \<Rightarrow> int \<Rightarrow> Connector \<Rightarrow> Connector res" where
  "ctr_connecting nd sockfd c =
     (let c1 = c\<lparr>ctr_state := CtrConnecting\<rparr>
      in rbind (cassert nd (ctr_channel c1 = None)) (\<lambda>_.
         Inr (set_channel (Some \<lparr>cc_fd = sockfd, cc_watched = True\<rparr>) c1)))"

definition going_errors :: "string list" where
  "going_errors = [''EINPROGRESS'', ''EINTR'', ''EISCONN'']"

definition retry_errors :: "string list" where
  "retry_errors = [''EAGAIN'', ''EADDRINUSE'', ''EADDRNOTAVAIL'', ''ECONNREFUSED'', ''ENETUNREACH'']"

definition ctr_connect_op :: "bool \<Rightarrow> int \<Rightarrow> connect_result \<Rightarrow> Connector \<Rightarrow> Connector res" where
  "ctr_connect_op nd sockfd r c =
     (let c1 = c\<lparr>ctr_opened := ctr_opened c @ [sockfd]\<rparr>
      in case r of ConnectOk \<Rightarrow> ctr_connecting nd sockfd c1
       | ConnectErr e \<Rightarrow> if e \<in> set going_errors then ctr_connecting nd sockfd c1
           else if e \<in> set retry_errors then Inr (retry sockfd c1)
           else Inr (close_fd sockfd c1))"

definition startInLoop :: "bool \<Rightarrow> bool \<Rightarrow> int \<Rightarrow> connect_result \<Rightarrow> Connector \<Rightarrow> Connector res" where
  "startInLoop nd here sockfd r c =
     rbind (assertInLoopThread nd here) (\<lambda>_.
     rbind (cassert nd (CtrDisconnected = ctr_state c)) (\<lambda>_.
       if ctr_connect c then ctr_connect_op nd sockfd r c else Inr c))"

text \<open>\<open>connect_ == true;\<close> compares and changes nothing.\<close>

definition ctr_start :: "bool \<Rightarrow> bool \<Rightarrow> int \<Rightarrow> connect_result \<Rightarrow> Connector \<Rightarrow> Connector res" where
  "ctr_start nd here sockfd r c =
     (if here then startInLoop nd here sockfd r c else Inr (c\<lparr>ctr_posted := ctr_posted c @ [StartInLoop]\<rparr>))"

definition removeAndResetChannel :: "Connector \<Rightarrow> (int \<times> Connector) res" where
  "removeAndResetChannel c = (case ctr_channel c of None \<Rightarrow> Inl NullDereference
     | Some ch \<Rightarrow> Inr (cc_fd ch, c\<lparr>ctr_channel := Some (ch\<lparr>cc_watched := False\<rparr>),
                                 ctr_posted := ctr_posted c @ [ResetChannel]\<rparr>))"

definition stopInLoop :: "bool \<Rightarrow> bool \<Rightarrow> Connector \<Rightarrow> Connector res" where
  "stopInLoop nd here c =
     rbind (assertInLoopThread nd here) (\<lambda>_.
       if CtrConnecting = ctr_state c then
         rbind (removeAndResetChannel (c\<lparr>ctr_state := CtrDisconnected\<rparr>)) (\<lambda>(sockfd, c1). Inr (retry sockfd c1))
       else Inr c)"

definition ctr_stop :: "bool \<Rightarrow> bool \<Rightarrow> Connector \<Rightarrow> Connector res" where
  "ctr_stop nd here c =
     (let c1 = c\<lparr>ctr_connect := False\<rparr>
      in if here then stopInLoop nd here c1 else Inr (c1\<lparr>ctr_posted := ctr_posted c1 @ [StopInLoop]\<rparr>))"

definition ctr_restart :: "bool \<Rightarrow> bool \<Rightarrow> int \<Rightarrow> connect_result \<Rightarrow> Connector \<Rightarrow> Connector res" where
  "ctr_restart nd here sockfd r c =
     rbind (assertInLoopThread nd here) (\<lambda>_.
       startInLoop nd here sockfd r (c\<lparr>ctr_state := CtrDisconnected, retryDelayMs := InitRetryDelayMs, ctr_connect := True\<rparr>))"

definition ctr_handleWrite :: "bool \<Rightarrow> int \<Rightarrow> bool \<Rightarrow> Connector \<Rightarrow> Connector res" where
  "ctr_handleWrite nd err selfConnect c =
     (if CtrConnecting = ctr_state c then
        rbind (removeAndResetChannel c) (\<lambda>(sockfd, c1).
          if err \<noteq> 0 then Inr (retry sockfd c1)
          else if selfConnect then Inr (retry sockfd c1)
          else let c2 = c1\<lparr>ctr_state := CtrConnected\<rparr>
               in if ctr_connect c2
                  then if newConnetionCallback c2 then Inr (c2\<lparr>ctr_given := ctr_given c2 @ [sockfd]\<rparr>) else Inl BadFunctionCall
                  else Inr (close_fd sockfd c2))
      else rbind (cassert nd (CtrDisconnected = ctr_state c)) (\<lambda>_. Inr c))"

definition ctr_handleError :: "bool \<Rightarrow> Connector \<Rightarrow> Connector res" where
  "ctr_handleError nd c =
     rbind (cassert nd (CtrConnecting = ctr_state c)) (\<lambda>_.
     rbind (removeAndResetChannel c) (\<lambda>(sockfd, c1). Inr (retry sockfd c1)))"

section \<open>Runs\<close>

text \<open>
  The events of a connector. A public call carries whether it comes from the loop's thread; the
  connection attempts carry what the kernel answers. The loop runs its pending functors before
  it waits again, so a timer fires when none is left.
\<close>

datatype ctr_event = Start bool int connect_result | Stop bool | Restart int connect_result
  | Writeable int bool | ErrorEvent | RunPosted int connect_result | TimerFires int connect_result

fun ctr_do :: "bool \<Rightarrow> Connector \<Rightarrow> ctr_event \<Rightarrow> Connector res" where
  "ctr_do nd c (Start here f r) = ctr_start nd here f r c"
| "ctr_do nd c (Stop here) = ctr_stop nd here c"
| "ctr_do nd c (Restart f r) = ctr_restart nd True f r c"
| "ctr_do nd c (Writeable err sc) = ctr_handleWrite nd err sc c"
| "ctr_do nd c ErrorEvent = ctr_handleError nd c"
| "ctr_do nd c (RunPosted f r) = (case ctr_posted c of [] \<Rightarrow> Inr c
     | StartInLoop # ps \<Rightarrow> startInLoop nd True f r (c\<lparr>ctr_posted := ps\<rparr>)
     | StopInLoop # ps \<Rightarrow> stopInLoop nd True (c\<lparr>ctr_posted := ps\<rparr>)
     | ResetChannel # ps \<Rightarrow> Inr (resetChannel (c\<lparr>ctr_posted := ps\<rparr>)))"
| "ctr_do nd c (TimerFires f r) = startInLoop nd True f r (c\<lparr>ctr_timers := tl (ctr_timers c)\<rparr>)"

text \<open>When an event can come: the poller reports a watched channel only; the user starts a connector
  that is at rest, and restarts one that is not at work.\<close>

fun ctr_can :: "Connector \<Rightarrow> ctr_event \<Rightarrow> bool" where
  "ctr_can c (Start here f r) \<longleftrightarrow> ctr_state c = CtrDisconnected \<and> ctr_channel c = None \<and> ctr_timers c = [] \<and> ctr_posted c = []"
| "ctr_can c (Stop here) \<longleftrightarrow> True"
| "ctr_can c (Restart f r) \<longleftrightarrow> ctr_state c \<noteq> CtrConnecting \<and> ctr_channel c = None \<and> ctr_timers c = [] \<and> ctr_posted c = []"
| "ctr_can c (Writeable err sc) \<longleftrightarrow> (case ctr_channel c of None \<Rightarrow> False | Some ch \<Rightarrow> cc_watched ch)"
| "ctr_can c ErrorEvent \<longleftrightarrow> (case ctr_channel c of None \<Rightarrow> False | Some ch \<Rightarrow> cc_watched ch)"
| "ctr_can c (RunPosted f r) \<longleftrightarrow> ctr_posted c \<noteq> []"
| "ctr_can c (TimerFires f r) \<longleftrightarrow> ctr_timers c \<noteq> [] \<and> ctr_posted c = []"

fun ctr_run :: "bool \<Rightarrow> Connector \<Rightarrow> ctr_event list \<Rightarrow> Connector res" where
  "ctr_run nd c [] = Inr c"
| "ctr_run nd c (ev # evs) = (if ctr_can c ev then rbind (ctr_do nd c ev) (\<lambda>c1. ctr_run nd c1 evs) else ctr_run nd c evs)"

section \<open>Invariant\<close>

definition held_fd :: "Connector \<Rightarrow> int multiset" where
  "held_fd c = (if ctr_state c = CtrConnecting then (case ctr_channel c of None \<Rightarrow> {#} | Some ch \<Rightarrow> {#cc_fd ch#}) else {#})"

definition ctr_inv :: "Connector \<Rightarrow> bool" where
  "ctr_inv c \<longleftrightarrow> newConnetionCallback c \<and> \<not> ctr_dangling c
     \<and> mset (ctr_opened c) = mset (ctr_closed c) + mset (ctr_given c) + held_fd c
     \<and> (ctr_state c = CtrConnecting \<longrightarrow> ctr_timers c = [] \<and> (\<exists>f. ctr_channel c = Some \<lparr>cc_fd = f, cc_watched = True\<rparr>))
     \<and> (ctr_state c \<noteq> CtrConnecting \<longrightarrow> (\<forall>ch. ctr_channel c = Some ch \<longrightarrow> \<not> cc_watched ch))
     \<and> count_list (ctr_posted c) ResetChannel = (if ctr_state c \<noteq> CtrConnecting \<and> ctr_channel c \<noteq> None then 1 else 0)
     \<and> count_list (ctr_posted c) StartInLoop \<le> 1
     \<and> (StartInLoop \<in> set (ctr_posted c) \<longrightarrow> ctr_state c = CtrDisconnected \<and> ctr_channel c = None \<and> ctr_timers c = [])
     \<and> (ctr_timers c \<noteq> [] \<longrightarrow> ctr_state c = CtrDisconnected) \<and> length (ctr_timers c) \<le> 1
     \<and> InitRetryDelayMs \<le> retryDelayMs c \<and> retryDelayMs c \<le> MaxRetryDelayMs
     \<and> list_all (\<lambda>t. 0 \<le> microSecondsSinceEpoch t \<and> microSecondsSinceEpoch t \<le> 30) (ctr_timers c)"

lemmas ctr_simps = assertInLoopThread_def set_channel_def resetChannel_def retry_def close_fd_def
  ctr_connecting_def removeAndResetChannel_def Let_def InitRetryDelayMs_def MaxRetryDelayMs_def held_fd_def

lemma startInLoop_inv:
  assumes "ctr_inv c" "ctr_state c = CtrDisconnected" "ctr_channel c = None" "ctr_timers c = []"
    "StartInLoop \<notin> set (ctr_posted c)"
  shows "returns (startInLoop nd True f r c) ctr_inv"
  using assms
  by (cases r) (auto simp: startInLoop_def ctr_connect_op_def ctr_inv_def ctr_simps count_notin)

lemma closing_inv:
  assumes "ctr_inv c" "ctr_state c = CtrConnecting"
  shows "returns (removeAndResetChannel c) (\<lambda>(f, c1). ctr_inv (retry f c1)
      \<and> ctr_inv (close_fd f (c1\<lparr>ctr_state := CtrConnected\<rparr>)) \<and> newConnetionCallback c1
      \<and> ctr_inv (c1\<lparr>ctr_state := CtrConnected, ctr_given := ctr_given c1 @ [f]\<rparr>))"
  using assms by (auto simp: ctr_inv_def ctr_simps count_list_0_iff)

lemma stopInLoop_inv:
  assumes "ctr_inv c"
  shows "returns (stopInLoop nd True c) ctr_inv"
proof (cases "ctr_state c = CtrConnecting")
  case True
  have "removeAndResetChannel (c\<lparr>ctr_state := CtrDisconnected\<rparr>)
     = rbind (removeAndResetChannel c) (\<lambda>(f, c1). Inr (f, c1\<lparr>ctr_state := CtrDisconnected\<rparr>))"
    by (simp add: removeAndResetChannel_def split: option.splits)
  moreover have "retry f (c1\<lparr>ctr_state := CtrDisconnected\<rparr>) = retry f c1" for f c1
    by (simp add: retry_def close_fd_def Let_def)
  ultimately show ?thesis
    using closing_inv [OF assms True] True
    by (auto simp: stopInLoop_def assertInLoopThread_def returns_iff)
next
  case False
  then show ?thesis using assms by (auto simp: stopInLoop_def assertInLoopThread_def)
qed

lemma run_posted_inv:
  assumes "ctr_inv c" "ctr_can c (RunPosted f r)"
  shows "returns (ctr_do nd c (RunPosted f r)) ctr_inv"
proof -
  obtain p ps where p: "ctr_posted c = p # ps" using assms(2) by (cases "ctr_posted c") auto
  show ?thesis
  proof (cases p)
    case StartInLoop
    have "ctr_inv (c\<lparr>ctr_posted := ps\<rparr>)" "StartInLoop \<notin> set ps"
      using assms(1) p StartInLoop by (auto simp: ctr_inv_def held_fd_def count_list_0_iff)
    then show ?thesis
      using startInLoop_inv [of "c\<lparr>ctr_posted := ps\<rparr>" nd f r] assms(1) p StartInLoop by (auto simp: ctr_inv_def)
  next
    case StopInLoop
    have "ctr_inv (c\<lparr>ctr_posted := ps\<rparr>)"
      using assms(1) p StopInLoop by (auto simp: ctr_inv_def held_fd_def)
    then show ?thesis using stopInLoop_inv [of "c\<lparr>ctr_posted := ps\<rparr>" nd] p StopInLoop by simp
  next
    case ResetChannel
    then show ?thesis
      using assms(1) p by (auto simp: ctr_inv_def held_fd_def resetChannel_def set_channel_def split: if_splits option.splits)
  qed
qed

lemma ctr_do_inv:
  assumes "ctr_inv c" "ctr_can c ev"
  shows "returns (ctr_do nd c ev) ctr_inv"
proof (cases ev)
  case (Start here f r)
  then show ?thesis
    using assms startInLoop_inv [of c nd f r]
    by (auto simp: ctr_start_def) (auto simp: ctr_inv_def held_fd_def)
next
  case (Stop here)
  have "ctr_inv (c\<lparr>ctr_connect := False\<rparr>)" using assms(1) by (simp add: ctr_inv_def held_fd_def)
  then show ?thesis
    using Stop stopInLoop_inv by (auto simp: ctr_stop_def Let_def) (auto simp: ctr_inv_def held_fd_def)
next
  case (Restart f r)
  have "ctr_inv (c\<lparr>ctr_state := CtrDisconnected, retryDelayMs := InitRetryDelayMs, ctr_connect := True\<rparr>)"
    using assms Restart by (auto simp: ctr_inv_def held_fd_def InitRetryDelayMs_def MaxRetryDelayMs_def)
  then show ?thesis
    using Restart assms(2) startInLoop_inv [of "c\<lparr>ctr_state := CtrDisconnected, retryDelayMs := InitRetryDelayMs, ctr_connect := True\<rparr>" nd f r]
    by (simp add: ctr_restart_def assertInLoopThread_def)
next
  case (Writeable err sc)
  then have st: "ctr_state c = CtrConnecting" using assms by (auto simp: ctr_inv_def split: option.splits)
  obtain f c1 where "removeAndResetChannel c = Inr (f, c1)" "ctr_inv (retry f c1)" "newConnetionCallback c1"
      "ctr_inv (close_fd f (c1\<lparr>ctr_state := CtrConnected\<rparr>))"
      "ctr_inv (c1\<lparr>ctr_state := CtrConnected, ctr_given := ctr_given c1 @ [f]\<rparr>)"
    using closing_inv [OF assms(1) st] by (auto simp: returns_iff)
  then show ?thesis using st Writeable by (simp add: ctr_handleWrite_def Let_def)
next
  case ErrorEvent
  then have st: "ctr_state c = CtrConnecting" using assms by (auto simp: ctr_inv_def split: option.splits)
  then show ?thesis
    using closing_inv [OF assms(1) st] ErrorEvent by (auto simp: ctr_handleError_def returns_iff)
next
  case (RunPosted f r)
  then show ?thesis using run_posted_inv assms by simp
next
  case (TimerFires f r)
  let ?c = "c\<lparr>ctr_timers := tl (ctr_timers c)\<rparr>"
  have "ctr_timers ?c = []" using assms(1) by (cases "ctr_timers c") (auto simp: ctr_inv_def)
  moreover have "ctr_inv ?c" using assms(1) calculation by (auto simp: ctr_inv_def held_fd_def)
  moreover have "ctr_state c = CtrDisconnected" "ctr_channel c = None" "ctr_posted c = []"
    using assms TimerFires by (auto simp: ctr_inv_def split: if_splits)
  ultimately show ?thesis using startInLoop_inv [of ?c nd f r] TimerFires by simp
qed

lemma ctr_run_inv: "ctr_inv c \<Longrightarrow> returns (ctr_run nd c evs) ctr_inv"
proof (induction evs arbitrary: c)
  case (Cons ev evs)
  then show ?case
    using ctr_do_inv [of c ev nd] by (auto intro: returns_mono)
qed simp

lemma new_inv: "ctr_inv (setNewConnectionCallback Connector_new)"
  by (simp add: ctr_inv_def setNewConnectionCallback_def Connector_new_def held_fd_def InitRetryDelayMs_def MaxRetryDelayMs_def)

section \<open>Properties\<close>


text \<open>The delay of a connector stays between half a second and thirty seconds, at most one retry
  is scheduled at a time, and its time is at most 30 microseconds after the epoch: the delay is
  passed where a point in time is expected, so the retry comes at once and the growing delays
  have no effect.\<close>

theorem retry_delay_bounds:
  "\<exists>c. ctr_run nd (setNewConnectionCallback Connector_new) evs = Inr c
     \<and> 500 \<le> retryDelayMs c \<and> retryDelayMs c \<le> 30000
     \<and> (ctr_timers c = [] \<or> (\<exists>t. ctr_timers c = [t] \<and> 0 \<le> microSecondsSinceEpoch t \<and> microSecondsSinceEpoch t \<le> 30))"
proof -
  obtain c where c: "ctr_run nd (setNewConnectionCallback Connector_new) evs = Inr c" "ctr_inv c"
    using ctr_run_inv [OF new_inv, of nd evs] by (auto simp: returns_iff)
  then have "500 \<le> retryDelayMs c \<and> retryDelayMs c \<le> 30000 \<and> length (ctr_timers c) \<le> 1
    \<and> list_all (\<lambda>t. 0 \<le> microSecondsSinceEpoch t \<and> microSecondsSinceEpoch t \<le> 30) (ctr_timers c)"
    by (simp add: ctr_inv_def InitRetryDelayMs_def MaxRetryDelayMs_def)
  then show ?thesis using c(1) by (cases "ctr_timers c") auto
qed

text \<open>Without that discipline: \<open>stop\<close> and \<open>restart\<close> in one turn of the loop while a connection is
  attempted. The debug build stops at an assert; the other one destroys the channel of the new
  attempt, which the poller watches, when the queued \<open>resetChannel\<close> runs.\<close>

lemma stop_restart_dangles:
  assumes "ctr_state c = CtrConnecting" "ctr_channel c = Some \<lparr>cc_fd = f, cc_watched = True\<rparr>" "ctr_posted c = []"
  shows "rbind (ctr_stop False True c) (ctr_restart False True g ConnectOk) = Inl AssertionFailed"
    and "\<exists>c1. rbind (ctr_stop True True c) (ctr_restart True True g ConnectOk) = Inr c1
           \<and> returns (ctr_do True c1 (RunPosted h r)) ctr_dangling"
  using assms
  by (simp_all add: ctr_stop_def stopInLoop_def ctr_restart_def startInLoop_def ctr_connect_op_def ctr_simps)

end
