(* ===== verification/TcpClient.thy ===== *)
theory TcpClient
  imports Connector
begin

text \<open>
  \<^verbatim>\<open>TcpClient.h\<close>, \<^verbatim>\<open>TcpCLient.cpp\<close>: a client with one connection at most, which a connector opens.
  The buffers of a new connection and the value of its uninitialised high-water mark are
  arguments. \<open>cl_posted\<close> lists the connections whose \<open>connectDestroyed\<close> was given to the loop.
\<close>

section \<open>State and operations\<close>

record TcpClient =
  cl_retry :: bool
  cl_connect :: bool
  cl_loop :: nat
  cl_nextConnId :: int
  cl_name :: string
  cl_connector :: Connector
  cl_writeComplete :: bool
  cl_connection :: "TcpConnection option"
  cl_posted :: "TcpConnection list"

definition TcpClient_new :: "nat \<Rightarrow> string \<Rightarrow> TcpClient" where
  "TcpClient_new loop nameArg = \<lparr>cl_retry = False, cl_connect = True, cl_loop = loop, cl_nextConnId = 1, cl_name = nameArg,
     cl_connector = setNewConnectionCallback Connector_new, cl_writeComplete = False, cl_connection = None, cl_posted = []\<rparr>"

definition enableRetry :: "TcpClient \<Rightarrow> TcpClient" where
  "enableRetry cl = cl\<lparr>cl_retry := True\<rparr>"

definition cl_setWriteCompleteCallback :: "bool \<Rightarrow> TcpClient \<Rightarrow> TcpClient" where
  "cl_setWriteCompleteCallback cb cl = cl\<lparr>cl_writeComplete := cb\<rparr>"

definition client_connect :: "bool \<Rightarrow> bool \<Rightarrow> int \<Rightarrow> connect_result \<Rightarrow> TcpClient \<Rightarrow> TcpClient res" where
  "client_connect nd here sockfd r cl =
     rbind (ctr_start nd here sockfd r (cl_connector cl)) (\<lambda>k. Inr (cl\<lparr>cl_connect := True, cl_connector := k\<rparr>))"

definition disConnect :: "bool \<Rightarrow> TcpClient \<Rightarrow> TcpClient res" where
  "disConnect nd cl =
     (let cl1 = cl\<lparr>cl_connect := False\<rparr>
      in case cl_connection cl1 of None \<Rightarrow> Inr cl1
       | Some c \<Rightarrow> rbind (conn_shutdown nd c) (\<lambda>c1. Inr (cl1\<lparr>cl_connection := Some c1\<rparr>)))"

definition client_stop :: "bool \<Rightarrow> bool \<Rightarrow> TcpClient \<Rightarrow> TcpClient res" where
  "client_stop nd here cl =
     rbind (ctr_stop nd here (cl_connector cl)) (\<lambda>k. Inr (cl\<lparr>cl_connect := False, cl_connector := k\<rparr>))"

text \<open>\<open>connection_->peerAddr()\<close> is called before \<open>connection_\<close> is set.\<close>

definition client_newConnection :: "bool \<Rightarrow> bool \<Rightarrow> nat \<Rightarrow> buffer \<Rightarrow> int \<Rightarrow> TcpClient \<Rightarrow> TcpClient res" where
  "client_newConnection nd here hwm b sockfd cl =
     rbind (assertInLoopThread nd here) (\<lambda>_.
       case cl_connection cl of None \<Rightarrow> Inl NullDereference
       | Some old \<Rightarrow>
           if cl_nextConnId cl = 2 ^ 31 - 1 then Inl SignedOverflow
           else rbind (connectEstablished nd here
                  (setWriteCompleteCallback (cl_writeComplete cl) (TcpConnection_new (cl_loop cl) sockfd hwm b b))) (\<lambda>c.
                Inr (cl\<lparr>cl_nextConnId := cl_nextConnId cl + 1, cl_connection := Some c\<rparr>)))"

definition client_removeConnection :: "bool \<Rightarrow> bool \<Rightarrow> int \<Rightarrow> connect_result \<Rightarrow> TcpConnection \<Rightarrow> TcpClient \<Rightarrow> TcpClient res" where
  "client_removeConnection nd here sockfd r conn cl =
     rbind (assertInLoopThread nd here) (\<lambda>_.
       let cl1 = cl\<lparr>cl_connection := None, cl_posted := cl_posted cl @ [conn]\<rparr>
       in if cl_retry cl1 \<and> cl_connect cl1
          then rbind (ctr_restart nd here sockfd r (cl_connector cl1)) (\<lambda>k. Inr (cl1\<lparr>cl_connector := k\<rparr>))
          else Inr cl1)"

text \<open>The destructor; \<open>unique\<close> says whether the client holds the only pointer to the connection.\<close>

definition TcpClient_destroy :: "bool \<Rightarrow> bool \<Rightarrow> bool \<Rightarrow> TcpClient \<Rightarrow> TcpClient res" where
  "TcpClient_destroy nd here unique cl =
     (case cl_connection cl of
        Some c \<Rightarrow> Inr (if unique then cl\<lparr>cl_connection := Some (forceClose c)\<rparr> else cl)
      | None \<Rightarrow> rbind (ctr_stop nd here (cl_connector cl)) (\<lambda>k. Inr (cl\<lparr>cl_connector := k\<rparr>)))"

text \<open>An event of the connector: a descriptor it hands over goes to \<open>newConnection\<close>.\<close>

definition connector_event :: "bool \<Rightarrow> nat \<Rightarrow> buffer \<Rightarrow> ctr_event \<Rightarrow> TcpClient \<Rightarrow> TcpClient res" where
  "connector_event nd hwm b ev cl =
     rbind (ctr_do nd (cl_connector cl) ev) (\<lambda>k.
       let cl1 = cl\<lparr>cl_connector := k\<rparr>
       in if length (ctr_given (cl_connector cl)) < length (ctr_given k)
          then client_newConnection nd True hwm b (last (ctr_given k)) cl1 else Inr cl1)"

section \<open>Runs\<close>

datatype client_op = Connect bool int connect_result | Disconnect | StopClient bool | EnableRetry
  | LoopEvent ctr_event

fun loop_event :: "ctr_event \<Rightarrow> bool" where
  "loop_event (Start _ _ _) = False"
| "loop_event (Stop _) = False"
| "loop_event (Restart _ _) = False"
| "loop_event _ = True"

fun client_run :: "bool \<Rightarrow> nat \<Rightarrow> buffer \<Rightarrow> TcpClient \<Rightarrow> client_op list \<Rightarrow> TcpClient res" where
  "client_run nd hwm b cl [] = Inr cl"
| "client_run nd hwm b cl (Connect here f r # ops) = rbind (client_connect nd here f r cl) (\<lambda>cl1. client_run nd hwm b cl1 ops)"
| "client_run nd hwm b cl (Disconnect # ops) = rbind (disConnect nd cl) (\<lambda>cl1. client_run nd hwm b cl1 ops)"
| "client_run nd hwm b cl (StopClient here # ops) = rbind (client_stop nd here cl) (\<lambda>cl1. client_run nd hwm b cl1 ops)"
| "client_run nd hwm b cl (EnableRetry # ops) = client_run nd hwm b (enableRetry cl) ops"
| "client_run nd hwm b cl (LoopEvent ev # ops) =
     (if loop_event ev \<and> ctr_can (cl_connector cl) ev
      then rbind (connector_event nd hwm b ev cl) (\<lambda>cl1. client_run nd hwm b cl1 ops)
      else client_run nd hwm b cl ops)"

definition at_rest :: "TcpClient \<Rightarrow> bool" where
  "at_rest cl \<longleftrightarrow> cl_connection cl = None \<and> (let k = cl_connector cl in
     \<not> ctr_connect k \<and> ctr_state k = CtrDisconnected \<and> ctr_channel k = None \<and> ctr_timers k = []
     \<and> ctr_opened k = [] \<and> ctr_given k = [] \<and> ResetChannel \<notin> set (ctr_posted k))"

lemma at_rest_ops:
  assumes "at_rest cl"
  shows "returns (client_connect nd here f r cl) at_rest" "returns (disConnect nd cl) at_rest"
    "returns (client_stop nd here cl) at_rest" "at_rest (enableRetry cl)"
  using assms
  by (auto simp: at_rest_def client_connect_def ctr_start_def startInLoop_def disConnect_def client_stop_def
      ctr_stop_def stopInLoop_def enableRetry_def assertInLoopThread_def Let_def)

lemma at_rest_event:
  assumes "at_rest cl" "loop_event ev" "ctr_can (cl_connector cl) ev"
  shows "returns (connector_event nd hwm b ev cl) at_rest"
proof (cases ev)
  case (RunPosted f r)
  obtain p ps where p: "ctr_posted (cl_connector cl) = p # ps"
    using assms(3) RunPosted by (cases "ctr_posted (cl_connector cl)") auto
  then have "p \<noteq> ResetChannel" using assms(1) by (auto simp: at_rest_def Let_def)
  then show ?thesis
    using assms(1) RunPosted p
    by (cases p) (auto simp: at_rest_def connector_event_def startInLoop_def stopInLoop_def assertInLoopThread_def Let_def)
qed (use assms in \<open>auto simp: at_rest_def Let_def\<close>)

lemma client_run_rest: "at_rest cl \<Longrightarrow> returns (client_run nd hwm b cl ops) at_rest"
proof (induction ops arbitrary: cl)
  case (Cons x ops)
  show ?case
  proof (cases x)
    case (LoopEvent ev)
    then show ?thesis using Cons at_rest_event [of cl ev nd hwm b] by (auto intro: returns_mono)
  next
    case (Connect here f r)
    then show ?thesis using Cons at_rest_ops(1) [of cl nd here f r] by (auto intro: returns_mono)
  next
    case Disconnect
    then show ?thesis using Cons at_rest_ops(2) [of cl nd] by (auto intro: returns_mono)
  next
    case (StopClient here)
    then show ?thesis using Cons at_rest_ops(3) [of cl nd here] by (auto intro: returns_mono)
  next
    case EnableRetry
    then show ?thesis using Cons at_rest_ops(4) [of cl] by simp
  qed
qed simp

section \<open>Property\<close>

text \<open>C38: A client never connects. Whatever sequence of calls and loop events follows the
  construction, every call returns, no socket is opened and the client has no connection
  (\<open>Connector::start\<close> does not set its flag). And if a connector did hand a descriptor over, the
  first connection would fault: \<open>newConnection\<close> asks the connection it is about to make for its
  addresses.\<close>

theorem client_never_connects:
  "(\<exists>cl. client_run nd hwm b (TcpClient_new loop nm) ops = Inr cl \<and> cl_connection cl = None \<and> ctr_opened (cl_connector cl) = [])
   \<and> client_newConnection nd True hwm b sockfd (TcpClient_new loop nm) = Inl NullDereference"
proof -
  have "at_rest (TcpClient_new loop nm)"
    by (simp add: at_rest_def TcpClient_new_def setNewConnectionCallback_def Connector_new_def)
  then have "returns (client_run nd hwm b (TcpClient_new loop nm) ops) at_rest" by (rule client_run_rest)
  then show ?thesis
    by (auto simp: returns_iff at_rest_def Let_def client_newConnection_def assertInLoopThread_def TcpClient_new_def)
qed

end
