(* ===== verification/ThreadPool.thy ===== *)
theory ThreadPool
  imports Sync "HOL-Library.Multiset"
begin

text \<open>
  \<^verbatim>\<open>ThreadPool.h/.cpp\<close>: worker threads around a bounded queue of tasks. Tasks and threads are
  numbers. A step of a worker is what it does between two places where other threads can come
  in; a section under the mutex is one step. \<open>tp_accepted\<close>, \<open>tp_taken\<close> and \<open>tp_ran\<close> record the
  tasks that entered the queue, left it, and were executed.
\<close>

section \<open>State and operations\<close>

datatype worker_pc = AtLoop | InTake | TakeSection | Execute nat | Asleep | Exited

record ThreadPool =
  tp_running :: bool
  maxQueueSize :: nat
  tp_mutex :: MutexLock
  tp_queue :: "nat list"
  tp_pool :: "nat list"
  tp_pc :: "nat \<Rightarrow> worker_pc"
  tp_accepted :: "nat list"
  tp_taken :: "nat list"
  tp_ran :: "nat list"

definition ThreadPool_new :: ThreadPool where
  "ThreadPool_new = \<lparr>tp_running = False, maxQueueSize = 0, tp_mutex = MutexLock_new, tp_queue = [], tp_pool = [],
     tp_pc = (\<lambda>t. Exited), tp_accepted = [], tp_taken = [], tp_ran = []\<rparr>"

definition setMaxQueueSize :: "nat \<Rightarrow> ThreadPool \<Rightarrow> ThreadPool" where
  "setMaxQueueSize n p = p\<lparr>maxQueueSize := n\<rparr>"

text \<open>Worker \<open>i\<close> is thread \<open>i + 1\<close>.\<close>

definition pool_threads_start :: "bool \<Rightarrow> nat \<Rightarrow> ThreadPool \<Rightarrow> ThreadPool res" where
  "pool_threads_start nd num p =
     rbind (cassert nd (\<not> tp_running p)) (\<lambda>_.
     rbind (cassert nd (tp_pool p = [])) (\<lambda>_.
       Inr (p\<lparr>tp_running := True, tp_pool := tp_pool p @ [1..<num + 1],
              tp_pc := (\<lambda>t. if t \<in> {1..num} then AtLoop else tp_pc p t)\<rparr>)))"

text \<open>\<open>run\<close>: the section under the mutex; the notification behind it wakes sleeping workers at most.\<close>

definition pool_run :: "nat \<Rightarrow> ThreadPool \<Rightarrow> ThreadPool" where
  "pool_run task p = (if length (tp_queue p) < maxQueueSize p
     then p\<lparr>tp_queue := tp_queue p @ [task], tp_accepted := tp_accepted p @ [task]\<rparr> else p)"

definition pool_stop :: "ThreadPool \<Rightarrow> ThreadPool" where
  "pool_stop p = p\<lparr>tp_running := False\<rparr>"

definition worker_goto :: "nat \<Rightarrow> worker_pc \<Rightarrow> ThreadPool \<Rightarrow> ThreadPool" where
  "worker_goto t pc p = p\<lparr>tp_pc := (tp_pc p)(t := pc)\<rparr>"

text \<open>\<open>take\<close>: the loop \<open>while(queue_.empty() && running_) notEmpty_.wait();\<close>, in which the mutex is not
  held, and the section behind it. An empty task is not executed.\<close>

definition take_wait :: "nat \<Rightarrow> ThreadPool \<Rightarrow> ThreadPool res" where
  "take_wait t p =
     (if tp_queue p = [] \<and> tp_running p
      then rbind (cond_block t (tp_mutex p)) (\<lambda>m. Inr (worker_goto t Asleep (p\<lparr>tp_mutex := m\<rparr>)))
      else Inr (worker_goto t TakeSection p))"

definition take_section :: "nat \<Rightarrow> ThreadPool \<Rightarrow> ThreadPool" where
  "take_section t p = (case tp_queue p of [] \<Rightarrow> worker_goto t AtLoop p
     | task # q \<Rightarrow> worker_goto t (Execute task) (p\<lparr>tp_queue := q, tp_taken := tp_taken p @ [task]\<rparr>))"

definition worker_step :: "nat \<Rightarrow> ThreadPool \<Rightarrow> ThreadPool res" where
  "worker_step t p = (case tp_pc p t of
       AtLoop \<Rightarrow> Inr (worker_goto t (if tp_running p then InTake else Exited) p)
     | InTake \<Rightarrow> take_wait t p
     | TakeSection \<Rightarrow> Inr (take_section t p)
     | Execute task \<Rightarrow> Inr (worker_goto t AtLoop (p\<lparr>tp_ran := tp_ran p @ [task]\<rparr>))
     | Asleep \<Rightarrow> Inr p
     | Exited \<Rightarrow> Inr p)"

section \<open>Runs\<close>

datatype pool_event = Run nat | Worker nat | StopPool

fun pool_do :: "ThreadPool \<Rightarrow> pool_event \<Rightarrow> ThreadPool res" where
  "pool_do p (Run task) = Inr (pool_run task p)"
| "pool_do p (Worker t) = worker_step t p"
| "pool_do p StopPool = Inr (pool_stop p)"

fun pool_exec :: "ThreadPool \<Rightarrow> pool_event list \<Rightarrow> ThreadPool res" where
  "pool_exec p [] = Inr p"
| "pool_exec p (e # es) = rbind (pool_do p e) (\<lambda>p1. pool_exec p1 es)"

text \<open>The tasks workers have in hand.\<close>

fun task_of :: "worker_pc \<Rightarrow> nat list" where
  "task_of (Execute k) = [k]"
| "task_of _ = []"

definition in_hand :: "ThreadPool \<Rightarrow> nat multiset" where
  "in_hand p = mset (concat (map (\<lambda>t. task_of (tp_pc p t)) (tp_pool p)))"

definition pool_inv :: "ThreadPool \<Rightarrow> bool" where
  "pool_inv p \<longleftrightarrow> tp_taken p @ tp_queue p = tp_accepted p \<and> length (tp_queue p) \<le> maxQueueSize p
     \<and> mset (tp_ran p) + in_hand p = mset (tp_taken p) \<and> distinct (tp_pool p)
     \<and> (\<forall>t. t \<notin> set (tp_pool p) \<longrightarrow> tp_pc p t = Exited) \<and> owner (tp_mutex p) = None"

lemma in_hand_goto:
  assumes "distinct (tp_pool p)" "t \<in> set (tp_pool p)"
  shows "in_hand (worker_goto t pc p) + mset (task_of (tp_pc p t)) = in_hand p + mset (task_of pc)"
proof -
  have "mset (concat (map (\<lambda>u. task_of (((tp_pc p)(t := pc)) u)) xs)) + mset (task_of (tp_pc p t))
      = mset (concat (map (\<lambda>u. task_of (tp_pc p u)) xs)) + mset (task_of pc)" if "distinct xs" "t \<in> set xs" for xs
    using that
  proof (induction xs)
    case (Cons x xs)
    show ?case
    proof (cases "x = t")
      case True
      then have "map (\<lambda>u. task_of (((tp_pc p)(t := pc)) u)) xs = map (\<lambda>u. task_of (tp_pc p u)) xs"
        using Cons.prems(1) by (intro map_cong) auto
      then show ?thesis using True unfolding list.map concat.simps mset_append by (simp add: ac_simps del: map_eq_conv)
    next
      case False
      then show ?thesis using Cons by (simp add: ac_simps)
    qed
  qed simp
  from this [OF assms] show ?thesis by (simp add: in_hand_def worker_goto_def)
qed

lemma worker_step_inv:
  assumes "pool_inv p" "worker_step t p = Inr p'"
  shows "pool_inv p'"
proof (cases "t \<in> set (tp_pool p)")
  case False
  then have "tp_pc p t = Exited" using assms(1) by (auto simp: pool_inv_def)
  then show ?thesis using assms by (simp add: worker_step_def)
next
  case True
  note hand = in_hand_goto [OF _ True]
  have dist: "distinct (tp_pool p)" using assms(1) by (simp add: pool_inv_def)
  have keep: "pool_inv (worker_goto t pc p)"
    if "task_of pc = task_of (tp_pc p t)" for pc
    using hand [OF dist, of pc] that assms(1) True
    by (auto simp: pool_inv_def worker_goto_def)
  have rec: "in_hand (p\<lparr>tp_queue := q, tp_taken := k\<rparr>) = in_hand p" "in_hand (p\<lparr>tp_ran := r\<rparr>) = in_hand p" for q k r
    by (simp_all add: in_hand_def)
  show ?thesis
  proof (cases "tp_pc p t")
    case AtLoop
    then show ?thesis using assms(2) keep by (auto simp: worker_step_def)
  next
    case InTake
    have "owner (tp_mutex p) \<noteq> Some t" using assms(1) by (simp add: pool_inv_def)
    then show ?thesis using assms(2) keep InTake by (auto simp: worker_step_def take_wait_def cond_block_def split: if_splits)
  next
    case TakeSection
    show ?thesis
    proof (cases "tp_queue p")
      case Nil
      then show ?thesis using assms(2) keep TakeSection by (auto simp: worker_step_def take_section_def)
    next
      case (Cons task q)
      let ?p = "p\<lparr>tp_queue := q, tp_taken := tp_taken p @ [task]\<rparr>"
      have "in_hand (worker_goto t (Execute task) ?p) = add_mset task (in_hand p)"
        using in_hand_goto [of ?p t "Execute task"] dist True TakeSection rec by simp
      then show ?thesis
        using assms Cons TakeSection True by (auto simp: worker_step_def take_section_def pool_inv_def worker_goto_def)
    qed
  next
    case (Execute task)
    let ?p = "p\<lparr>tp_ran := tp_ran p @ [task]\<rparr>"
    have "add_mset task (in_hand (worker_goto t AtLoop ?p)) = in_hand p"
      using in_hand_goto [of ?p t AtLoop] dist True Execute rec by simp
    then have "add_mset task (mset (tp_ran p)) + in_hand (worker_goto t AtLoop ?p) = mset (tp_taken p)"
      using assms(1) by (metis add_mset_add_single pool_inv_def union_assoc union_commute)
    then show ?thesis
      using assms Execute True by (auto simp: worker_step_def pool_inv_def worker_goto_def)
  qed (use assms in \<open>auto simp: worker_step_def\<close>)
qed

lemma pool_do_inv:
  assumes "pool_inv p" "pool_do p e = Inr p'"
  shows "pool_inv p'"
proof (cases e)
  case (Run task)
  have "in_hand (p\<lparr>tp_queue := q, tp_accepted := a\<rparr>) = in_hand p" for q a by (simp add: in_hand_def)
  then show ?thesis using assms Run by (auto simp: pool_run_def pool_inv_def split: if_splits)
next
  case (Worker t)
  then show ?thesis using assms worker_step_inv by simp
next
  case StopPool
  have "in_hand (p\<lparr>tp_running := False\<rparr>) = in_hand p" by (simp add: in_hand_def)
  then show ?thesis using assms StopPool by (auto simp: pool_stop_def pool_inv_def)
qed

lemma pool_exec_inv: "pool_inv p \<Longrightarrow> pool_exec p es = Inr p' \<Longrightarrow> pool_inv p'"
  by (induction es arbitrary: p) (auto dest: pool_do_inv)

lemma started_inv:
  "pool_threads_start nd num (setMaxQueueSize n ThreadPool_new) = Inr p \<Longrightarrow> pool_inv p"
  by (auto simp: pool_threads_start_def setMaxQueueSize_def ThreadPool_new_def pool_inv_def in_hand_def MutexLock_new_def)

lemma full_drops: "maxQueueSize p = 0 \<Longrightarrow> tp_queue p = [] \<Longrightarrow> pool_exec p (map Run ts) = Inr p"
  by (induction ts) (simp_all add: pool_run_def)

lemma idle_worker_faults:
  assumes "owner (tp_mutex p) = None" "tp_running p" "tp_queue p = []" "tp_pc p t = AtLoop"
  shows "pool_exec p [Worker t, Worker t] = Inl NotOwner"
  using assms by (simp add: worker_step_def worker_goto_def take_wait_def cond_block_def)

section \<open>Properties\<close>


text \<open>A pool does not survive idleness, and as constructed it takes no task: the bound of the
  queue is 0 until \<open>setMaxQueueSize\<close> is called, so whatever is submitted is dropped; and a worker
  that finds the queue empty waits on the condition variable without holding the mutex, which
  is undefined.\<close>

theorem pool_default_unusable:
  assumes "0 < t" "t \<le> num"
  shows "\<exists>p. pool_threads_start nd num ThreadPool_new = Inr p \<and> pool_exec p (map Run ts) = Inr p
    \<and> pool_exec p (map Run ts @ [Worker t, Worker t]) = Inl NotOwner"
proof -
  obtain p where p: "pool_threads_start nd num ThreadPool_new = Inr p" "maxQueueSize p = 0" "tp_queue p = []"
    "tp_running p" "owner (tp_mutex p) = None" "tp_pc p t = AtLoop"
    using assms by (auto simp: pool_threads_start_def ThreadPool_new_def MutexLock_new_def)
  have app: "pool_exec q (xs @ ys) = rbind (pool_exec q xs) (\<lambda>q1. pool_exec q1 ys)" for q xs ys
    by (induction xs arbitrary: q) (simp_all add: rbind_assoc)
  show ?thesis
    using p full_drops [OF p(2,3), of ts] idle_worker_faults [OF p(5,4,3,6)] by (auto simp: app simp del: pool_exec.simps)
qed

theorem pool_default_unusable_witness:
  "\<exists>p. pool_threads_start False 2 ThreadPool_new = Inr p \<and> pool_exec p (map Run [7, 8]) = Inr p
    \<and> pool_exec p (map Run [7, 8] @ [Worker 1, Worker 1]) = Inl NotOwner"
  by (rule pool_default_unusable) simp_all

definition demo_pool :: ThreadPool where
  "demo_pool = (setMaxQueueSize 2 ThreadPool_new)\<lparr>tp_running := True, tp_pool := [1],
     tp_pc := (\<lambda>t. if t \<in> {1..1} then AtLoop else Exited)\<rparr>"

definition demo_events :: "pool_event list" where
  "demo_events = [Run 7, Run 8, Run 9, Worker 1, Worker 1, Worker 1, Worker 1]"


end
