(* ===== verification/AsyncLogging.thy ===== *)
theory AsyncLogging
  imports LogStream
begin

text \<open>
  \<^verbatim>\<open>base/AsyncLogging.h/.cpp\<close>: front-end threads append lines to the current buffer under the
  mutex; the back-end thread swaps the full buffers out under the mutex, writes them without it
  and recycles two of them. Each section under the mutex and the unlocked writing section is
  one step, so any interleaving of the threads is a sequence of steps. A \<open>unique_ptr\<close> is an
  option, and a use of an empty one is a fault. \<open>logOut\<close> holds the bytes given to the log file
  and \<open>logged\<close> the lines accepted; the size of the buffers, a template argument in the code, and
  the text of the message about dropped buffers are arguments.
\<close>

section \<open>State and operations\<close>

datatype backend = Idle | Writing | Stopped

record AsyncLogging =
  running :: bool
  curBuffer :: "FixedBuffer option"
  nextBuffer :: "FixedBuffer option"
  buffers :: "FixedBuffer list"
  newBuffer1 :: "FixedBuffer option"
  newBuffer2 :: "FixedBuffer option"
  buffersToWrite :: "FixedBuffer list"
  backend :: backend
  logOut :: string
  logged :: string
  dropped :: bool

definition MaxBuffersToWriteSize :: nat where "MaxBuffersToWriteSize = 32"

definition buf_ptr :: "FixedBuffer option \<Rightarrow> FixedBuffer res" where
  "buf_ptr p = (case p of None \<Rightarrow> Inl NullDereference | Some b \<Rightarrow> Inr b)"

definition AsyncLogging_new :: "nat \<Rightarrow> AsyncLogging" where
  "AsyncLogging_new cap =
     \<lparr>running = False, curBuffer = Some (FixedBuffer_new cap), nextBuffer = Some (FixedBuffer_new cap),
      buffers = [], newBuffer1 = None, newBuffer2 = None, buffersToWrite = [], backend = Idle,
      logOut = [], logged = [], dropped = False\<rparr>"

text \<open>\<open>start()\<close> waits until the back-end thread has made its two spare buffers.\<close>

definition al_start :: "bool \<Rightarrow> nat \<Rightarrow> AsyncLogging \<Rightarrow> AsyncLogging res" where
  "al_start nd cap s =
     rbind (cassert nd (\<not> running s)) (\<lambda>_.
       Inr (s\<lparr>running := True, newBuffer1 := Some (fb_bzero (FixedBuffer_new cap)),
              newBuffer2 := Some (fb_bzero (FixedBuffer_new cap))\<rparr>))"

definition AsyncLogging_start :: "nat \<Rightarrow> AsyncLogging" where
  "AsyncLogging_start cap = (AsyncLogging_new cap)\<lparr>running := True, newBuffer1 := Some (fb_bzero (FixedBuffer_new cap)),
     newBuffer2 := Some (fb_bzero (FixedBuffer_new cap))\<rparr>"

lemma al_start_new [simp]: "al_start nd cap (AsyncLogging_new cap) = Inr (AsyncLogging_start cap)"
  by (simp add: al_start_def AsyncLogging_start_def AsyncLogging_new_def)

definition al_append :: "nat \<Rightarrow> AsyncLogging \<Rightarrow> string \<Rightarrow> AsyncLogging res" where
  "al_append cap s line =
     rbind (buf_ptr (curBuffer s)) (\<lambda>cur.
       if avail cur > length line then
         rbind (fb_append cur line) (\<lambda>b. Inr (s\<lparr>curBuffer := Some b, logged := logged s @ line\<rparr>))
       else
         let s1 = s\<lparr>buffers := buffers s @ [cur]\<rparr>;
             s2 = (case nextBuffer s1 of
                     Some nb \<Rightarrow> s1\<lparr>curBuffer := Some nb, nextBuffer := None\<rparr>
                   | None \<Rightarrow> s1\<lparr>curBuffer := Some (fb_bzero (FixedBuffer_new cap))\<rparr>)
         in rbind (buf_ptr (curBuffer s2)) (\<lambda>c2.
            rbind (fb_append c2 line) (\<lambda>b.
            Inr (s2\<lparr>curBuffer := Some b,
                    logged := logged s2 @ (if avail c2 > length line then line else [])\<rparr>))))"

text \<open>\<open>stop()\<close> up to the join, and the destructor.\<close>

definition al_stop :: "bool \<Rightarrow> AsyncLogging \<Rightarrow> AsyncLogging res" where
  "al_stop nd s = rbind (cassert nd (running s)) (\<lambda>_. Inr (s\<lparr>running := False\<rparr>))"

lemma al_stop_result: "al_stop nd s = Inr s' \<Longrightarrow> s' = s\<lparr>running := False\<rparr>"
  by (auto simp: al_stop_def)

definition al_destroy :: "bool \<Rightarrow> AsyncLogging \<Rightarrow> AsyncLogging res" where
  "al_destroy nd s = (if running s then al_stop nd s else Inr s)"

text \<open>The back end: the section under the mutex, with the asserts before it.\<close>

definition al_swap :: "bool \<Rightarrow> AsyncLogging \<Rightarrow> AsyncLogging res" where
  "al_swap nd s =
     rbind (cassert nd (case newBuffer1 s of None \<Rightarrow> False | Some b \<Rightarrow> fb_length b = 0)) (\<lambda>_.
     rbind (cassert nd (case newBuffer2 s of None \<Rightarrow> False | Some b \<Rightarrow> fb_length b = 0)) (\<lambda>_.
     rbind (cassert nd (buffersToWrite s = [])) (\<lambda>_.
     rbind (buf_ptr (curBuffer s)) (\<lambda>cur.
       let s1 = s\<lparr>buffers := buffers s @ [cur], curBuffer := newBuffer1 s, newBuffer1 := None\<rparr>;
           s2 = (if nextBuffer s1 = None then s1\<lparr>nextBuffer := newBuffer2 s1, newBuffer2 := None\<rparr> else s1)
       in Inr (s2\<lparr>buffersToWrite := buffers s2, buffers := [], backend := Writing\<rparr>)))))"

text \<open>Writing without the mutex: too many buffers are dropped, the others go to the log file, and
  the spare buffers are taken from the end of the list.\<close>

definition drop_excess :: "(nat \<Rightarrow> string) \<Rightarrow> AsyncLogging \<Rightarrow> AsyncLogging" where
  "drop_excess msg s =
     (if length (buffersToWrite s) > MaxBuffersToWriteSize
      then s\<lparr>logOut := logOut s @ msg (length (buffersToWrite s) - 2),
             buffersToWrite := take 2 (buffersToWrite s), dropped := True\<rparr>
      else s)"

definition last_buffer :: "FixedBuffer list \<Rightarrow> FixedBuffer res" where
  "last_buffer bs = (if bs = [] then Inl OutOfBounds else Inr (last bs))"

definition al_recycle :: "AsyncLogging \<Rightarrow> AsyncLogging res" where
  "al_recycle s =
     rbind (if newBuffer1 s = None
            then rbind (last_buffer (buffersToWrite s)) (\<lambda>b.
                 Inr (s\<lparr>newBuffer1 := Some (fb_reset b), buffersToWrite := butlast (buffersToWrite s)\<rparr>))
            else Inr s) (\<lambda>s1.
     rbind (if newBuffer2 s1 = None
            then rbind (last_buffer (buffersToWrite s1)) (\<lambda>b. Inr (s1\<lparr>newBuffer2 := Some (fb_reset b)\<rparr>))
            else Inr s1) (\<lambda>s2.
     Inr (s2\<lparr>buffersToWrite := []\<rparr>)))"

definition al_write :: "(nat \<Rightarrow> string) \<Rightarrow> AsyncLogging \<Rightarrow> AsyncLogging res" where
  "al_write msg s =
     (let s1 = drop_excess msg s;
          s2 = s1\<lparr>logOut := logOut s1 @ concat (map fb_text (buffersToWrite s1))\<rparr>
      in rbind (al_recycle s2) (\<lambda>s3. Inr (s3\<lparr>backend := Idle\<rparr>)))"

inductive al_step :: "nat \<Rightarrow> (nat \<Rightarrow> string) \<Rightarrow> AsyncLogging \<Rightarrow> AsyncLogging \<Rightarrow> bool" for cap msg where
  appended: "al_append cap s line = Inr s' \<Longrightarrow> al_step cap msg s s'"
| swapped: "backend s = Idle \<Longrightarrow> running s \<Longrightarrow> al_swap False s = Inr s' \<Longrightarrow> al_step cap msg s s'"
| wrote: "backend s = Writing \<Longrightarrow> al_write msg s = Inr s' \<Longrightarrow> al_step cap msg s s'"
| stopped: "al_stop nd s = Inr s' \<Longrightarrow> al_step cap msg s s'"
| left: "backend s = Idle \<Longrightarrow> \<not> running s \<Longrightarrow> al_step cap msg s (s\<lparr>backend := Stopped\<rparr>)"

inductive al_reachable :: "nat \<Rightarrow> (nat \<Rightarrow> string) \<Rightarrow> AsyncLogging \<Rightarrow> bool" for cap msg where
  started: "al_reachable cap msg (AsyncLogging_start cap)"
| step: "al_reachable cap msg s \<Longrightarrow> al_step cap msg s s' \<Longrightarrow> al_reachable cap msg s'"

section \<open>Invariant\<close>

text \<open>
  There is always a current buffer; the next buffer is only missing while a full one waits; the
  back end owns two empty buffers when it is idle, and while it writes it has enough buffers
  in its list to get the missing ones back.
\<close>

definition empty_buf :: "nat \<Rightarrow> FixedBuffer \<Rightarrow> bool" where
  "empty_buf cap b \<longleftrightarrow> fb_inv cap b \<and> fb_cur b = 0"

definition opt_all :: "('a \<Rightarrow> bool) \<Rightarrow> 'a option \<Rightarrow> bool" where
  "opt_all P x = (case x of None \<Rightarrow> True | Some y \<Rightarrow> P y)"

definition al_inv :: "nat \<Rightarrow> AsyncLogging \<Rightarrow> bool" where
  "al_inv cap s \<longleftrightarrow>
     (\<exists>c. curBuffer s = Some c \<and> fb_inv cap c)
     \<and> opt_all (empty_buf cap) (nextBuffer s) \<and> (nextBuffer s = None \<longrightarrow> buffers s \<noteq> [])
     \<and> list_all (fb_inv cap) (buffers s @ buffersToWrite s)
     \<and> opt_all (empty_buf cap) (newBuffer1 s) \<and> opt_all (empty_buf cap) (newBuffer2 s)
     \<and> (backend s = Writing \<longrightarrow> newBuffer1 s = None \<and> buffersToWrite s \<noteq> []
          \<and> (newBuffer2 s = None \<longrightarrow> 2 \<le> length (buffersToWrite s)))
     \<and> (backend s \<noteq> Writing \<longrightarrow> newBuffer1 s \<noteq> None \<and> newBuffer2 s \<noteq> None \<and> buffersToWrite s = [])"

text \<open>The bytes on their way, in order.\<close>

definition al_stream :: "AsyncLogging \<Rightarrow> string" where
  "al_stream s = logOut s @ concat (map fb_text (buffersToWrite s)) @ concat (map fb_text (buffers s))
     @ (case curBuffer s of None \<Rightarrow> [] | Some c \<Rightarrow> fb_text c)"

lemma empty_new: "empty_buf cap (fb_bzero (FixedBuffer_new cap))" "empty_buf cap (FixedBuffer_new cap)"
  by (simp_all add: empty_buf_def fb_inv_def fb_bzero_def FixedBuffer_new_def)

lemma empty_text: "empty_buf cap b \<Longrightarrow> fb_text b = []"
  by (simp add: empty_buf_def fb_text_def)

lemma empty_reset: "fb_inv cap b \<Longrightarrow> empty_buf cap (fb_reset b)"
  by (simp add: empty_buf_def fb_inv_def fb_reset_def)

lemma empty_avail: "empty_buf cap b \<Longrightarrow> avail b = cap"
  by (simp add: empty_buf_def fb_inv_def avail_def)

lemma al_append_ok:
  assumes "al_inv cap s"
  shows "\<exists>s'. al_append cap s line = Inr s' \<and> al_inv cap s'
    \<and> (al_stream s = logged s \<longrightarrow> al_stream s' = logged s')
    \<and> logged s' = logged s @ (if length line < cap then line else [])
    \<and> dropped s' = dropped s \<and> running s' = running s"
proof -
  obtain c where c: "curBuffer s = Some c" "fb_inv cap c" using assms by (auto simp: al_inv_def)
  show ?thesis
  proof (cases "length line < avail c")
    case True
    then obtain b where b: "fb_append c line = Inr b" "fb_inv cap b" "fb_text b = fb_text c @ line"
      using fb_append_ok [OF c(2), of line] by auto
    have "length line < cap" using True avail_eq [OF c(2)] by simp
    then show ?thesis
      using True c b assms by (simp add: al_append_def buf_ptr_def al_inv_def al_stream_def)
  next
    case False
    define nb where "nb = (case nextBuffer s of Some nb \<Rightarrow> nb | None \<Rightarrow> fb_bzero (FixedBuffer_new cap))"
    have nb: "empty_buf cap nb"
      using assms empty_new by (auto simp: nb_def al_inv_def opt_all_def split: option.splits)
    then have "fb_inv cap nb" by (simp add: empty_buf_def)
    from fb_append_ok [OF this, of line] obtain b where b: "fb_append nb line = Inr b" "fb_inv cap b"
      "fb_text b = (if length line < cap then line else [])"
      using empty_text [OF nb] empty_avail [OF nb] by auto
    let ?s' = "s\<lparr>buffers := buffers s @ [c], curBuffer := Some b, nextBuffer := None,
        logged := logged s @ (if length line < cap then line else [])\<rparr>"
    have "al_append cap s line = Inr ?s'"
      using False c b(1) empty_avail [OF nb]
      by (cases "nextBuffer s") (simp_all add: al_append_def buf_ptr_def nb_def Let_def)
    moreover have "al_inv cap ?s'" using assms c b(2) by (auto simp: al_inv_def opt_all_def)
    ultimately show ?thesis using b(3) c by (auto simp: al_stream_def)
  qed
qed

lemma al_swap_ok:
  assumes "al_inv cap s" "backend s = Idle"
  shows "\<exists>s'. al_swap nd s = Inr s' \<and> al_inv cap s' \<and> al_stream s' = al_stream s
    \<and> logged s' = logged s \<and> dropped s' = dropped s \<and> backend s' = Writing"
proof -
  obtain c n1 n2 where c: "curBuffer s = Some c" "fb_inv cap c" "newBuffer1 s = Some n1" "newBuffer2 s = Some n2"
    "buffersToWrite s = []"
    using assms by (auto simp: al_inv_def)
  have n: "empty_buf cap n1" "empty_buf cap n2" using assms c by (auto simp: al_inv_def opt_all_def)
  then have z: "fb_length n1 = 0" "fb_length n2 = 0" "fb_inv cap n1" "fb_text n1 = []"
    using empty_text by (auto simp: empty_buf_def fb_length_def)
  show ?thesis
  proof (cases "nextBuffer s = None")
    case True
    then have "buffers s \<noteq> []" using assms by (auto simp: al_inv_def)
    then show ?thesis
      using True assms c n z
      by (cases "buffers s") (auto simp: al_swap_def buf_ptr_def al_inv_def opt_all_def al_stream_def Let_def)
  next
    case False
    then show ?thesis
      using assms c n z by (auto simp: al_swap_def buf_ptr_def al_inv_def opt_all_def al_stream_def Let_def)
  qed
qed

lemma al_write_ok:
  assumes "al_inv cap s" "backend s = Writing"
  shows "\<exists>s'. al_write msg s = Inr s' \<and> al_inv cap s' \<and> backend s' = Idle \<and> logged s' = logged s
    \<and> buffersToWrite s' = [] \<and> curBuffer s' = curBuffer s
    \<and> dropped s' = (dropped s \<or> length (buffersToWrite s) > MaxBuffersToWriteSize)
    \<and> (\<not> dropped s' \<longrightarrow> al_stream s' = al_stream s)"
proof -
  define s1 where "s1 = drop_excess msg s"
  define s2 where "s2 = s1\<lparr>logOut := logOut s1 @ concat (map fb_text (buffersToWrite s1))\<rparr>"
  have w: "newBuffer1 s = None" "buffersToWrite s \<noteq> []" "newBuffer2 s = None \<longrightarrow> 2 \<le> length (buffersToWrite s)"
    "list_all (fb_inv cap) (buffersToWrite s)"
    using assms by (auto simp: al_inv_def)
  have w2: "newBuffer1 s2 = None" "newBuffer2 s2 = newBuffer2 s" "buffersToWrite s2 \<noteq> []"
    "newBuffer2 s2 = None \<longrightarrow> 2 \<le> length (buffersToWrite s2)" "list_all (fb_inv cap) (buffersToWrite s2)"
    using w by (auto simp: s2_def s1_def drop_excess_def MaxBuffersToWriteSize_def list_all_iff
        dest: in_set_takeD)
  have fr: "logged s2 = logged s" "curBuffer s2 = curBuffer s" "buffers s2 = buffers s" "nextBuffer s2 = nextBuffer s"
    "dropped s2 = (dropped s \<or> length (buffersToWrite s) > MaxBuffersToWriteSize)"
    by (auto simp: s2_def s1_def drop_excess_def)
  have b1: "empty_buf cap (fb_reset (last (buffersToWrite s2)))"
    using w2(3,5) by (intro empty_reset) (auto simp: list_all_iff)
  define bs where "bs = butlast (buffersToWrite s2)"
  have b2: "newBuffer2 s = None \<Longrightarrow> bs \<noteq> [] \<and> empty_buf cap (fb_reset (last bs))"
  proof -
    assume "newBuffer2 s = None"
    then have "2 \<le> length (buffersToWrite s2)" using w2 by auto
    then have ne: "bs \<noteq> []" unfolding bs_def
      by (metis length_butlast list.size(3) One_nat_def Suc_1 diff_is_0_eq not_less_eq_eq)
    then have "last bs \<in> set (buffersToWrite s2)" using in_set_butlastD last_in_set bs_def by metis
    then show ?thesis using ne w2(5) by (auto simp: list_all_iff intro: empty_reset)
  qed
  let ?n1 = "Some (fb_reset (last (buffersToWrite s2)))"
  let ?n2 = "if newBuffer2 s = None then Some (fb_reset (last bs)) else newBuffer2 s"
  let ?s' = "s2\<lparr>newBuffer1 := ?n1, newBuffer2 := ?n2, buffersToWrite := [], backend := Idle\<rparr>"
  have "al_recycle s2 = Inr (s2\<lparr>newBuffer1 := ?n1, newBuffer2 := ?n2, buffersToWrite := []\<rparr>)"
    using w2 b2 by (auto simp: al_recycle_def last_buffer_def bs_def)
  then have run: "al_write msg s = Inr ?s'" by (simp add: al_write_def s1_def [symmetric] s2_def [symmetric] Let_def)
  have inv: "al_inv cap ?s'"
    using assms(1) fr b1 b2 by (auto simp: al_inv_def opt_all_def)
  have str: "al_stream ?s' = al_stream s" if "\<not> dropped ?s'"
    using that fr by (auto simp: al_stream_def s2_def s1_def drop_excess_def)
  show ?thesis using run inv str fr by (intro exI [of _ ?s']) auto
qed

lemma al_step_inv:
  assumes "al_step cap msg s s'" "al_inv cap s" "\<not> dropped s \<longrightarrow> al_stream s = logged s"
  shows "al_inv cap s' \<and> (\<not> dropped s' \<longrightarrow> al_stream s' = logged s')"
  using assms
proof (induction rule: al_step.induct)
  case (appended s line s')
  then show ?case using al_append_ok [OF appended.prems(1), of line] by auto
next
  case (swapped s s')
  then show ?case using al_swap_ok [OF swapped.prems(1) swapped.hyps(1), of False] by auto
next
  case (wrote s s')
  then show ?case using al_write_ok [OF wrote.prems(1) wrote.hyps(1), of msg] by auto
next
  case (stopped nd s s')
  then show ?case using al_stop_result [OF stopped.hyps] by (simp add: al_inv_def al_stream_def)
next
  case (left s)
  then show ?case by (simp add: al_inv_def al_stream_def)
qed

lemma al_reachable_inv:
  "al_reachable cap msg s \<Longrightarrow> al_inv cap s \<and> (\<not> dropped s \<longrightarrow> al_stream s = logged s)"
proof (induction rule: al_reachable.induct)
  case started
  have "fb_inv cap (FixedBuffer_new cap)" "fb_text (FixedBuffer_new cap) = []"
    using empty_new(2) empty_text by (auto simp: empty_buf_def)
  then show ?case
    using empty_new by (simp add: AsyncLogging_start_def AsyncLogging_new_def al_inv_def al_stream_def opt_all_def)
next
  case (step s s')
  then show ?case using al_step_inv by blast
qed

section \<open>Properties\<close>

text \<open>The buffers never run out under the back end and no log line is lost or reordered on
  its way: in every reachable state the bytes given to the file, then those of the buffers being
  written, of the full buffers and of the current buffer are the accepted lines in the order of
  their appends (as long as no buffers were dropped for being more than 32). A line is accepted
  if it is shorter than a buffer. No step meets an empty pointer, an empty list or a failing
  assert.\<close>

theorem async_log_stream:
  assumes "al_reachable cap msg s"
  shows "(\<not> dropped s \<longrightarrow> al_stream s = logged s)
    \<and> (\<exists>s'. al_append cap s line = Inr s' \<and> logged s' = logged s @ (if length line < cap then line else []))
    \<and> (backend s = Idle \<longrightarrow> (\<exists>s'. al_swap False s = Inr s'))
    \<and> (backend s = Writing \<longrightarrow> (\<exists>s'. al_write msg s = Inr s'))"
proof -
  have inv: "al_inv cap s" "\<not> dropped s \<longrightarrow> al_stream s = logged s" using al_reachable_inv [OF assms] by auto
  show ?thesis
    using inv(2) al_append_ok [OF inv(1), of line] al_swap_ok [OF inv(1), of False] al_write_ok [OF inv(1), of msg]
    by blast
qed

lemma demo_logging:
  "\<exists>s. al_reachable 8 (\<lambda>n. []) s \<and> logged s = ''abc'' \<and> \<not> dropped s \<and> backend s = Idle"
proof -
  obtain s where s: "al_append 8 (AsyncLogging_start 8) ''abc'' = Inr s" "logged s = ''abc''" "\<not> dropped s"
    using al_append_ok [of 8 "AsyncLogging_start 8" "''abc''"] al_reachable_inv [OF al_reachable.started [of 8 "\<lambda>n. []"]]
    by (auto simp: AsyncLogging_start_def AsyncLogging_new_def)
  have "backend s = Idle" using s(1)
    by (auto simp: al_append_def AsyncLogging_start_def AsyncLogging_new_def buf_ptr_def Let_def split: if_splits)
  then show ?thesis using al_reachable.step [OF al_reachable.started al_step.appended [OF s(1)]] s by blast
qed

theorem async_log_stream_witness:
  "\<exists>s. al_reachable 8 (\<lambda>n. []) s \<and> al_stream s = ''abc'' \<and> (\<exists>s'. al_swap False s = Inr s')"
proof -
  obtain s where s: "al_reachable 8 (\<lambda>n. []) s" "logged s = ''abc''" "\<not> dropped s" "backend s = Idle"
    using demo_logging by blast
  then show ?thesis using async_log_stream [OF s(1)] by auto
qed

text \<open>Lines are lost when logging stops: after \<open>stop()\<close> the idle back end leaves its loop
  without a last swap, so what the front ends appended since the last swap is accepted and
  never reaches the log file.\<close>

theorem stop_loses_lines:
  assumes "0 < length line" "length line < cap"
  shows "\<exists>s. al_reachable cap msg s \<and> backend s = Stopped \<and> logged s = line \<and> logOut s = [] \<and> \<not> dropped s
    \<and> (\<forall>s'. al_step cap msg s s' \<longrightarrow> logOut s' = logOut s \<and> backend s' = Stopped)"
proof -
  let ?s0 = "AsyncLogging_start cap"
  have i0: "al_inv cap ?s0" using al_reachable_inv [OF al_reachable.started] by blast
  obtain s1 where s1: "al_append cap ?s0 line = Inr s1" "logged s1 = line" "\<not> dropped s1"
    using al_append_ok [OF i0, of line] assms(2) by (auto simp: AsyncLogging_start_def AsyncLogging_new_def)
  have b1: "backend s1 = Idle" "logOut s1 = []" using s1(1)
    by (auto simp: al_append_def AsyncLogging_start_def AsyncLogging_new_def buf_ptr_def Let_def split: if_splits)
  let ?s1 = "s1\<lparr>running := False\<rparr>" and ?s = "s1\<lparr>running := False, backend := Stopped\<rparr>"
  have st: "al_stop True s1 = Inr ?s1" by (simp add: al_stop_def)
  have r1: "al_reachable cap msg s1" by (rule al_reachable.step [OF al_reachable.started al_step.appended [OF s1(1)]])
  have r2: "al_reachable cap msg ?s1" by (rule al_reachable.step [OF r1 al_step.stopped [OF st]])
  have "al_step cap msg ?s1 ?s" using al_step.left [of ?s1 cap msg] b1 by simp
  then have r3: "al_reachable cap msg ?s" by (rule al_reachable.step [OF r2])
  have fin: "logOut s' = logOut ?s \<and> backend s' = Stopped" if "al_step cap msg ?s s'" for s'
    using that
  proof (cases rule: al_step.cases)
    case (appended line)
    then show ?thesis
      by (auto simp: al_append_def buf_ptr_def Let_def split: option.splits if_splits)
  qed (auto simp: al_stop_def)
  show ?thesis
    using r3 fin s1 b1 by (intro exI [of _ ?s]) (auto simp: al_stop_def)
qed

theorem stop_loses_lines_witness:
  "\<exists>s. al_reachable 8 (\<lambda>n. []) s \<and> backend s = Stopped \<and> logged s = ''abc'' \<and> logOut s = []"
  using stop_loses_lines [of "''abc''" 8 "\<lambda>n. []"] by auto

end
