(* ===== verification/LogFile.thy ===== *)
theory LogFile
  imports Timestamp
begin

text \<open>
  \<^verbatim>\<open>base/FileUtil.h/.cpp\<close> and \<^verbatim>\<open>base/LogFile.h/.cpp\<close>: appending to a file and rolling to a new one.
  The results of \<open>fwrite_unlocked\<close> and \<open>ferror\<close> are a list, one entry for each call (how many
  bytes the stream is willing to take, and the error flag); when the list is used up the loop is
  still running, which is the value \<open>None\<close>. \<open>written\<close> holds the bytes the stream took,
  \<open>onDisk\<close> how many of them were flushed.
\<close>

section \<open>AppendFile\<close>

record AppendFile =
  writtenBytes :: nat
  written :: string
  onDisk :: nat

definition AppendFile_new :: AppendFile where
  "AppendFile_new = \<lparr>writtenBytes = 0, written = [], onDisk = 0\<rparr>"

definition file_flush :: "AppendFile \<Rightarrow> AppendFile" where
  "file_flush f = f\<lparr>onDisk := length (written f)\<rparr>"

text \<open>One call of \<open>write_\<close> on the data from an offset: the bytes taken.\<close>

definition write_unlocked :: "AppendFile \<Rightarrow> string \<Rightarrow> nat \<Rightarrow> nat \<times> AppendFile" where
  "write_unlocked f d n = (let k = min n (length d) in (k, f\<lparr>written := written f @ take k d\<rparr>))"

fun append_loop :: "AppendFile \<Rightarrow> string \<Rightarrow> nat \<Rightarrow> (nat \<times> bool) list \<Rightarrow> (nat \<times> AppendFile \<times> (nat \<times> bool) list) option" where
  "append_loop f data sz [] = (if szsub (length data) sz > 0 then None else Some (sz, f, []))"
| "append_loop f data sz ((r, ferr) # rs) =
     (if szsub (length data) sz > 0 then
        case write_unlocked f (drop sz data) r of
          (n, f1) \<Rightarrow>
            if n = 0 \<and> ferr then Some (sz, f1\<lparr>writtenBytes := szadd (writtenBytes f1) sz\<rparr>, rs)
            else append_loop f1 data (sz + n) rs
      else Some (sz, f, (r, ferr) # rs))"

definition file_append :: "AppendFile \<Rightarrow> string \<Rightarrow> (nat \<times> bool) list \<Rightarrow> (AppendFile \<times> (nat \<times> bool) list) option" where
  "file_append f data rs =
     (case rs of
        [] \<Rightarrow> None
      | (r, _) # rs1 \<Rightarrow>
          (case write_unlocked f data r of
             (n, f1) \<Rightarrow>
               (case append_loop f1 data n rs1 of
                  None \<Rightarrow> None
                | Some (sz, f2, rs2) \<Rightarrow> Some (f2\<lparr>writtenBytes := szadd (writtenBytes f2) sz\<rparr>, rs2))))"

lemma append_loop_outcome:
  assumes "append_loop f data sz rs = Some (k, f', rs')" "sz \<le> length data"
  shows "sz \<le> k \<and> k \<le> length data \<and> written f' = written f @ take (k - sz) (drop sz data) \<and> onDisk f' = onDisk f
    \<and> writtenBytes f' = (if k = length data then writtenBytes f else szadd (writtenBytes f) k)"
  using assms
proof (induction f data sz rs rule: append_loop.induct)
  case (1 f data sz)
  then show ?case by (auto split: if_splits)
next
  case (2 f data sz r ferr rs)
  show ?case
  proof (cases "sz = length data")
    case True
    then show ?thesis using "2.prems" by simp
  next
    case False
    let ?n = "min r (length data - sz)"
    let ?f1 = "f\<lparr>written := written f @ take ?n (drop sz data)\<rparr>"
    have w: "write_unlocked f (drop sz data) r = (?n, ?f1)" by (simp add: write_unlocked_def Let_def)
    have pos: "szsub (length data) sz > 0" using False "2.prems"(2) by simp
    show ?thesis
    proof (cases "?n = 0 \<and> ferr")
      case True
      then have "k = sz" "f' = ?f1\<lparr>writtenBytes := szadd (writtenBytes f) sz\<rparr>"
        using "2.prems"(1) pos w by auto
      then show ?thesis using False True "2.prems"(2) by simp
    next
      case go: False
      then have rec: "append_loop ?f1 data (sz + ?n) rs = Some (k, f', rs')"
        using "2.prems"(1) pos w by (auto split: if_splits)
      have le: "sz + ?n \<le> length data" using "2.prems"(2) by simp
      have ih: "sz + ?n \<le> k" "k \<le> length data"
        "written f' = written ?f1 @ take (k - (sz + ?n)) (drop (sz + ?n) data)" "onDisk f' = onDisk ?f1"
        "writtenBytes f' = (if k = length data then writtenBytes ?f1 else szadd (writtenBytes ?f1) k)"
        using "2.IH" [OF pos w [symmetric] go rec le] by simp_all
      have "take ?n (drop sz data) @ take (k - (sz + ?n)) (drop (sz + ?n) data) = take (k - sz) (drop sz data)"
        using take_add [of ?n "k - (sz + ?n)" "drop sz data"] ih(1) by (simp add: add.commute)
      then show ?thesis using ih by simp
    qed
  qed
qed

lemma append_loop_returns:
  assumes "list_all (\<lambda>(r, e). 0 < r \<or> e) rs" "length data - sz \<le> length rs" "sz \<le> length data"
  shows "\<exists>x. append_loop f data sz rs = Some x"
  using assms
proof (induction f data sz rs rule: append_loop.induct)
  case (1 f data sz)
  then show ?case by simp
next
  case (2 f data sz r ferr rs)
  show ?case
  proof (cases "sz = length data")
    case True
    then show ?thesis by simp
  next
    case False
    let ?n = "min r (length data - sz)"
    let ?f1 = "f\<lparr>written := written f @ take ?n (drop sz data)\<rparr>"
    have w: "write_unlocked f (drop sz data) r = (?n, ?f1)" by (simp add: write_unlocked_def Let_def)
    have pos: "szsub (length data) sz > 0" using False "2.prems"(3) by simp
    show ?thesis
    proof (cases "?n = 0 \<and> ferr")
      case True
      then show ?thesis using pos w by auto
    next
      case go: False
      then have "0 < ?n" using "2.prems" False by auto
      then have "\<exists>x. append_loop ?f1 data (sz + ?n) rs = Some x"
        using "2.IH" [OF pos w [symmetric] go] "2.prems" by auto
      then show ?thesis using pos w go by auto
    qed
  qed
qed

text \<open>The answers are used in order, no more of them than bytes are missing if each makes progress; and
  without an error the loop ends with all of the data written.\<close>

lemma append_loop_answers:
  assumes "append_loop f data sz rs = Some (k, f', rs')" "sz \<le> length data"
  shows "\<exists>us. rs = us @ rs' \<and> (list_all (\<lambda>(r, e). \<not> e) rs \<longrightarrow> k = length data)
    \<and> (list_all (\<lambda>(r, e). 0 < r) rs \<longrightarrow> length us \<le> length data - sz)"
  using assms
proof (induction f data sz rs rule: append_loop.induct)
  case (1 f data sz)
  then show ?case by (auto split: if_splits)
next
  case (2 f data sz r ferr rs)
  let ?n = "min r (length data - sz)"
  let ?f1 = "f\<lparr>written := written f @ take ?n (drop sz data)\<rparr>"
  have w: "write_unlocked f (drop sz data) r = (?n, ?f1)" by (simp add: write_unlocked_def Let_def)
  consider "sz = length data" | "sz < length data" "?n = 0 \<and> ferr" | "sz < length data" "\<not> (?n = 0 \<and> ferr)"
    using "2.prems"(2) by linarith
  then show ?case
  proof cases
    case 1
    then show ?thesis using "2.prems" by simp
  next
    case stop: 2
    then show ?thesis using "2.prems" w by (intro exI [of _ "[(r, ferr)]"]) auto
  next
    case go: 3
    then have pos: "szsub (length data) sz > 0" by simp
    have rec: "append_loop ?f1 data (sz + ?n) rs = Some (k, f', rs')"
      using "2.prems"(1) pos w go(2) by (auto split: if_splits)
    have "sz + ?n \<le> length data" using go(1) by simp
    from "2.IH" [OF pos w [symmetric] go(2) rec this] obtain us where "rs = us @ rs'"
      "list_all (\<lambda>(r, e). \<not> e) rs \<longrightarrow> k = length data" "list_all (\<lambda>(r, e). 0 < r) rs \<longrightarrow> length us \<le> length data - (sz + ?n)" by blast
    then show ?thesis using go(1) by (intro exI [of _ "(r, ferr) # us"]) auto
  qed
qed

text \<open>What \<open>AppendFile::append\<close> has done when it returns, and that it returns.\<close>

lemma file_append_result:
  assumes "file_append f data rs = Some (f', rs')"
  shows "\<exists>k us. k \<le> length data \<and> written f' = written f @ take k data \<and> rs = us @ rs'
    \<and> (list_all (\<lambda>(r, e). \<not> e) rs \<longrightarrow> k = length data) \<and> (list_all (\<lambda>(r, e). 0 < r) rs \<longrightarrow> length us \<le> length data + 1)
    \<and> writtenBytes f' = (if k = length data then szadd (writtenBytes f) k else szadd (szadd (writtenBytes f) k) k)"
proof -
  obtain r e rs1 where rs: "rs = (r, e) # rs1" using assms by (cases rs) (auto simp: file_append_def)
  let ?n = "min r (length data)"
  let ?f1 = "f\<lparr>written := written f @ take ?n data\<rparr>"
  obtain k f2 where l: "append_loop ?f1 data ?n rs1 = Some (k, f2, rs')" "f' = f2\<lparr>writtenBytes := szadd (writtenBytes f2) k\<rparr>"
    using assms rs by (auto simp: file_append_def write_unlocked_def Let_def split: option.splits)
  note o = append_loop_outcome [OF l(1)]
  obtain us where us: "rs1 = us @ rs'" "list_all (\<lambda>(r, e). \<not> e) rs1 \<longrightarrow> k = length data"
    "list_all (\<lambda>(r, e). 0 < r) rs1 \<longrightarrow> length us \<le> length data - ?n"
    using append_loop_answers [OF l(1)] by auto
  have "take ?n data @ take (k - ?n) (drop ?n data) = take k data"
    using take_add [of ?n "k - ?n" data] o by simp
  then show ?thesis using rs l(2) o us by (intro exI [of _ k] exI [of _ "(r, e) # us"]) auto
qed

lemma file_append_returns:
  assumes "list_all (\<lambda>(r, e). 0 < r \<or> e) rs" "length data < length rs"
  shows "\<exists>f' rs'. file_append f data rs = Some (f', rs')"
proof -
  obtain r e rs1 where rs: "rs = (r, e) # rs1" using assms(2) by (cases rs) auto
  let ?n = "min r (length data)"
  have "length data - ?n \<le> length rs1" "list_all (\<lambda>(r, e). 0 < r \<or> e) rs1" using assms rs by auto
  then obtain k f2 rs2 where "append_loop (f\<lparr>written := written f @ take ?n data\<rparr>) data ?n rs1 = Some (k, f2, rs2)"
    using append_loop_returns [of rs1 data ?n] by fastforce
  then show ?thesis using rs by (auto simp: file_append_def write_unlocked_def Let_def)
qed

section \<open>LogFile\<close>

record LogFile =
  checkEveryN :: int
  count :: int
  rollSize :: int
  startOfPeriod :: int
  baseName :: string
  lf_mutex :: bool
  lf_file :: AppendFile
  lf_closed :: "AppendFile list"
  fileNames :: "string list"

record host_env =
  hostname :: string
  pid :: int

definition RollPerSeconds :: int where "RollPerSeconds = 60 * 60 * 24"

definition nextLogFileName :: "host_env \<Rightarrow> string \<Rightarrow> int \<Rightarrow> string" where
  "nextLogFileName h base now =
     (let t = gmtime now
      in base @ ''.'' @ fmt_zero 4 (tm_year t + 1900) @ fmt_zero 2 (tm_mon t + 1) @ fmt_zero 2 (tm_mday t)
         @ ''-'' @ fmt_zero 2 (tm_hour t) @ '':'' @ fmt_zero 2 (tm_min t) @ '':'' @ fmt_zero 2 (tm_sec t) @ ''.''
         @ hostname h @ ''.'' @ dec_int (pid h) @ ''.log'')"

definition rollFile :: "host_env \<Rightarrow> int \<Rightarrow> LogFile \<Rightarrow> LogFile" where
  "rollFile h now lf =
     lf\<lparr>startOfPeriod := now, fileNames := fileNames lf @ [nextLogFileName h (baseName lf) now],
        lf_closed := lf_closed lf @ [file_flush (lf_file lf)], lf_file := AppendFile_new\<rparr>"

definition LogFile_new :: "host_env \<Rightarrow> int \<Rightarrow> string \<Rightarrow> int \<Rightarrow> int \<Rightarrow> bool \<Rightarrow> LogFile" where
  "LogFile_new h now base roll every threadSafe =
     \<lparr>checkEveryN = every, count = 0, rollSize = roll, startOfPeriod = now, baseName = base,
      lf_mutex = threadSafe, lf_file = AppendFile_new, lf_closed = [], fileNames = [nextLogFileName h base now]\<rparr>"

text \<open>\<open>now\<close> is the time at the start of the call; a roll reads the clock again. The comparison of
  \<open>writtenBytes()\<close> with the \<open>int\<close> \<open>rollSize_\<close> is one of \<open>size_t\<close>.\<close>

definition append_unlocked :: "host_env \<Rightarrow> int \<Rightarrow> int \<Rightarrow> int \<Rightarrow> LogFile \<Rightarrow> string \<Rightarrow> (nat \<times> bool) list
    \<Rightarrow> (LogFile \<times> (nat \<times> bool) list) option" where
  "append_unlocked h now now1 now2 lf data rs =
     (let lf1 = (if now sdiv RollPerSeconds \<noteq> startOfPeriod lf sdiv RollPerSeconds
                 then rollFile h now1 (lf\<lparr>count := 0, lf_file := file_flush (lf_file lf)\<rparr>) else lf)
      in case file_append (lf_file lf1) data rs of
           None \<Rightarrow> None
         | Some (f, rs1) \<Rightarrow>
             let lf2 = lf1\<lparr>lf_file := f, count := count lf1 + 1\<rparr>;
                 full = (writtenBytes f \<ge> int_to_size (rollSize lf2))
             in if checkEveryN lf2 \<le> count lf2 \<or> full then
                  let lf3 = lf2\<lparr>count := 0, lf_file := file_flush f\<rparr>
                  in Some (if full then rollFile h now2 lf3 else lf3, rs1)
                else Some (lf2, rs1))"

text \<open>\<open>threadSafe_\<close> is one flag of the class: once a log file was made thread safe, every log file
  locks its mutex, also one that has none.\<close>

definition LogFile_append :: "bool \<Rightarrow> host_env \<Rightarrow> int \<Rightarrow> int \<Rightarrow> int \<Rightarrow> LogFile \<Rightarrow> string \<Rightarrow> (nat \<times> bool) list
    \<Rightarrow> (LogFile \<times> (nat \<times> bool) list) option res" where
  "LogFile_append threadSafe h now now1 now2 lf data rs =
     (if threadSafe \<and> \<not> lf_mutex lf then Inl NullDereference
      else Inr (append_unlocked h now now1 now2 lf data rs))"

definition LogFile_flush :: "bool \<Rightarrow> LogFile \<Rightarrow> LogFile res" where
  "LogFile_flush threadSafe lf =
     (if threadSafe \<and> \<not> lf_mutex lf then Inl NullDereference
      else Inr (lf\<lparr>lf_file := file_flush (lf_file lf)\<rparr>))"

text \<open>The destructors: a thread-safe log file only locks its mutex and frees it; then the members are
  destroyed, and \<open>fclose\<close> writes what the stream holds.\<close>

definition AppendFile_destroy :: "AppendFile \<Rightarrow> AppendFile" where
  "AppendFile_destroy f = file_flush f"

definition LogFile_destroy :: "bool \<Rightarrow> LogFile \<Rightarrow> LogFile res" where
  "LogFile_destroy threadSafe lf =
     rbind (if threadSafe then if lf_mutex lf then Inr lf else Inl NullDereference
            else if count lf > 0 then LogFile_flush threadSafe lf else Inr lf) (\<lambda>lf1.
       Inr (lf1\<lparr>lf_file := AppendFile_destroy (lf_file lf1)\<rparr>))"

text \<open>All bytes of the log, over the files closed and the current one.\<close>

definition log_bytes :: "LogFile \<Rightarrow> string" where
  "log_bytes lf = concat (map written (lf_closed lf)) @ written (lf_file lf)"

text \<open>Either way everything written is on disk when the log file is gone, unless a log file without a
  mutex is destroyed while the flag of the class is set.\<close>

lemma LogFile_destroy_flushes:
  "LogFile_destroy threadSafe lf = (if threadSafe \<and> \<not> lf_mutex lf then Inl NullDereference
     else Inr (lf\<lparr>lf_file := (lf_file lf)\<lparr>onDisk := length (written (lf_file lf))\<rparr>\<rparr>))"
  by (simp add: LogFile_destroy_def LogFile_flush_def AppendFile_destroy_def file_flush_def)

lemma log_bytes_roll [simp]: "log_bytes (rollFile h now lf) = log_bytes lf"
  by (simp add: log_bytes_def rollFile_def file_flush_def AppendFile_new_def)

text \<open>The files closed are on disk.\<close>

definition on_disk :: "AppendFile \<Rightarrow> bool" where
  "on_disk f \<longleftrightarrow> onDisk f = length (written f)"

lemma on_disk_flush [simp]: "on_disk (file_flush f)"
  by (simp add: on_disk_def file_flush_def)

text \<open>An append to the log: which bytes it adds, that a file that is full is closed at once, and that it returns.\<close>

lemma append_unlocked_result:
  assumes "append_unlocked h now now1 now2 lf data rs = Some (lf', rs')" "0 < rollSize lf" "rollSize lf < 2 ^ 31"
  shows "\<exists>k us. k \<le> length data \<and> log_bytes lf' = log_bytes lf @ take k data \<and> rs = us @ rs'
    \<and> (list_all (\<lambda>(r, e). \<not> e) rs \<longrightarrow> k = length data) \<and> (list_all (\<lambda>(r, e). 0 < r) rs \<longrightarrow> length us \<le> length data + 1)
    \<and> int (writtenBytes (lf_file lf')) < rollSize lf' \<and> rollSize lf' = rollSize lf \<and> lf_mutex lf' = lf_mutex lf
    \<and> (list_all on_disk (lf_closed lf) \<longrightarrow> list_all on_disk (lf_closed lf'))"
proof -
  define lf1 where "lf1 = (if now sdiv RollPerSeconds \<noteq> startOfPeriod lf sdiv RollPerSeconds
      then rollFile h now1 (lf\<lparr>count := 0, lf_file := file_flush (lf_file lf)\<rparr>) else lf)"
  have b1: "log_bytes lf1 = log_bytes lf" "rollSize lf1 = rollSize lf" "lf_mutex lf1 = lf_mutex lf"
    "list_all on_disk (lf_closed lf) \<longrightarrow> list_all on_disk (lf_closed lf1)"
    by (simp_all add: lf1_def log_bytes_def rollFile_def file_flush_def AppendFile_new_def on_disk_def)
  obtain f where f: "file_append (lf_file lf1) data rs = Some (f, rs')"
    using assms(1) by (auto simp: append_unlocked_def lf1_def Let_def split: option.splits if_splits)
  from file_append_result [OF this] obtain k us where k: "k \<le> length data" "written f = written (lf_file lf1) @ take k data"
    "rs = us @ rs'" "list_all (\<lambda>(r, e). \<not> e) rs \<longrightarrow> k = length data" "list_all (\<lambda>(r, e). 0 < r) rs \<longrightarrow> length us \<le> length data + 1"
    by blast
  have sz: "int_to_size (rollSize lf) = nat (rollSize lf)" using assms(2,3) by (simp add: int_to_size_def)
  have lf': "lf' = (let lf2 = lf1\<lparr>lf_file := f, count := count lf1 + 1\<rparr>;
                 full = (writtenBytes f \<ge> int_to_size (rollSize lf2))
             in if checkEveryN lf2 \<le> count lf2 \<or> full then
                  let lf3 = lf2\<lparr>count := 0, lf_file := file_flush f\<rparr>
                  in if full then rollFile h now2 lf3 else lf3 else lf2)"
    using assms(1) f by (auto simp: append_unlocked_def lf1_def [symmetric] Let_def)
  have "log_bytes lf' = log_bytes lf @ take k data"
    using k(2) b1(1) by (auto simp: lf' Let_def log_bytes_def rollFile_def file_flush_def AppendFile_new_def)
  moreover have "int (writtenBytes (lf_file lf')) < rollSize lf'" "rollSize lf' = rollSize lf" "lf_mutex lf' = lf_mutex lf"
    using assms(2) sz b1(2,3) by (auto simp: lf' Let_def rollFile_def file_flush_def AppendFile_new_def)
  moreover have "list_all on_disk (lf_closed lf) \<longrightarrow> list_all on_disk (lf_closed lf')"
    using b1(4) by (auto simp: lf' Let_def rollFile_def)
  ultimately show ?thesis using k by blast
qed

lemma append_unlocked_returns:
  assumes "list_all (\<lambda>(r, e). 0 < r \<or> e) rs" "length data < length rs"
  shows "\<exists>lf' rs'. append_unlocked h now now1 now2 lf data rs = Some (lf', rs')"
proof -
  obtain f rs' where "file_append (lf_file (if now sdiv RollPerSeconds \<noteq> startOfPeriod lf sdiv RollPerSeconds
      then rollFile h now1 (lf\<lparr>count := 0, lf_file := file_flush (lf_file lf)\<rparr>) else lf)) data rs = Some (f, rs')"
    using file_append_returns [OF assms] by blast
  then show ?thesis by (simp add: append_unlocked_def Let_def)
qed

section \<open>Properties\<close>

text \<open>\<open>AppendFile::append\<close> returns if every call of \<open>fwrite\<close> makes progress or reports an
  error, and then the file holds a prefix of the data behind what it held: the whole of it
  unless an error occurred. The count \<open>writtenBytes_\<close> grows by the length of the data, but after
  an error it grows by twice the number of bytes written.\<close>

theorem file_append_outcome:
  assumes "list_all (\<lambda>(r, e). 0 < r \<or> e) rs" "length data < length rs"
  shows "\<exists>f' rs' k. file_append f data rs = Some (f', rs') \<and> k \<le> length data
    \<and> written f' = written f @ take k data
    \<and> writtenBytes f' = (if k = length data then szadd (writtenBytes f) k
                         else szadd (szadd (writtenBytes f) k) k)"
proof -
  obtain f' rs' where "file_append f data rs = Some (f', rs')" using file_append_returns [OF assms] by blast
  with file_append_result [OF this] show ?thesis by blast
qed

theorem file_append_outcome_witness:
  "\<exists>f' rs' k. file_append AppendFile_new ''abc'' [(1, False), (1, False), (1, False), (5, False)] = Some (f', rs')
     \<and> k \<le> length ''abc'' \<and> written f' = take k ''abc''"
  using file_append_outcome [of "[(1, False), (1, False), (1, False), (5, False)]" "''abc''" AppendFile_new]
  by (auto simp: AppendFile_new_def)

text \<open>Rolling loses nothing and keeps the limit: after an append the bytes over all the files
  are those before followed by what the stream took of the data, and, whatever the clock says,
  the current file is below the roll size again.\<close>

theorem log_roll_keeps_bytes:
  assumes "append_unlocked h now now1 now2 lf data rs = Some (lf', rs')" "0 < rollSize lf" "rollSize lf < 2 ^ 31"
  shows "\<exists>k \<le> length data. log_bytes lf' = log_bytes lf @ take k data
    \<and> int (writtenBytes (lf_file lf')) < rollSize lf'"
  using append_unlocked_result [OF assms] by blast

theorem log_roll_keeps_bytes_witness:
  "\<exists>lf' rs' k. append_unlocked \<lparr>hostname = ''h'', pid = 1\<rparr> 5 5 6
       (LogFile_new \<lparr>hostname = ''h'', pid = 1\<rparr> 0 ''log'' 3 1024 False) ''abcd'' [(9, False)] = Some (lf', rs')
     \<and> log_bytes lf' = take k ''abcd''"
proof -
  let ?lf = "LogFile_new \<lparr>hostname = ''h'', pid = 1\<rparr> 0 ''log'' 3 1024 False"
  have "\<exists>x. append_unlocked \<lparr>hostname = ''h'', pid = 1\<rparr> 5 5 6 ?lf ''abcd'' [(9, False)] = Some x"
    by (simp add: append_unlocked_def LogFile_new_def RollPerSeconds_def signed_divide_int_def file_append_def
        write_unlocked_def Let_def)
  then obtain lf' rs' where a: "append_unlocked \<lparr>hostname = ''h'', pid = 1\<rparr> 5 5 6 ?lf ''abcd'' [(9, False)] = Some (lf', rs')"
    by auto
  have "log_bytes ?lf = []" by (simp add: log_bytes_def LogFile_new_def AppendFile_new_def)
  then show ?thesis using log_roll_keeps_bytes [OF a] a by (auto simp: LogFile_new_def)
qed

end
