(* ===== verification/LogChain.thy ===== *)
theory LogChain
  imports Logging AsyncLogging LogFile
begin

text \<open>
  The way of a log line through \<^verbatim>\<open>base/Logging.h/.cpp\<close>, \<^verbatim>\<open>base/AsyncLogging.cpp\<close>, \<^verbatim>\<open>base/LogFile.cpp\<close> and
  \<^verbatim>\<open>base/FileUtil.cpp\<close>, as \<open>main\<close> connects them: a statement of any thread formats its line and calls the
  output function, which appends it to the buffers; the back end swaps the buffers, appends them
  to the log file and flushes it. The three globals of \<open>Logger\<close> and the standard output, where the
  default functions write, are part of the state; \<open>sys_lines\<close> collects the lines of the statements
  that were enabled. A statement and each section of the back end is one step.
\<close>

section \<open>The globals of the logger\<close>

text \<open>The output function: the default one, the one of \<open>main\<close> or another, of which only the calls are known.\<close>

datatype OutputFunc = DefaultOutput | AsyncOutput | OtherOutput nat
datatype FlushFunc = DefaultFlush | OtherFlush nat

record log_sys =
  logLevel :: LogLevel
  g_output :: OutputFunc
  g_flush :: FlushFunc
  sys_stdout :: AppendFile
  sys_calls :: "(nat \<times> string) list"
  sys_async :: AsyncLogging
  sys_logFile :: LogFile
  sys_aborted :: bool
  sys_lines :: "string list"

definition setOutputFunc :: "OutputFunc \<Rightarrow> log_sys \<Rightarrow> log_sys" where
  "setOutputFunc func s = s\<lparr>g_output := func\<rparr>"

definition setFlushFunc :: "FlushFunc \<Rightarrow> log_sys \<Rightarrow> log_sys" where
  "setFlushFunc func s = s\<lparr>g_flush := func\<rparr>"

definition setLevel :: "LogLevel \<Rightarrow> log_sys \<Rightarrow> log_sys" where
  "setLevel level s = s\<lparr>logLevel := level\<rparr>"

definition defaultOutput :: "string \<Rightarrow> log_sys \<Rightarrow> log_sys" where
  "defaultOutput line s = s\<lparr>sys_stdout := snd (write_unlocked (sys_stdout s) line (length line))\<rparr>"

definition defaultFlush :: "log_sys \<Rightarrow> log_sys" where
  "defaultFlush s = s\<lparr>sys_stdout := file_flush (sys_stdout s)\<rparr>"

definition call_output :: "string \<Rightarrow> log_sys \<Rightarrow> log_sys res" where
  "call_output line s = (case g_output s of
     DefaultOutput \<Rightarrow> Inr (defaultOutput line s)
   | AsyncOutput \<Rightarrow> rbind (al_append LargeBuffer (sys_async s) line) (\<lambda>a. Inr (s\<lparr>sys_async := a\<rparr>))
   | OtherOutput n \<Rightarrow> Inr (s\<lparr>sys_calls := sys_calls s @ [(n, line)]\<rparr>))"

definition call_flush :: "log_sys \<Rightarrow> log_sys" where
  "call_flush s = (case g_flush s of DefaultFlush \<Rightarrow> defaultFlush s | OtherFlush n \<Rightarrow> s\<lparr>sys_calls := sys_calls s @ [(n, [])]\<rparr>)"

text \<open>A statement with the output function: the end of the destructor, after the line is formatted.\<close>

record log_call =
  lc_macro :: log_macro
  lc_errno :: int
  lc_errtext :: string
  lc_file :: string
  lc_line :: nat
  lc_time :: Timestamp
  lc_tid :: string
  lc_body :: "log_item list"

definition run_stmt :: "log_call \<Rightarrow> log_sys \<Rightarrow> log_sys res" where
  "run_stmt c s =
     rbind (log_stmt (logLevel s) (lc_macro c) (lc_errno c) (lc_errtext c) (lc_file c) (lc_line c) (lc_time c) (lc_tid c) (lc_body c)) (\<lambda>r.
       case r of
         None \<Rightarrow> Inr s
       | Some (line, fatal) \<Rightarrow>
           rbind (call_output line s) (\<lambda>s1.
             let s2 = s1\<lparr>sys_lines := sys_lines s1 @ [line]\<rparr>
             in Inr (if fatal then (call_flush s2)\<lparr>sys_aborted := True\<rparr> else s2)))"

section \<open>The back end and its log file\<close>

text \<open>The calls of \<open>LogFile::append\<close> in one round: \<open>clock i\<close> are the readings of the clock in the i-th of them.
  The result \<open>None\<close> is a round that still waits for an answer of \<open>fwrite\<close>.\<close>

fun append_each :: "host_env \<Rightarrow> (nat \<Rightarrow> int \<times> int \<times> int) \<Rightarrow> nat \<Rightarrow> LogFile \<Rightarrow> string list \<Rightarrow> (nat \<times> bool) list
    \<Rightarrow> (LogFile \<times> (nat \<times> bool) list) option res" where
  "append_each h clock i lf [] rs = Inr (Some (lf, rs))"
| "append_each h clock i lf (d # ds) rs =
     (case clock i of (now, now1, now2) \<Rightarrow>
        rbind (LogFile_append False h now now1 now2 lf d rs) (\<lambda>r.
          case r of None \<Rightarrow> Inr None | Some (lf1, rs1) \<Rightarrow> append_each h clock (i + 1) lf1 ds rs1))"

definition drop_message :: "Timestamp \<Rightarrow> nat \<Rightarrow> string" where
  "drop_message now n = ''Dropped log message at '' @ toFormattedString now True @ '', '' @ dec_nat n @ '' larger buffers'' @ [LF]"

text \<open>What one round gives to the log file.\<close>

definition round_texts :: "Timestamp \<Rightarrow> AsyncLogging \<Rightarrow> string list" where
  "round_texts now a =
     (if length (buffersToWrite a) > MaxBuffersToWriteSize
      then drop_message now (length (buffersToWrite a) - 2) # map fb_text (take 2 (buffersToWrite a))
      else map fb_text (buffersToWrite a))"

definition write_round :: "host_env \<Rightarrow> Timestamp \<Rightarrow> (nat \<Rightarrow> int \<times> int \<times> int) \<Rightarrow> (nat \<times> bool) list \<Rightarrow> log_sys \<Rightarrow> log_sys option res" where
  "write_round h now clock rs s =
     rbind (append_each h clock 0 (sys_logFile s) (round_texts now (sys_async s)) rs) (\<lambda>r.
       case r of
         None \<Rightarrow> Inr None
       | Some (lf, _) \<Rightarrow>
           rbind (al_write (drop_message now) (sys_async s)) (\<lambda>a.
           rbind (LogFile_flush False lf) (\<lambda>lf1.
             Inr (Some (s\<lparr>sys_async := a, sys_logFile := lf1\<rparr>)))))"

definition leave_loop :: "log_sys \<Rightarrow> log_sys res" where
  "leave_loop s = rbind (LogFile_flush False (sys_logFile s)) (\<lambda>lf.
     Inr (s\<lparr>sys_async := (sys_async s)\<lparr>backend := Stopped\<rparr>, sys_logFile := lf\<rparr>))"

text \<open>What \<open>main\<close> does with the logger before it makes the server; \<open>start\<close> waits until the back end has opened
  its log file.\<close>

definition main_rollSize :: int where "main_rollSize = 1024 * 1024 * 1024"
definition CHECKEVERY :: int where "CHECKEVERY = 1024"

definition main_logging :: "bool \<Rightarrow> host_env \<Rightarrow> int \<Rightarrow> LogLevel \<Rightarrow> string \<Rightarrow> log_sys res" where
  "main_logging nd h now level basename =
     (let s = \<lparr>logLevel = INFO, g_output = DefaultOutput, g_flush = DefaultFlush, sys_stdout = AppendFile_new, sys_calls = [],
               sys_async = AsyncLogging_new LargeBuffer,
               sys_logFile = LogFile_new h now basename main_rollSize CHECKEVERY False,
               sys_aborted = False, sys_lines = []\<rparr>;
          s1 = setOutputFunc AsyncOutput (setLevel level s)
      in rbind (al_start nd LargeBuffer (sys_async s1)) (\<lambda>a. Inr (s1\<lparr>sys_async := a\<rparr>)))"

section \<open>Steps\<close>

text \<open>The arguments of a statement are values of their C types; \<open>fwrite\<close> reports no error in a round.\<close>

definition call_ok :: "log_call \<Rightarrow> bool" where
  "call_ok c \<longleftrightarrow> - (2 ^ 31) \<le> lc_errno c \<and> lc_errno c < 2 ^ 31 \<and> lc_line c < 2 ^ 64 \<and> list_all item_range (lc_body c)"

inductive log_step :: "host_env \<Rightarrow> log_sys \<Rightarrow> log_sys \<Rightarrow> bool" for h where
  statement: "\<not> sys_aborted s \<Longrightarrow> call_ok c \<Longrightarrow> run_stmt c s = Inr s' \<Longrightarrow> log_step h s s'"
| swapped: "\<not> sys_aborted s \<Longrightarrow> backend (sys_async s) = Idle \<Longrightarrow> running (sys_async s) \<Longrightarrow> al_swap nd (sys_async s) = Inr a
    \<Longrightarrow> log_step h s (s\<lparr>sys_async := a\<rparr>)"
| wrote: "\<not> sys_aborted s \<Longrightarrow> backend (sys_async s) = Writing \<Longrightarrow> list_all (\<lambda>(r, e). \<not> e) rs
    \<Longrightarrow> write_round h now clock rs s = Inr (Some s') \<Longrightarrow> log_step h s s'"
| stopped: "\<not> sys_aborted s \<Longrightarrow> al_stop nd (sys_async s) = Inr a \<Longrightarrow> log_step h s (s\<lparr>sys_async := a\<rparr>)"
| left: "\<not> sys_aborted s \<Longrightarrow> backend (sys_async s) = Idle \<Longrightarrow> \<not> running (sys_async s) \<Longrightarrow> leave_loop s = Inr s' \<Longrightarrow> log_step h s s'"

inductive log_reachable :: "host_env \<Rightarrow> LogLevel \<Rightarrow> string \<Rightarrow> log_sys \<Rightarrow> bool" for h level basename where
  set_up: "main_logging nd h now level basename = Inr s \<Longrightarrow> log_reachable h level basename s"
| step: "log_reachable h level basename s \<Longrightarrow> log_step h s s' \<Longrightarrow> log_reachable h level basename s'"

inductive_cases log_stepE: "log_step h s s'"

section \<open>Invariant\<close>

text \<open>The bytes on their way from the front ends to the log file, in order.\<close>

definition in_flight :: "AsyncLogging \<Rightarrow> string" where
  "in_flight a = concat (map fb_text (buffersToWrite a)) @ concat (map fb_text (buffers a))
     @ (case curBuffer a of None \<Rightarrow> [] | Some c \<Rightarrow> fb_text c)"

definition file_ok :: "LogFile \<Rightarrow> bool" where
  "file_ok lf \<longleftrightarrow> rollSize lf = main_rollSize \<and> \<not> lf_mutex lf \<and> int (writtenBytes (lf_file lf)) < main_rollSize
     \<and> list_all on_disk (lf_closed lf)"

definition log_inv :: "log_sys \<Rightarrow> bool" where
  "log_inv s \<longleftrightarrow> al_inv LargeBuffer (sys_async s) \<and> g_output s = AsyncOutput \<and> g_flush s = DefaultFlush \<and> sys_stdout s = AppendFile_new
     \<and> file_ok (sys_logFile s) \<and> on_disk (lf_file (sys_logFile s)) \<and> log_bytes (sys_logFile s) = logOut (sys_async s)
     \<and> logged (sys_async s) = concat (sys_lines s) \<and> (\<not> dropped (sys_async s) \<longrightarrow> al_stream (sys_async s) = logged (sys_async s))"

lemma al_stream_split: "al_stream a = logOut a @ in_flight a"
  by (simp add: al_stream_def in_flight_def)

lemma al_append_frame: "al_append cap a line = Inr a' \<Longrightarrow> logOut a' = logOut a \<and> backend a' = backend a"
  by (cases "curBuffer a"; cases "nextBuffer a") (auto simp: al_append_def buf_ptr_def Let_def split: if_splits)

lemma al_swap_frame:
  "al_swap nd a = Inr a' \<Longrightarrow> logOut a' = logOut a \<and> buffers a' = [] \<and> curBuffer a' = newBuffer1 a
     \<and> length (buffersToWrite a') = length (buffers a) + 1"
  by (auto simp: al_swap_def Let_def split: if_splits)

lemma al_recycle_frame:
  "al_recycle a = Inr a' \<Longrightarrow> logOut a' = logOut a \<and> buffers a' = buffers a \<and> curBuffer a' = curBuffer a"
  by (auto simp: al_recycle_def split: if_splits)

lemma al_write_frame:
  assumes "al_write (drop_message now) a = Inr a'"
  shows "logOut a' = logOut a @ concat (round_texts now a) \<and> buffers a' = buffers a \<and> curBuffer a' = curBuffer a"
  using assms by (auto simp: al_write_def Let_def round_texts_def drop_excess_def dest!: al_recycle_frame)

section \<open>A statement\<close>

lemma stmt_safe:
  assumes "call_ok c"
  shows "\<exists>r. log_stmt level (lc_macro c) (lc_errno c) (lc_errtext c) (lc_file c) (lc_line c) (lc_time c) (lc_tid c) (lc_body c) = Inr r
    \<and> (\<forall>line fatal. r = Some (line, fatal) \<longrightarrow> length line < LargeBuffer \<and> fatal = (macro_level (lc_macro c) = FATAL))
    \<and> (r = None \<longleftrightarrow> \<not> macro_enabled level (lc_macro c))"
proof -
  let ?e = "if takes_errno (lc_macro c) then lc_errno c else 0"
  have 0: "fb_inv 4096 (FixedBuffer_new SmallBuffer)" by (simp add: fb_inv_def FixedBuffer_new_def SmallBuffer_def)
  have r: "- (2 ^ 31) \<le> ?e" "?e < 2 ^ 31" "lc_line c < 2 ^ 64" "list_all item_range (lc_body c)" using assms by (auto simp: call_ok_def)
  obtain b1 where b1: "put_all (FixedBuffer_new SmallBuffer) (head_items (lc_time c) (lc_tid c) (macro_level (lc_macro c)) ?e (lc_errtext c)) = Inr b1"
    "fb_inv 4096 b1" using put_all_safe [OF 0 head_range [OF r(1,2)]] by blast
  obtain b2 where b2: "put_all b1 (func_items (lc_macro c)) = Inr b2" "fb_inv 4096 b2" using put_all_safe [OF b1(2) func_range] by blast
  obtain b3 where b3: "put_all b2 (lc_body c) = Inr b3" "fb_inv 4096 b3" using put_all_safe [OF b2(2) r(4)] by blast
  obtain b4 where b4: "put_all b3 (finish_items (lc_file c) (lc_line c)) = Inr b4" "length (fb_text b4) \<le> 4096"
    using put_all_safe [OF b3(2) finish_range [OF r(3)]] by blast
  show ?thesis
    using b1 b2 b3 b4
    by (simp add: log_stmt_def Logger_new_def Impl_new_def Logger_destroy_def Logger_finish_def LargeBuffer_def)
qed

text \<open>Every statement returns; an enabled one adds its line, and a fatal one ends the process.\<close>

lemma run_stmt_inv:
  assumes "log_inv s" "call_ok c"
  shows "\<exists>s'. run_stmt c s = Inr s' \<and> log_inv s' \<and> sys_logFile s' = sys_logFile s
    \<and> (if macro_enabled (logLevel s) (lc_macro c)
       then (\<exists>line. sys_lines s' = sys_lines s @ [line]) \<and> sys_aborted s' = (sys_aborted s \<or> macro_level (lc_macro c) = FATAL)
       else s' = s)"
proof -
  obtain r where r: "log_stmt (logLevel s) (lc_macro c) (lc_errno c) (lc_errtext c) (lc_file c) (lc_line c) (lc_time c) (lc_tid c) (lc_body c) = Inr r"
    "\<forall>line fatal. r = Some (line, fatal) \<longrightarrow> length line < LargeBuffer \<and> fatal = (macro_level (lc_macro c) = FATAL)"
    "r = None \<longleftrightarrow> \<not> macro_enabled (logLevel s) (lc_macro c)"
    using stmt_safe [OF assms(2)] by blast
  show ?thesis
  proof (cases r)
    case None
    then show ?thesis using r assms(1) by (simp add: run_stmt_def)
  next
    case (Some p)
    obtain line fatal where p: "p = (line, fatal)" by (cases p)
    then have line: "length line < LargeBuffer" "fatal = (macro_level (lc_macro c) = FATAL)" using r(2) Some by auto
    obtain a where a: "al_append LargeBuffer (sys_async s) line = Inr a" "al_inv LargeBuffer a" "logged a = logged (sys_async s) @ line"
      "dropped a = dropped (sys_async s)" "al_stream (sys_async s) = logged (sys_async s) \<longrightarrow> al_stream a = logged a"
      using al_append_ok [of LargeBuffer "sys_async s" line] assms(1) line(1) by (auto simp: log_inv_def)
    let ?s1 = "s\<lparr>sys_async := a, sys_lines := sys_lines s @ [line]\<rparr>"
    have out: "call_output line s = Inr (s\<lparr>sys_async := a\<rparr>)" using assms(1) a(1) by (simp add: call_output_def log_inv_def)
    have "logOut a = logOut (sys_async s)" using al_append_frame [OF a(1)] by simp
    then have inv: "log_inv ?s1" using a(2-5) assms(1) by (simp add: log_inv_def)
    then have "log_inv ((call_flush ?s1)\<lparr>sys_aborted := True\<rparr>)" "call_flush ?s1 = ?s1"
      by (simp_all add: log_inv_def call_flush_def defaultFlush_def file_flush_def AppendFile_new_def)
    then have "run_stmt c s = Inr (if fatal then ?s1\<lparr>sys_aborted := True\<rparr> else ?s1)"
      "log_inv (if fatal then ?s1\<lparr>sys_aborted := True\<rparr> else ?s1)"
      using r(1) Some p out inv by (simp_all add: run_stmt_def Let_def)
    then show ?thesis using r(3) Some line(2) by (intro exI [of _ "if fatal then ?s1\<lparr>sys_aborted := True\<rparr> else ?s1"]) auto
  qed
qed

section \<open>A round of the back end\<close>

lemma append_each_result:
  assumes "append_each h clock i lf ds rs = Inr (Some (lf', rs'))" "file_ok lf" "list_all (\<lambda>(r, e). \<not> e) rs"
  shows "file_ok lf' \<and> log_bytes lf' = log_bytes lf @ concat ds"
  using assms
proof (induction ds arbitrary: i lf rs)
  case (Cons d ds)
  obtain now now1 now2 where t: "clock i = (now, now1, now2)" by (cases "clock i")
  obtain lf1 rs1 where l: "append_unlocked h now now1 now2 lf d rs = Some (lf1, rs1)" "append_each h clock (i + 1) lf1 ds rs1 = Inr (Some (lf', rs'))"
    using Cons.prems(1) t by (auto simp: LogFile_append_def split: option.splits)
  have "0 < rollSize lf" "rollSize lf < 2 ^ 31" using Cons.prems(2) by (simp_all add: file_ok_def main_rollSize_def)
  from append_unlocked_result [OF l(1) this] have "file_ok lf1" "log_bytes lf1 = log_bytes lf @ d" "list_all (\<lambda>(r, e). \<not> e) rs1"
    using Cons.prems(2,3) by (auto simp: file_ok_def)
  then show ?case using Cons.IH [OF l(2)] by simp
qed simp

lemma append_each_returns:
  assumes "file_ok lf" "list_all (\<lambda>(r, e). 0 < r) rs" "length (concat ds) + length ds \<le> length rs"
  shows "\<exists>lf' rs'. append_each h clock i lf ds rs = Inr (Some (lf', rs'))"
  using assms
proof (induction ds arbitrary: i lf rs)
  case (Cons d ds)
  obtain now now1 now2 where t: "clock i = (now, now1, now2)" by (cases "clock i")
  have "list_all (\<lambda>(r, e). 0 < r \<or> e) rs" using Cons.prems(2) by (auto simp: list_all_iff)
  from append_unlocked_returns [OF this, of d h now now1 now2 lf] obtain lf1 rs1 where
    l: "append_unlocked h now now1 now2 lf d rs = Some (lf1, rs1)" using Cons.prems(3) by auto
  have "0 < rollSize lf" "rollSize lf < 2 ^ 31" using Cons.prems(1) by (simp_all add: file_ok_def main_rollSize_def)
  from append_unlocked_result [OF l this] obtain us where "rs = us @ rs1" "length us \<le> length d + 1" "file_ok lf1"
    using Cons.prems(1,2) by (auto simp: file_ok_def)
  then have "\<exists>lf' rs'. append_each h clock (i + 1) lf1 ds rs1 = Inr (Some (lf', rs'))"
    using Cons.prems(2,3) by (intro Cons.IH) auto
  then show ?case using t l by (simp add: LogFile_append_def)
qed simp

lemma write_round_inv:
  assumes "log_inv s" "backend (sys_async s) = Writing" "list_all (\<lambda>(r, e). \<not> e) rs" "write_round h now clock rs s = Inr (Some s')"
  shows "log_inv s' \<and> sys_lines s' = sys_lines s \<and> in_flight (sys_async s') = concat (map fb_text (buffers (sys_async s)))
      @ (case curBuffer (sys_async s) of None \<Rightarrow> [] | Some c \<Rightarrow> fb_text c)
    \<and> dropped (sys_async s') = (dropped (sys_async s) \<or> length (buffersToWrite (sys_async s)) > MaxBuffersToWriteSize)"
proof -
  obtain lf rs' a where w: "append_each h clock 0 (sys_logFile s) (round_texts now (sys_async s)) rs = Inr (Some (lf, rs'))"
    "al_write (drop_message now) (sys_async s) = Inr a"
    "s' = s\<lparr>sys_async := a, sys_logFile := lf\<lparr>lf_file := file_flush (lf_file lf)\<rparr>\<rparr>"
    using assms(4) by (auto simp: write_round_def LogFile_flush_def split: option.splits)
  have i: "al_inv LargeBuffer (sys_async s)" "file_ok (sys_logFile s)" using assms(1) by (auto simp: log_inv_def)
  have f: "file_ok lf" "log_bytes lf = log_bytes (sys_logFile s) @ concat (round_texts now (sys_async s))"
    using append_each_result [OF w(1) i(2) assms(3)] by auto
  have a: "al_inv LargeBuffer a" "logged a = logged (sys_async s)" "\<not> dropped a \<longrightarrow> al_stream a = al_stream (sys_async s)"
    "dropped a = (dropped (sys_async s) \<or> length (buffersToWrite (sys_async s)) > MaxBuffersToWriteSize)" "buffersToWrite a = []"
    using al_write_ok [OF i(1) assms(2), of "drop_message now"] w(2) by auto
  have fl: "file_ok (lf\<lparr>lf_file := file_flush (lf_file lf)\<rparr>)" "log_bytes (lf\<lparr>lf_file := file_flush (lf_file lf)\<rparr>) = log_bytes lf"
    using f(1) by (simp_all add: file_ok_def log_bytes_def file_flush_def)
  show ?thesis
    using al_write_frame [OF w(2)] a f fl assms(1) w(3) by (auto simp: log_inv_def in_flight_def)
qed

lemma write_round_returns:
  assumes "log_inv s" "backend (sys_async s) = Writing" "list_all (\<lambda>(r, e). 0 < r) rs"
    and "length (concat (round_texts now (sys_async s))) + length (round_texts now (sys_async s)) \<le> length rs"
  shows "\<exists>s'. write_round h now clock rs s = Inr (Some s')"
proof -
  have "file_ok (sys_logFile s)" "al_inv LargeBuffer (sys_async s)" using assms(1) by (auto simp: log_inv_def)
  then show ?thesis
    using append_each_returns [OF _ assms(3,4), of "sys_logFile s" h clock 0] al_write_ok [OF _ assms(2), of LargeBuffer "drop_message now"]
    by (auto simp: write_round_def LogFile_flush_def)
qed

section \<open>Reachable states\<close>

lemma log_step_inv: "log_step h s s' \<Longrightarrow> log_inv s \<Longrightarrow> log_inv s'"
proof (induction rule: log_step.induct)
  case (statement s c s')
  then show ?case using run_stmt_inv by fastforce
next
  case (swapped s nd a)
  then show ?case using al_swap_ok [of LargeBuffer "sys_async s" nd] al_swap_frame [of nd "sys_async s" a] by (auto simp: log_inv_def)
next
  case (wrote s rs now clock s')
  then show ?case using write_round_inv by blast
next
  case (stopped s nd a)
  then have "a = (sys_async s)\<lparr>running := False\<rparr>" using al_stop_result by blast
  then show ?case using stopped by (simp add: log_inv_def al_inv_def al_stream_def)
next
  case (left s s')
  then have "s' = s\<lparr>sys_async := (sys_async s)\<lparr>backend := Stopped\<rparr>,
      sys_logFile := (sys_logFile s)\<lparr>lf_file := file_flush (lf_file (sys_logFile s))\<rparr>\<rparr>"
    by (simp add: leave_loop_def LogFile_flush_def)
  moreover have "al_inv LargeBuffer ((sys_async s)\<lparr>backend := Stopped\<rparr>)" "al_stream ((sys_async s)\<lparr>backend := Stopped\<rparr>) = al_stream (sys_async s)"
    using left by (simp_all add: log_inv_def al_inv_def al_stream_def)
  ultimately show ?case using left.prems by (simp add: log_inv_def file_ok_def log_bytes_def file_flush_def on_disk_def)
qed

lemma log_reachable_inv: "log_reachable h level basename s \<Longrightarrow> log_inv s"
proof (induction rule: log_reachable.induct)
  case (set_up nd now s)
  have "al_inv LargeBuffer (AsyncLogging_start LargeBuffer)" "al_stream (AsyncLogging_start LargeBuffer) = []"
    "logOut (AsyncLogging_start LargeBuffer) = []" "logged (AsyncLogging_start LargeBuffer) = []"
    using al_reachable_inv [OF al_reachable.started [of LargeBuffer "\<lambda>n. []"]] by (auto simp: AsyncLogging_start_def AsyncLogging_new_def)
  moreover have "sys_async s = AsyncLogging_start LargeBuffer" "g_output s = AsyncOutput" "g_flush s = DefaultFlush"
    "sys_stdout s = AppendFile_new" "sys_logFile s = LogFile_new h now basename main_rollSize CHECKEVERY False" "sys_lines s = []"
    using set_up by (auto simp: main_logging_def setOutputFunc_def setLevel_def)
  ultimately show ?case
    by (simp add: log_inv_def LogFile_new_def AppendFile_new_def file_ok_def log_bytes_def on_disk_def main_rollSize_def)
next
  case (step s s')
  then show ?case using log_step_inv by blast
qed

text \<open>A swap takes everything that was appended so far.\<close>

lemma swap_takes_all:
  assumes "log_inv s" "backend (sys_async s) = Idle" "length (buffers (sys_async s)) < MaxBuffersToWriteSize"
  shows "\<exists>a. al_swap nd (sys_async s) = Inr a \<and> log_inv (s\<lparr>sys_async := a\<rparr>) \<and> backend a = Writing \<and> dropped a = dropped (sys_async s)
    \<and> round_texts now a = map fb_text (buffersToWrite a) \<and> length (buffersToWrite a) \<le> MaxBuffersToWriteSize
    \<and> concat (map fb_text (buffersToWrite a)) = in_flight a \<and> buffers a = [] \<and> (\<exists>c. curBuffer a = Some c \<and> fb_text c = [])"
proof -
  have i: "al_inv LargeBuffer (sys_async s)" using assms(1) by (simp add: log_inv_def)
  then obtain n1 where n1: "newBuffer1 (sys_async s) = Some n1" "empty_buf LargeBuffer n1"
    using assms(2) by (auto simp: al_inv_def opt_all_def)
  obtain a where a: "al_swap nd (sys_async s) = Inr a" "al_inv LargeBuffer a" "al_stream a = al_stream (sys_async s)"
    "logged a = logged (sys_async s)" "dropped a = dropped (sys_async s)" "backend a = Writing"
    using al_swap_ok [OF i assms(2), of nd] by blast
  then show ?thesis
    using al_swap_frame [OF a(1)] assms n1 empty_text [OF n1(2)] by (auto simp: log_inv_def round_texts_def in_flight_def)
qed

section \<open>Properties\<close>


definition demo_host :: host_env where "demo_host = \<lparr>hostname = ''h'', pid = 7\<rparr>"

definition demo_call :: "log_macro \<Rightarrow> log_call" where
  "demo_call mac = \<lparr>lc_macro = mac, lc_errno = 0, lc_errtext = [], lc_file = ''a.cpp'', lc_line = 7, lc_time = Timestamp 0,
     lc_tid = '' 4013'', lc_body = [LInt 5]\<rparr>"

lemma demo_call_ok: "call_ok (demo_call mac)"
  by (simp add: call_ok_def demo_call_def)

lemma demo_log_state:
  "\<exists>s line. log_reachable demo_host INFO ''log'' s \<and> sys_lines s = [line] \<and> backend (sys_async s) = Idle \<and> \<not> dropped (sys_async s)
     \<and> length (buffers (sys_async s)) < 32 \<and> \<not> sys_aborted s \<and> logLevel s = INFO"
proof -
  let ?a = "AsyncLogging_start LargeBuffer"
  obtain s where s: "main_logging False demo_host 0 INFO ''log'' = Inr s" by (simp add: main_logging_def setOutputFunc_def setLevel_def)
  then have r: "log_reachable demo_host INFO ''log'' s" by (rule log_reachable.set_up)
  have f: "sys_async s = ?a" "\<not> sys_aborted s" "sys_lines s = []" "logLevel s = INFO" "g_output s = AsyncOutput"
    using s by (auto simp: main_logging_def setOutputFunc_def setLevel_def)
  have en: "macro_enabled INFO LOG_WARN" by (simp add: macro_enabled_def less_eq_LogLevel_def)
  obtain line where line: "log_stmt INFO LOG_WARN 0 [] ''a.cpp'' 7 (Timestamp 0) '' 4013'' [LInt 5] = Inr (Some (line, False))"
    using stmt_safe [OF demo_call_ok [of LOG_WARN], of INFO] en by (auto simp: demo_call_def)
  have ia: "al_inv LargeBuffer ?a" using log_reachable_inv [OF r] f(1) by (simp add: log_inv_def)
  obtain a where a: "al_append LargeBuffer ?a line = Inr a" "dropped a = dropped ?a" using al_append_ok [OF ia, of line] by blast
  have len: "length (buffers a) \<le> 1" "backend a = Idle"
    using a(1) by (auto simp: al_append_def AsyncLogging_start_def AsyncLogging_new_def buf_ptr_def Let_def split: if_splits)
  let ?s' = "s\<lparr>sys_async := a, sys_lines := [line]\<rparr>"
  have "run_stmt (demo_call LOG_WARN) s = Inr ?s'" using line a(1) f by (simp add: run_stmt_def demo_call_def call_output_def)
  then have "log_reachable demo_host INFO ''log'' ?s'"
    using log_reachable.step [OF r log_step.statement [OF f(2) demo_call_ok [of LOG_WARN]]] by blast
  then show ?thesis using len a(2) f by (intro exI [of _ ?s']) (simp add: AsyncLogging_start_def AsyncLogging_new_def)
qed




end
