(* ===== verification/WebBench.thy ===== *)
theory WebBench
  imports HttpProperties
begin

text \<open>
  \<^verbatim>\<open>WebBench-master/webbench.c\<close>: the load generator that is run against the server, its options and the
  request it builds from a URL. The three arrays of \<open>build_request\<close> are zeroed and then only grow, so
  each is its C string with its size beside it; a write over the end of one, or a read of one
  without its terminating zero, is a fault. A call of \<open>exit\<close> or a return from \<open>main\<close> is the left
  result, the exit status.
\<close>

section \<open>Globals and options\<close>

datatype wb_method = METHOD_GET | METHOD_HEAD | METHOD_OPTIONS | METHOD_TRACE

record wb_globals =
  http10 :: int
  wb_method :: wb_method
  clients :: int
  force :: bool
  force_reload :: bool
  proxyport :: int
  proxyhost :: "string option"
  benchtime :: int
  keep_alive :: bool

definition wb_defaults :: wb_globals where
  "wb_defaults = \<lparr>http10 = 1, wb_method = METHOD_GET, clients = 1, force = False, force_reload = False,
     proxyport = 80, proxyhost = None, benchtime = 30, keep_alive = False\<rparr>"

text \<open>A long option either sets a variable itself, and \<open>getopt_long\<close> returns 0, or stands for a short one.
  \<open>None\<close> is a name that is not in the table.\<close>

definition long_option :: "string \<Rightarrow> wb_globals \<Rightarrow> (wb_globals + char) option" where
  "long_option name g =
     (if name = ''force'' then Some (Inl (g\<lparr>force := True\<rparr>))
      else if name = ''reload'' then Some (Inl (g\<lparr>force_reload := True\<rparr>))
      else if name = ''time'' then Some (Inr (CHR ''t''))
      else if name = ''help'' then Some (Inr (CHR ''?''))
      else if name = ''http09'' then Some (Inr (CHR ''9''))
      else if name = ''http10'' then Some (Inr (CHR ''1''))
      else if name = ''http11'' then Some (Inr (CHR ''2''))
      else if name = ''get'' then Some (Inl (g\<lparr>wb_method := METHOD_GET\<rparr>))
      else if name = ''head'' then Some (Inl (g\<lparr>wb_method := METHOD_HEAD\<rparr>))
      else if name = ''options'' then Some (Inl (g\<lparr>wb_method := METHOD_OPTIONS\<rparr>))
      else if name = ''trace'' then Some (Inl (g\<lparr>wb_method := METHOD_TRACE\<rparr>))
      else if name = ''version'' then Some (Inr (CHR ''V''))
      else if name = ''proxy'' then Some (Inr (CHR ''p''))
      else if name = ''clients'' then Some (Inr (CHR ''c''))
      else None)"

text \<open>The option \<open>-p\<close>: the text behind the last colon is the port.\<close>

definition proxy_option :: "string \<Rightarrow> wb_globals \<Rightarrow> nat + wb_globals" where
  "proxy_option optarg g =
     (case find_last_of optarg (CHR '':'') of
        None \<Rightarrow> Inr (g\<lparr>proxyhost := Some optarg\<rparr>)
      | Some k \<Rightarrow>
          if k = 0 then Inl 2
          else if k = length optarg - 1 then Inl 2
          else Inr (g\<lparr>proxyhost := Some (take k optarg), proxyport := atoi (drop (k + 1) optarg)\<rparr>))"

definition short_option :: "char \<Rightarrow> string \<Rightarrow> wb_globals \<Rightarrow> nat + wb_globals" where
  "short_option opt optarg g =
     (if opt = CHR ''f'' then Inr (g\<lparr>force := True\<rparr>)
      else if opt = CHR ''r'' then Inr (g\<lparr>force_reload := True\<rparr>)
      else if opt = CHR ''9'' then Inr (g\<lparr>http10 := 0\<rparr>)
      else if opt = CHR ''1'' then Inr (g\<lparr>http10 := 1\<rparr>)
      else if opt = CHR ''2'' then Inr (g\<lparr>http10 := 2\<rparr>)
      else if opt = CHR ''V'' then Inl 0
      else if opt = CHR ''t'' then Inr (g\<lparr>benchtime := atoi optarg\<rparr>)
      else if opt = CHR ''k'' then Inr (g\<lparr>keep_alive := True\<rparr>)
      else if opt = CHR ''p'' then proxy_option optarg g
      else if opt = CHR '':'' \<or> opt = CHR ''h'' \<or> opt = CHR ''?'' then Inl 2
      else if opt = CHR ''c'' then Inr (g\<lparr>clients := atoi optarg\<rparr>)
      else Inr g)"

text \<open>What \<open>getopt_long\<close> finds on the command line: a short option or the name of a long one, each with its
  argument. An unknown name is reported as a question mark.\<close>

datatype wb_arg = Short char string | Long string string

fun wb_option :: "wb_arg \<Rightarrow> wb_globals \<Rightarrow> nat + wb_globals" where
  "wb_option (Short opt optarg) g = short_option opt optarg g"
| "wb_option (Long name optarg) g =
     (case long_option name g of
        None \<Rightarrow> short_option (CHR ''?'') optarg g
      | Some (Inl g1) \<Rightarrow> Inr g1
      | Some (Inr opt) \<Rightarrow> short_option opt optarg g)"

fun wb_options :: "wb_arg list \<Rightarrow> wb_globals \<Rightarrow> nat + wb_globals" where
  "wb_options [] g = Inr g"
| "wb_options (a # as) g = (case wb_option a g of Inl e \<Rightarrow> Inl e | Inr g1 \<Rightarrow> wb_options as g1)"

section \<open>Building the request\<close>

definition MAXHOSTNAMELEN :: nat where "MAXHOSTNAMELEN = 64"
definition REQUEST_SIZE :: nat where "REQUEST_SIZE = 2048"

text \<open>\<open>strcat\<close> into an array of the given size, \<open>strncpy\<close> of \<open>n\<close> bytes into a zeroed array, and the array read
  as a C string.\<close>

definition c_strcat :: "nat \<Rightarrow> string \<Rightarrow> string \<Rightarrow> string res" where
  "c_strcat cap dst src = (if length dst + length src < cap then Inr (dst @ src) else Inl OutOfBounds)"

definition c_strncpy :: "nat \<Rightarrow> string \<Rightarrow> nat \<Rightarrow> string res" where
  "c_strncpy cap src n = (if n \<le> cap then Inr (take n src) else Inl OutOfBounds)"

definition c_read :: "nat \<Rightarrow> string \<Rightarrow> string res" where
  "c_read cap block = (if length block < cap then Inr block else Inl OutOfBounds)"

definition to_lower :: "char \<Rightarrow> char" where
  "to_lower c = (let n = of_char c :: nat in if 65 \<le> n \<and> n \<le> 90 then char_of (n + 32) else c)"

definition strncasecmp_eq :: "string \<Rightarrow> string \<Rightarrow> nat \<Rightarrow> bool" where
  "strncasecmp_eq s t n \<longleftrightarrow> map to_lower (take n s) = map to_lower (take n t)"

definition strcspn :: "string \<Rightarrow> char \<Rightarrow> nat" where
  "strcspn s c = length (takeWhile (\<lambda>d. d \<noteq> c) s)"

definition adjust_version :: "wb_globals \<Rightarrow> wb_globals" where
  "adjust_version g =
     (let g1 = (if force_reload g \<and> proxyhost g \<noteq> None \<and> http10 g < 1 then g\<lparr>http10 := 1\<rparr> else g);
          g2 = (if wb_method g1 = METHOD_HEAD \<and> http10 g1 < 1 then g1\<lparr>http10 := 1\<rparr> else g1);
          g3 = (if wb_method g2 = METHOD_OPTIONS \<and> http10 g2 < 2 then g2\<lparr>http10 := 2\<rparr> else g2)
      in if wb_method g3 = METHOD_TRACE \<and> http10 g3 < 2 then g3\<lparr>http10 := 2\<rparr> else g3)"

fun wb_method_name :: "wb_method \<Rightarrow> string" where
  "wb_method_name METHOD_GET = ''GET''"
| "wb_method_name METHOD_HEAD = ''HEAD''"
| "wb_method_name METHOD_OPTIONS = ''OPTIONS''"
| "wb_method_name METHOD_TRACE = ''TRACE''"

text \<open>The tests on the URL, with the offset of the host or the exit status.\<close>

definition check_url :: "string \<Rightarrow> nat + nat" where
  "check_url url =
     (case find_sub ''://'' url of
        None \<Rightarrow> Inl 2
      | Some k \<Rightarrow>
          if length url > 1500 then Inl 2
          else if \<not> strncasecmp_eq ''http://'' url 7 then Inl 2
          else let i = k + 3 in if find_sub ''/'' (drop i url) = None then Inl 2 else Inr i)"

text \<open>The part without a proxy: host and port of the URL, and its path behind the request so far.\<close>

definition take_host :: "wb_globals \<Rightarrow> string \<Rightarrow> string \<Rightarrow> (wb_globals \<times> string \<times> string) res" where
  "take_host g rest req =
     rbind (case find_sub '':'' rest of
              Some k \<Rightarrow>
                if k < strcspn rest (CHR ''/'') then
                  rbind (c_strncpy MAXHOSTNAMELEN rest k) (\<lambda>host.
                  rbind (c_strncpy 10 (drop (k + 1) rest) (strcspn rest (CHR ''/'') - k - 1)) (\<lambda>tmp.
                  rbind (c_read 10 tmp) (\<lambda>txt.
                    let p = atoi txt in Inr (g\<lparr>proxyport := (if p = 0 then 80 else p)\<rparr>, host))))
                else rbind (c_strncpy MAXHOSTNAMELEN rest (strcspn rest (CHR ''/''))) (\<lambda>host. Inr (g, host))
            | None \<Rightarrow> rbind (c_strncpy MAXHOSTNAMELEN rest (strcspn rest (CHR ''/''))) (\<lambda>host. Inr (g, host))) (\<lambda>(g1, host).
     rbind (c_strcat REQUEST_SIZE req (drop (strcspn rest (CHR ''/'')) rest)) (\<lambda>request1.
       Inr (g1, host, request1)))"

fun c_strcats :: "nat \<Rightarrow> string \<Rightarrow> string list \<Rightarrow> string res" where
  "c_strcats cap dst [] = Inr dst"
| "c_strcats cap dst (s # ss) = rbind (c_strcat cap dst s) (\<lambda>d. c_strcats cap d ss)"

text \<open>The lines behind the path, one string for each \<open>strcat\<close>.\<close>

definition request_tail :: "wb_globals \<Rightarrow> string \<Rightarrow> string list" where
  "request_tail g host =
     (if http10 g = 1 then ['' HTTP/1.0''] else if http10 g = 2 then ['' HTTP/1.1''] else [])
     @ [CRLF]
     @ (if http10 g > 0 then [''User-Agent: WebBench 1.5'' @ CRLF] else [])
     @ (if proxyhost g = None \<and> http10 g > 0 then [''Host: '', host, CRLF] else [])
     @ (if force_reload g \<and> proxyhost g \<noteq> None then [''Pragma: no-cache'' @ CRLF] else [])
     @ (if http10 g > 1 then if \<not> keep_alive g then [''Connection: close'' @ CRLF] else [''Connection: Keep-Alive'' @ CRLF] else [])
     @ (if http10 g > 0 then [CRLF] else [])"

definition build_request :: "wb_globals \<Rightarrow> string \<Rightarrow> (nat + wb_globals \<times> string \<times> string) res" where
  "build_request g url =
     (let g1 = adjust_version g; req = wb_method_name (wb_method g1) @ '' '' in
      case check_url url of
        Inl e \<Rightarrow> Inr (Inl e)
      | Inr i \<Rightarrow>
          rbind (if proxyhost g1 = None then take_host g1 (drop i url) req
                 else rbind (c_strcat REQUEST_SIZE req url) (\<lambda>request1. Inr (g1, [], request1))) (\<lambda>(g2, host, request2).
          rbind (if proxyhost g2 = None \<and> http10 g2 > 0 then c_read MAXHOSTNAMELEN host else Inr host) (\<lambda>hostname.
          rbind (c_strcats REQUEST_SIZE request2 (request_tail g2 hostname)) (\<lambda>request3.
            Inr (Inr (g2, host, request3))))))"

text \<open>\<open>main\<close> up to the call of \<open>bench\<close>. \<open>rest\<close> are the arguments that are not options.\<close>

definition wb_main :: "wb_arg list \<Rightarrow> string list \<Rightarrow> (nat + wb_globals \<times> string \<times> string) res" where
  "wb_main as rest =
     (if as = [] \<and> rest = [] then Inr (Inl 2)
      else case wb_options as wb_defaults of
             Inl e \<Rightarrow> Inr (Inl e)
           | Inr g \<Rightarrow>
               (case rest of
                  [] \<Rightarrow> Inr (Inl 2)
                | url # _ \<Rightarrow>
                    let g1 = (if clients g = 0 then g\<lparr>clients := 1\<rparr> else g);
                        g2 = (if benchtime g1 = 0 then g1\<lparr>benchtime := 30\<rparr> else g1)
                    in build_request g2 url))"

section \<open>The C string functions\<close>

lemma find_sub_char_eq: "find_sub [c] s = (if c \<in> set s then Some (strcspn s c) else None)"
  by (induction s) (auto simp: strcspn_def)

lemma strcspn_at: "c \<notin> set xs \<Longrightarrow> strcspn (xs @ c # ys) c = length xs"
  by (induction xs) (auto simp: strcspn_def)

lemma strcspn_prefix: "c \<notin> set xs \<Longrightarrow> length xs \<le> strcspn (xs @ ys) c"
  by (induction xs) (auto simp: strcspn_def)

lemma c_strcats_eq:
  "c_strcats cap dst ss = (if ss = [] \<or> length dst + length (concat ss) < cap then Inr (dst @ concat ss) else Inl OutOfBounds)"
proof (induction ss arbitrary: dst)
  case (Cons s ss)
  then show ?case by (cases "ss = []") (auto simp: c_strcat_def)
qed simp

lemma to_lower_colon: "to_lower c = CHR '':'' \<longleftrightarrow> c = CHR '':''" "to_lower c = CHR ''/'' \<longleftrightarrow> c = CHR ''/''"
proof -
  have "c = d" if "to_lower c = d" "of_char d < (97 :: nat)" for d
  proof (cases "65 \<le> (of_char c :: nat) \<and> (of_char c :: nat) \<le> 90")
    case True
    then have "d = char_of (of_char c + 32 :: nat)" using that(1) by (simp add: to_lower_def)
    then have "(of_char d :: nat) = of_char c + 32" using True by simp
    then show ?thesis using that(2) True by simp
  next
    case False
    then show ?thesis using that(1) by (auto simp: to_lower_def)
  qed
  moreover have "to_lower (CHR '':'') = CHR '':''" "to_lower (CHR ''/'') = CHR ''/''" by (simp_all add: to_lower_def)
  ultimately show "to_lower c = CHR '':'' \<longleftrightarrow> c = CHR '':''" "to_lower c = CHR ''/'' \<longleftrightarrow> c = CHR ''/''" by auto
qed

section \<open>URLs\<close>

text \<open>A URL in four parts: the scheme in any case, a host, an optional port with its colon, and a path.\<close>

definition url_parts :: "string \<Rightarrow> string \<Rightarrow> string \<Rightarrow> string \<Rightarrow> bool" where
  "url_parts scheme host port path \<longleftrightarrow> map to_lower scheme = ''http://'' \<and> CHR '':'' \<notin> set host \<and> CHR ''/'' \<notin> set host
     \<and> (port = [] \<or> hd port = CHR '':'') \<and> CHR ''/'' \<notin> set port \<and> (path \<noteq> [] \<and> hd path = CHR ''/'')
     \<and> length (scheme @ host @ port @ path) \<le> 1500"

lemma url_schemeE:
  assumes "map to_lower scheme = ''http://''"
  obtains a b c d where "scheme = [a, b, c, d] @ ''://''" "CHR '':'' \<notin> {a, b, c, d}"
proof -
  have "length scheme = 7" using arg_cong [OF assms, of length] by simp
  then obtain a b c d e f g where s: "scheme = [a, b, c, d, e, f, g]"
    by (auto simp: numeral_eq_Suc length_Suc_conv)
  have l: "to_lower a = CHR ''h''" "to_lower b = CHR ''t''" "to_lower c = CHR ''t''" "to_lower d = CHR ''p''"
    "to_lower e = CHR '':''" "to_lower f = CHR ''/''" "to_lower g = CHR ''/''"
    using assms unfolding s by simp_all
  have "e = CHR '':''" "f = CHR ''/''" "g = CHR ''/''" using l(5-7) to_lower_colon by simp_all
  moreover have "x \<noteq> CHR '':''" if "to_lower x \<noteq> CHR '':''" for x using that to_lower_colon by blast
  then have "a \<noteq> CHR '':''" "b \<noteq> CHR '':''" "c \<noteq> CHR '':''" "d \<noteq> CHR '':''" using l(1-4) by simp_all
  ultimately show ?thesis using s that by simp
qed

lemma check_url_parts:
  assumes "url_parts scheme host port path"
  shows "check_url (scheme @ host @ port @ path) = Inr 7 \<and> drop 7 (scheme @ host @ port @ path) = host @ port @ path"
proof -
  have p: "map to_lower scheme = ''http://''" "path \<noteq> []" "hd path = CHR ''/''" "length (scheme @ host @ port @ path) \<le> 1500"
    using assms by (auto simp: url_parts_def)
  obtain a b c d where s: "scheme = [a, b, c, d] @ ''://''" "CHR '':'' \<notin> {a, b, c, d}" using url_schemeE [OF p(1)] .
  have "find_sub ''://'' (scheme @ host @ port @ path) = Some 4" using s by auto
  moreover have "strncasecmp_eq ''http://'' (scheme @ host @ port @ path) 7"
    using p(1) s(1) by (simp add: strncasecmp_eq_def to_lower_def)
  moreover have "CHR ''/'' \<in> set (host @ port @ path)" using p(2,3) by (cases path) auto
  ultimately show ?thesis
    using p(4) s(1) by (simp add: check_url_def find_sub_char_eq)
qed

text \<open>The port the URL asks for; without one it is the one of the options.\<close>

definition url_port :: "wb_globals \<Rightarrow> string \<Rightarrow> int" where
  "url_port g port = (if port = [] then proxyport g else let p = atoi (tl port) in if p = 0 then 80 else p)"

lemma take_host_parts:
  assumes "url_parts scheme host port path"
  shows "take_host g (host @ port @ path) req =
    (if length host \<le> 64 \<and> length port \<le> 10 \<and> length req + length path < 2048
     then Inr (g\<lparr>proxyport := url_port g port\<rparr>, host, req @ path) else Inl OutOfBounds)"
proof -
  obtain ps where path: "path = CHR ''/'' # ps" using assms by (cases path) (auto simp: url_parts_def)
  have "CHR ''/'' \<notin> set (host @ port)" using assms by (simp add: url_parts_def)
  from strcspn_at [OF this, of ps] have sl: "strcspn (host @ port @ path) (CHR ''/'') = length host + length port" using path by simp
  show ?thesis
  proof (cases port)
    case Nil
    have "find_sub '':'' (host @ path) = None \<or> (\<exists>k \<ge> length host. find_sub '':'' (host @ path) = Some k)"
    proof -
      have "length host \<le> strcspn (host @ path) (CHR '':'')"
        using assms strcspn_prefix by (simp add: url_parts_def)
      then show ?thesis by (auto simp: find_sub_char_eq)
    qed
    then show ?thesis
      using Nil sl by (auto simp: take_host_def c_strncpy_def c_strcat_def MAXHOSTNAMELEN_def REQUEST_SIZE_def url_port_def)
  next
    case (Cons c ps')
    then have c: "c = CHR '':''" "CHR '':'' \<notin> set host" using assms by (auto simp: url_parts_def)
    then have "find_sub '':'' (host @ port @ path) = Some (length host)" using Cons find_sub_char [of "CHR '':''" host "ps' @ path"] by simp
    then show ?thesis
      using Cons sl
      by (auto simp: take_host_def c_strncpy_def c_read_def c_strcat_def MAXHOSTNAMELEN_def REQUEST_SIZE_def url_port_def Let_def)
  qed
qed

section \<open>The request\<close>

lemma adjust_version_frame [simp]:
  "proxyhost (adjust_version g) = proxyhost g" "wb_method (adjust_version g) = wb_method g" "keep_alive (adjust_version g) = keep_alive g"
  "proxyport (adjust_version g) = proxyport g" "force_reload (adjust_version g) = force_reload g"
  by (simp_all add: adjust_version_def Let_def)

lemma tail_length: "length (concat (request_tail g host)) \<le> 89 + length host"
  by (simp add: request_tail_def CRLF_def)

lemma tail_nonempty: "request_tail g host \<noteq> []"
  by (simp add: request_tail_def)

lemma method_length: "length (wb_method_name m) \<le> 7"
  by (cases m) simp_all

lemma tail_port [simp]: "request_tail (g\<lparr>proxyport := p\<rparr>) host = request_tail g host"
  by (simp add: request_tail_def)

text \<open>What \<open>build_request\<close> does with a URL without a proxy.\<close>

lemma build_request_parts:
  assumes "url_parts scheme host port path" "proxyhost g = None" "http10 (adjust_version g) > 0"
  shows "build_request g (scheme @ host @ port @ path) =
    (if length host < 64 \<and> length port \<le> 10
     then Inr (Inr ((adjust_version g)\<lparr>proxyport := url_port g port\<rparr>, host,
            wb_method_name (wb_method g) @ '' '' @ path @ concat (request_tail (adjust_version g) host)))
     else Inl OutOfBounds)"
proof -
  let ?g = "adjust_version g" and ?req = "wb_method_name (wb_method g) @ '' ''"
  have len: "length path \<le> 1493" using assms(1) by (auto simp: url_parts_def dest: arg_cong [where f = length])
  have th: "take_host ?g (host @ port @ path) ?req =
     (if length host \<le> 64 \<and> length port \<le> 10 then Inr (?g\<lparr>proxyport := url_port g port\<rparr>, host, ?req @ path) else Inl OutOfBounds)"
    using take_host_parts [OF assms(1), of ?g ?req] method_length [of "wb_method g"] len by (auto simp: url_port_def)
  have "length (?req @ path) + length (concat (request_tail ?g host)) < 2048" if "length host < 64"
    using tail_length [of ?g host] method_length [of "wb_method g"] len that by simp
  then have tl: "c_strcats REQUEST_SIZE (?req @ path) (request_tail ?g host) = Inr (?req @ path @ concat (request_tail ?g host))" if "length host < 64"
    using that tail_nonempty by (simp add: c_strcats_eq REQUEST_SIZE_def)
  show ?thesis
    using check_url_parts [OF assms(1)] th tl assms(2,3)
    by (auto simp: build_request_def c_read_def MAXHOSTNAMELEN_def)
qed

text \<open>The same request as the parser's client prints it, for the methods the server knows.\<close>

definition wb_request :: "wb_globals \<Rightarrow> string \<Rightarrow> string \<Rightarrow> http_req" where
  "wb_request g host path =
     \<lparr>rq_method = (if wb_method g = METHOD_HEAD then HEAD else GET), rq_uri = path,
      rq_version = (if http10 g = 1 then Http10 else Http11),
      rq_headers = [(''User-Agent'', ''WebBench 1.5''), (''Host'', host)]
        @ (if http10 g > 1 then [(''Connection'', if keep_alive g then ''Keep-Alive'' else ''close'')] else []),
      rq_body = []\<rparr>"

lemma wb_request_printed:
  assumes "wb_method g \<in> {METHOD_GET, METHOD_HEAD}" "http10 g \<in> {1, 2}" "proxyhost g = None"
  shows "wb_method_name (wb_method g) @ '' '' @ path @ concat (request_tail g host) = print_req (wb_request g host path)"
  using assms by (auto simp: request_tail_def print_req_def print_head_def print_header_def wb_request_def)

lemma wb_request_ok:
  assumes "uri_ok path" "clean host" "host \<noteq> []"
  shows "req_ok (wb_request g host path)" "keep_of (rq_headers (wb_request g host path)) \<longleftrightarrow> http10 g > 1 \<and> keep_alive g"
  using assms by (auto simp: wb_request_def req_ok_def header_ok_def clean_def clen_of_def keep_of_def)

section \<open>Properties\<close>



text \<open>C25: The load generator and the server understand each other. For a URL with a host, an optional port
  and a path, and the methods and versions the server knows, the request that is built is answered
  by the parser with exactly one reply: the one to that method and path. Unless version 1.1 and
  keep-alive are both asked for, \<open>process\<close> says that the connection ends (so \<open>-k\<close> alone, with the
  default version 1.0, does not keep it); with both, it stays open and the parser is ready for
  the same request again, which the last part says for any number of them.\<close>

theorem webbench_is_served:
  assumes "url_parts scheme host port path" "uri_ok path" "clean host" "host \<noteq> []" "length host < 64" "length port \<le> 10"
    and "proxyhost g = None" "wb_method g \<in> {METHOD_GET, METHOD_HEAD}" "http10 (adjust_version g) \<in> {1, 2}"
  shows "\<exists>g' req r. build_request g (scheme @ host @ port @ path) = Inr (Inr (g', host, req)) \<and> proxyport g' = url_port g port
    \<and> r = wb_request g' host path
    \<and> (if http10 g' = 2 \<and> keep_alive g then
         (\<forall>t n. reply env r = Inr t \<and> 0 < n \<and> n \<le> 10 ^ 9 \<longrightarrow>
            (\<exists>q. process env (feed (HttpParser_new rq rs True) (concat (replicate n req))) = Some (Inr (True, q)) \<and> sent q = replicate n t))
       else case serve env (rq_method r) path of
           Inl e \<Rightarrow> process env (feed (HttpParser_new rq rs True) req) = Some (Inl e)
         | Inr (st, body) \<Rightarrow> \<exists>q. process env (feed (HttpParser_new rq rs True) req) = Some (Inr (False, q))
             \<and> sent q = [reply_text (rq_version r) st False path body])"
proof -
  let ?g = "(adjust_version g)\<lparr>proxyport := url_port g port\<rparr>" and ?r = "wb_request (adjust_version g) host path"
  have h: "http10 (adjust_version g) > 0" using assms(9) by auto
  have r: "wb_request ?g host path = ?r" by (simp add: wb_request_def)
  have "wb_method (adjust_version g) \<in> {METHOD_GET, METHOD_HEAD}" "proxyhost (adjust_version g) = None" using assms(7,8) by simp_all
  from wb_request_printed [OF this(1) assms(9) this(2), of path host]
  have b: "build_request g (scheme @ host @ port @ path) = Inr (Inr (?g, host, print_req ?r))"
    using build_request_parts [OF assms(1,7) h] assms(5,6) by simp
  have ok: "req_ok ?r" "keep_of (rq_headers ?r) \<longleftrightarrow> http10 (adjust_version g) > 1 \<and> keep_alive g"
    using wb_request_ok [OF assms(2-4)] by simp_all
  have "length path \<le> 1493" using assms(1) by (auto simp: url_parts_def dest: arg_cong [where f = length])
  then have len: "length (print_req ?r) \<le> 2000"
    using assms(5) by (simp add: print_req_def print_head_def print_header_def wb_request_def CRLF_def)
  have keep: "\<exists>q. process env (feed (HttpParser_new rq rs True) (concat (replicate n (print_req ?r)))) = Some (Inr (True, q)) \<and> sent q = replicate n t"
    if k: "keep_of (rq_headers ?r)" "reply env ?r = Inr t" "0 < n" "n \<le> 10 ^ 9" for t n
  proof -
    let ?p = "HttpParser_new rq rs True\<lparr>input := concat (map print_req (replicate n ?r))\<rparr>"
    have "length (concat (map print_req (replicate n ?r))) = n * length (print_req ?r)" by (induction n) simp_all
    then have "length (input ?p) \<le> 10 ^ 9 * 2000" using mult_le_mono [OF k(4) len] by simp
    then have sz: "length (input ?p) < size_mod" by simp
    have l: "list_all req_ok (replicate n ?r)" "list_all (\<lambda>r. keep_of (rq_headers r)) (replicate n ?r)"
      "list_all2 (\<lambda>r t. reply env r = Inr t) (replicate n ?r) (replicate n t)"
      using ok(1) k by (auto simp: list_all_iff list_all2_conv_all_nth)
    have "input ?p = [] @ concat (map print_req (replicate n ?r))" "pos ?p = length ([] :: string)" "connAlive ?p" by simp_all
    from process_pipeline [OF fed_idle l this(1,2) sz this(3)] show ?thesis using k(3) by auto
  qed
  have u: "rq_uri ?r = path" and sz: "length (print_req ?r @ []) < size_mod" using len by (simp_all add: wb_request_def)
  have close: "case serve env (rq_method ?r) path of
         Inl e \<Rightarrow> process env (feed (HttpParser_new rq rs True) (print_req ?r)) = Some (Inl e)
       | Inr (st, body) \<Rightarrow> \<exists>q. process env (feed (HttpParser_new rq rs True) (print_req ?r)) = Some (Inr (False, q))
           \<and> sent q = [reply_text (rq_version ?r) st False path body]" if "\<not> keep_of (rq_headers ?r)"
    using process_close [OF ok(1) that sz, of env rq rs] unfolding u append_Nil2 .
  show ?thesis
    using b keep close ok(2) assms(9) r by (intro exI [of _ ?g] exI [of _ "print_req ?r"] exI [of _ ?r]) auto
qed

theorem webbench_is_served_witness:
  "\<exists>g' req q. build_request wb_defaults ''http://a:81/b'' = Inr (Inr (g', ''a'', req)) \<and> proxyport g' = 81
     \<and> process one_page (feed fresh req) = Some (Inr (False, q))
     \<and> sent q = [reply_text Http10 NotFound False ''/b'' NotFound404_Form]"
proof -
  have h: "http10 (adjust_version wb_defaults) = 1" "proxyhost wb_defaults = None" "wb_method wb_defaults = METHOD_GET"
    "keep_alive wb_defaults = False"
    by (simp_all add: adjust_version_def wb_defaults_def)
  have u: "url_parts ''http://'' ''a'' '':81'' ''/b''" by (simp add: url_parts_def to_lower_def)
  have ok: "uri_ok ''/b''" "clean ''a''" by (simp_all add: uri_ok_def clean_def)
  have p: "url_port wb_defaults '':81'' = 81" by (simp add: url_port_def atoi_def is_space_def digit_val_def)
  have srv: "serve one_page GET ''/b'' = Inr (NotFound, NotFound404_Form)"
    by (simp add: serve_def one_page_def RESOURCE_ROOT_def)
  obtain g' req where b: "build_request wb_defaults (''http://'' @ ''a'' @ '':81'' @ ''/b'') = Inr (Inr (g', ''a'', req))" "proxyport g' = 81"
    and s: "if http10 g' = 2 \<and> keep_alive wb_defaults then
         (\<forall>t n. reply one_page (wb_request g' ''a'' ''/b'') = Inr t \<and> 0 < n \<and> n \<le> 10 ^ 9 \<longrightarrow>
            (\<exists>q. process one_page (feed fresh (concat (replicate n req))) = Some (Inr (True, q)) \<and> sent q = replicate n t))
       else case serve one_page (rq_method (wb_request g' ''a'' ''/b'')) ''/b'' of
           Inl e \<Rightarrow> process one_page (feed fresh req) = Some (Inl e)
         | Inr (st, body) \<Rightarrow> \<exists>q. process one_page (feed fresh req) = Some (Inr (False, q))
             \<and> sent q = [reply_text (rq_version (wb_request g' ''a'' ''/b'')) st False ''/b'' body]"
    using webbench_is_served [OF u ok, of wb_defaults one_page "HttpRequest_new Method_Invalid Unknow" "HttpResponse_new Unknow OK200"] h p
    unfolding fresh_def by auto
  have "g' = (adjust_version wb_defaults)\<lparr>proxyport := 81\<rparr>"
    using b(1) build_request_parts [OF u h(2)] h(1) p by simp
  then have "http10 g' = 1" "wb_method g' = METHOD_GET" using h by simp_all
  then have "serve one_page (rq_method (wb_request g' ''a'' ''/b'')) ''/b'' = Inr (NotFound, NotFound404_Form)"
    "rq_version (wb_request g' ''a'' ''/b'') = Http10" using srv by (simp_all add: wb_request_def)
  then show ?thesis using b s h(4) by auto
qed

end
