(* ===== verification/WebBench_Core.thy ===== *)
theory WebBench_Core
  imports WebBench Timestamp
begin

text \<open>
  \<^verbatim>\<open>WebBench-master/webbench.c\<close> and \<^verbatim>\<open>socket.c\<close>: the loop of a client process and the collection of the results.
  A client is a state machine whose states are the system calls it waits for; \<open>bench_step\<close> takes
  the answer of the call, with a flag that says whether the alarm was delivered meanwhile, and runs
  the program up to its next call. An answer to another call than the pending one, or a descriptor
  in use as a new one, is not a run (\<open>None\<close>). Counters are of type \<open>int\<close>: passing their bound is a
  fault. \<open>tries\<close> counts the connections asked for and \<open>leaked\<close> collects the sockets whose \<open>connect\<close>
  failed; neither is part of the program.
\<close>

section \<open>Opening a connection\<close>

text \<open>\<open>Socket()\<close>: whether the name was resolved, and the answers of \<open>socket\<close> and \<open>connect\<close>. The socket of a failed
  \<open>connect\<close> is not closed.\<close>

definition wb_Socket :: "bool \<Rightarrow> int \<Rightarrow> int \<Rightarrow> int set \<Rightarrow> int \<times> int set" where
  "wb_Socket resolved sock conn fds =
     (if \<not> resolved then (- 1, fds)
      else if sock < 0 then (sock, fds)
      else if conn < 0 then (- 1, insert sock fds)
      else (sock, insert sock fds))"

section \<open>The loop of a client\<close>

datatype after_close = NextTry | Reconnect | Stale | Done

datatype bench_pc = CallSocket | CallSpin | CallWrite int | CallShutdown int | CallRead int | CallClose int after_close | Returned

record bench_state =
  timerexpired :: bool
  speed :: int
  wb_failed :: int
  wb_bytes :: int
  bs_pc :: bench_pc
  bs_fds :: "int set"
  tries :: int
  leaked :: "int set"

definition int_add :: "int \<Rightarrow> int \<Rightarrow> int res" where
  "int_add x y = (if - (2 ^ 31) \<le> x + y \<and> x + y < 2 ^ 31 then Inr (x + y) else Inl SignedOverflow)"

definition count_failed :: "bench_state \<Rightarrow> bench_state res" where
  "count_failed st = rbind (int_add (wb_failed st) 1) (\<lambda>n. Inr (st\<lparr>wb_failed := n\<rparr>))"

definition count_speed :: "bench_state \<Rightarrow> bench_state res" where
  "count_speed st = rbind (int_add (speed st) 1) (\<lambda>n. Inr (st\<lparr>speed := n\<rparr>))"

definition count_bytes :: "int \<Rightarrow> bench_state \<Rightarrow> bench_state res" where
  "count_bytes i st = rbind (int_add (wb_bytes st) i) (\<lambda>n. Inr (st\<lparr>wb_bytes := n\<rparr>))"

text \<open>The test at the top of both loops: with the alarm gone off the last failure is taken back, and the
  function returns.\<close>

definition loop_top :: "bench_pc \<Rightarrow> bench_state \<Rightarrow> bench_state" where
  "loop_top next st =
     (if timerexpired st
      then st\<lparr>wb_failed := (if wb_failed st > 0 then wb_failed st - 1 else wb_failed st), bs_pc := Returned\<rparr>
      else st\<lparr>bs_pc := next\<rparr>)"

text \<open>Once the request is written: reading starts, unless it is not wanted or the alarm has gone off.\<close>

definition after_send :: "wb_globals \<Rightarrow> int \<Rightarrow> bench_state \<Rightarrow> bench_state" where
  "after_send g s st = (if \<not> force g \<and> \<not> timerexpired st then st\<lparr>bs_pc := CallRead s\<rparr> else st\<lparr>bs_pc := CallClose s Done\<rparr>)"

definition keep_done :: "int \<Rightarrow> bench_state \<Rightarrow> bench_state res" where
  "keep_done s st = rbind (count_speed st) (\<lambda>st1. Inr (loop_top (CallWrite s) st1))"

definition after_write :: "wb_globals \<Rightarrow> int \<Rightarrow> bench_state \<Rightarrow> bench_state res" where
  "after_write g s st =
     (if keep_alive g then if \<not> force g \<and> \<not> timerexpired st then Inr (st\<lparr>bs_pc := CallRead s\<rparr>) else keep_done s st
      else if http10 g = 0 then Inr (st\<lparr>bs_pc := CallShutdown s\<rparr>)
      else Inr (after_send g s st))"

definition fail_and_close :: "int \<Rightarrow> after_close \<Rightarrow> bench_state \<Rightarrow> bench_state res" where
  "fail_and_close s k st = rbind (count_failed st) (\<lambda>st1. Inr (st1\<lparr>bs_pc := CallClose s k\<rparr>))"

text \<open>The answer of \<open>read\<close>. With keep-alive only one \<open>read\<close> is made for each request.\<close>

definition after_read :: "wb_globals \<Rightarrow> int \<Rightarrow> int \<Rightarrow> bench_state \<Rightarrow> bench_state res" where
  "after_read g s i st =
     (if i < 0 then fail_and_close s (if keep_alive g then Stale else NextTry) st
      else if keep_alive g then rbind (if i = 0 then Inr st else count_bytes i st) (keep_done s)
      else if i = 0 then Inr (st\<lparr>bs_pc := CallClose s Done\<rparr>)
      else rbind (count_bytes i st) (\<lambda>st1. Inr (after_send g s st1)))"

fun after_closing :: "int \<Rightarrow> after_close \<Rightarrow> int \<Rightarrow> bench_state \<Rightarrow> bench_state res" where
  "after_closing s NextTry r st = Inr (loop_top CallSocket st)"
| "after_closing s Reconnect r st = Inr (st\<lparr>bs_pc := CallSpin\<rparr>)"
| "after_closing s Stale r st = Inr (loop_top (CallWrite s) st)"
| "after_closing s Done r st =
     rbind (if r \<noteq> 0 then count_failed st else count_speed st) (\<lambda>st1. Inr (loop_top CallSocket st1))"

datatype sys_answer = AnsSocket bool int int | AnsCall int

definition deliver :: "bool \<Rightarrow> bench_state \<Rightarrow> bench_state" where
  "deliver alarm st = st\<lparr>timerexpired := timerexpired st \<or> alarm\<rparr>"

definition socket_answer :: "bool \<Rightarrow> int \<Rightarrow> int \<Rightarrow> bench_state \<Rightarrow> int \<times> bench_state" where
  "socket_answer resolved sock conn st =
     (case wb_Socket resolved sock conn (bs_fds st) of
        (s, fds) \<Rightarrow> (s, st\<lparr>bs_fds := fds, leaked := leaked st \<union> (fds - bs_fds st - {s})\<rparr>))"

definition got_socket :: "int \<Rightarrow> bench_state \<Rightarrow> bench_state res option" where
  "got_socket s st =
     (case bs_pc st of
        CallSocket \<Rightarrow>
          let st1 = st\<lparr>tries := tries st + 1\<rparr>
          in Some (if s < 0 then rbind (count_failed st1) (\<lambda>st2. Inr (loop_top CallSocket st2)) else Inr (st1\<lparr>bs_pc := CallWrite s\<rparr>))
      | CallSpin \<Rightarrow> Some (Inr (if s = - 1 then st else loop_top (CallWrite s) st))
      | _ \<Rightarrow> None)"

definition got_answer :: "wb_globals \<Rightarrow> int \<Rightarrow> int \<Rightarrow> bench_state \<Rightarrow> bench_state res option" where
  "got_answer g rlen r st =
     (case bs_pc st of
        CallWrite s \<Rightarrow> Some (if r \<noteq> rlen then fail_and_close s (if keep_alive g then Reconnect else NextTry) st else after_write g s st)
      | CallShutdown s \<Rightarrow> Some (if r \<noteq> 0 then fail_and_close s NextTry st else Inr (after_send g s st))
      | CallRead s \<Rightarrow> Some (after_read g s r st)
      | CallClose s k \<Rightarrow> Some (after_closing s k r (st\<lparr>bs_fds := bs_fds st - {s}\<rparr>))
      | _ \<Rightarrow> None)"

fun bench_step :: "wb_globals \<Rightarrow> int \<Rightarrow> bench_state \<Rightarrow> sys_answer \<times> bool \<Rightarrow> bench_state res option" where
  "bench_step g rlen st (AnsSocket resolved sock conn, alarm) =
     (if sock < - 1 \<or> sock \<in> bs_fds st then None
      else case socket_answer resolved sock conn (deliver alarm st) of (s, st1) \<Rightarrow> got_socket s st1)"
| "bench_step g rlen st (AnsCall r, alarm) = got_answer g rlen r (deliver alarm st)"

text \<open>The beginning of \<open>benchcore\<close>, after \<open>sigaction\<close>; the left result is an exit status.\<close>

definition benchcore_start :: "wb_globals \<Rightarrow> int \<Rightarrow> nat + bench_state" where
  "benchcore_start g sigaction =
     (if sigaction \<noteq> 0 then Inl 3
      else Inr \<lparr>timerexpired = False, speed = 0, wb_failed = 0, wb_bytes = 0,
                bs_pc = (if keep_alive g then CallSpin else CallSocket), bs_fds = {}, tries = 0, leaked = {}\<rparr>)"

fun bench_run :: "wb_globals \<Rightarrow> int \<Rightarrow> bench_state \<Rightarrow> (sys_answer \<times> bool) list \<Rightarrow> bench_state res option" where
  "bench_run g rlen st [] = Some (Inr st)"
| "bench_run g rlen st (a # as) =
     (case bench_step g rlen st a of
        None \<Rightarrow> None
      | Some (Inl e) \<Rightarrow> Some (Inl e)
      | Some (Inr st1) \<Rightarrow> bench_run g rlen st1 as)"

section \<open>Starting the clients and collecting their results\<close>

text \<open>The loop of \<open>fork\<close>: the index reached and the last answer, which is 0 if there was no call at all.\<close>

fun fork_loop :: "nat \<Rightarrow> nat \<Rightarrow> (nat \<Rightarrow> int) \<Rightarrow> int \<Rightarrow> nat \<times> int" where
  "fork_loop 0 i forks pid = (i, pid)"
| "fork_loop (Suc n) i forks pid = (if forks i \<le> 0 then (i, forks i) else fork_loop n (i + 1) forks (forks i))"

datatype bench_role = ExitWith int | Child | Parent

definition bench_start :: "wb_globals \<Rightarrow> int \<Rightarrow> int \<Rightarrow> (nat \<Rightarrow> int) \<Rightarrow> bench_role" where
  "bench_start g sock pipe forks =
     (if sock < 0 then ExitWith 1
      else if pipe \<noteq> 0 then ExitWith 3
      else case fork_loop (nat (clients g)) 0 forks 0 of
             (i, pid) \<Rightarrow> if pid < 0 then ExitWith 3 else if pid = 0 then Child else Parent)"

text \<open>What a client writes into the pipe if it can open it, with its exit status, and \<open>fscanf\<close> with three \<open>%d\<close> on the text of the pipe: the numbers
  found and what is left.\<close>

definition child_line :: "bench_state \<Rightarrow> string" where
  "child_line st = dec_int (speed st) @ '' '' @ dec_int (wb_failed st) @ '' '' @ dec_int (wb_bytes st) @ [LF]"

definition bench_child :: "bool \<Rightarrow> bench_state \<Rightarrow> int \<times> string" where
  "bench_child opened st = (if \<not> opened then (3, []) else (0, child_line st))"

definition is_digit :: "char \<Rightarrow> bool" where
  "is_digit c \<longleftrightarrow> digit_val c \<noteq> None"

definition scan_int :: "string \<Rightarrow> (int \<times> string) option" where
  "scan_int s =
     (let t = dropWhile is_space s;
          neg = (t \<noteq> [] \<and> hd t = CHR ''-'');
          u = (if t \<noteq> [] \<and> (hd t = CHR ''-'' \<or> hd t = CHR ''+'') then tl t else t);
          ds = takeWhile is_digit u
      in if ds = [] then None
         else Some (if neg then - int (read_digits 0 ds) else int (read_digits 0 ds), dropWhile is_digit u))"

fun scan_ints :: "nat \<Rightarrow> string \<Rightarrow> int list \<times> string" where
  "scan_ints 0 s = ([], s)"
| "scan_ints (Suc n) s =
     (case scan_int s of
        None \<Rightarrow> ([], s)
      | Some (v, rest) \<Rightarrow> (case scan_ints n rest of (vs, rest1) \<Rightarrow> (v # vs, rest1)))"

record wb_totals =
  t_speed :: int
  t_failed :: int
  t_bytes :: int
  t_i :: int
  t_j :: int
  t_k :: int
  t_died :: bool

definition store_scanned :: "int list \<Rightarrow> wb_totals \<Rightarrow> wb_totals" where
  "store_scanned vs t =
     t\<lparr>t_i := (if 0 < length vs then vs ! 0 else t_i t), t_j := (if 1 < length vs then vs ! 1 else t_j t),
       t_k := (if 2 < length vs then vs ! 2 else t_k t)\<rparr>"

definition add_scanned :: "wb_totals \<Rightarrow> wb_totals res" where
  "add_scanned t =
     rbind (int_add (t_speed t) (t_i t)) (\<lambda>a.
     rbind (int_add (t_failed t) (t_j t)) (\<lambda>b.
     rbind (int_add (t_bytes t) (t_k t)) (\<lambda>c.
       Inr (t\<lparr>t_speed := a, t_failed := b, t_bytes := c\<rparr>))))"

text \<open>The loop of the parent, for a positive number of clients.\<close>

fun collect :: "nat \<Rightarrow> wb_totals \<Rightarrow> string \<Rightarrow> wb_totals res" where
  "collect 0 t text = Inr t"
| "collect (Suc n) t text =
     (case scan_ints 3 text of
        (vs, rest) \<Rightarrow>
          let t1 = store_scanned vs t
          in if length vs < 2 then Inr (t1\<lparr>t_died := True\<rparr>)
             else rbind (add_scanned t1) (\<lambda>t2. if n = 0 then Inr t2 else collect n t2 rest))"

definition no_totals :: wb_totals where
  "no_totals = \<lparr>t_speed = 0, t_failed = 0, t_bytes = 0, t_i = 0, t_j = 0, t_k = 0, t_died = False\<rparr>"

text \<open>The two rates printed, the quotients cut off (and computed exactly, where the program uses \<open>float\<close>); the value
  returned is that of the variable \<open>i\<close>.\<close>

definition wb_report :: "wb_globals \<Rightarrow> wb_totals \<Rightarrow> (int \<times> int \<times> int \<times> int \<times> int) res" where
  "wb_report g t =
     rbind (int_add (t_speed t) (t_failed t)) (\<lambda>pages.
       Inr (double_to_ll (of_int pages / (of_int (benchtime g) / 60)), double_to_ll (of_int (t_bytes t) / of_int (benchtime g)),
            t_speed t, t_failed t, t_i t))"

text \<open>The part of the parent; the left result is an exit status.\<close>

definition bench_parent :: "bool \<Rightarrow> wb_globals \<Rightarrow> string \<Rightarrow> (nat + int \<times> int \<times> int \<times> int \<times> int) res" where
  "bench_parent opened g text =
     (if \<not> opened then Inr (Inl 3)
      else rbind (collect (nat (clients g)) no_totals text) (\<lambda>t. rbind (wb_report g t) (\<lambda>r. Inr (Inr r))))"

section \<open>A client without keep-alive\<close>

text \<open>Between two tries every try is counted once, as a success or as a failure, and no socket is open but those
  whose \<open>connect\<close> failed; during a try the socket of the try is open too.\<close>

definition trying :: "int \<Rightarrow> int \<Rightarrow> bench_state \<Rightarrow> bool" where
  "trying s counted st \<longleftrightarrow> s \<notin> leaked st \<and> bs_fds st = insert s (leaked st) \<and> speed st + wb_failed st + 1 = tries st + counted"

definition pc_inv :: "bench_state \<Rightarrow> bool" where
  "pc_inv st \<longleftrightarrow> (case bs_pc st of
     CallSocket \<Rightarrow> \<not> timerexpired st \<and> bs_fds st = leaked st \<and> speed st + wb_failed st = tries st
   | CallWrite s \<Rightarrow> trying s 0 st
   | CallShutdown s \<Rightarrow> trying s 0 st
   | CallRead s \<Rightarrow> trying s 0 st
   | CallClose s k \<Rightarrow> (k = Done \<and> trying s 0 st) \<or> (k = NextTry \<and> trying s 1 st)
   | Returned \<Rightarrow> timerexpired st \<and> bs_fds st = leaked st
       \<and> (if speed st = tries st then wb_failed st = 0 else speed st + wb_failed st + 1 = tries st)
   | CallSpin \<Rightarrow> False)"

definition bench_inv :: "bench_state \<Rightarrow> bool" where
  "bench_inv st \<longleftrightarrow> 0 \<le> speed st \<and> 0 \<le> wb_failed st \<and> 0 \<le> wb_bytes st \<and> pc_inv st"

named_theorems bench_defs

lemmas [bench_defs] = bench_inv_def pc_inv_def trying_def deliver_def count_failed_def count_speed_def count_bytes_def int_add_def
  fail_and_close_def after_send_def

lemma loop_top_inv:
  assumes "0 \<le> speed st" "0 \<le> wb_failed st" "0 \<le> wb_bytes st" "bs_fds st = leaked st" "speed st + wb_failed st = tries st"
  shows "bench_inv (loop_top CallSocket st)"
  using assms by (auto simp: loop_top_def bench_defs)

lemma got_socket_inv:
  assumes "bench_inv st" "\<not> keep_alive g" "sock \<notin> bs_fds st" "socket_answer resolved sock conn (deliver alarm st) = (s, st1)"
    and "got_socket s st1 = Some (Inr st')"
  shows "bench_inv st'"
proof -
  have pc: "bs_pc st1 = bs_pc st" "speed st1 = speed st" "wb_failed st1 = wb_failed st" "tries st1 = tries st"
    "wb_bytes st1 = wb_bytes st"
    using assms(4) by (auto simp: socket_answer_def wb_Socket_def deliver_def split: if_splits)
  have c: "bs_pc st = CallSocket"
    using assms(1,5) pc by (auto simp: got_socket_def bench_inv_def pc_inv_def split: bench_pc.splits)
  then have st: "bs_fds st = leaked st" "speed st + wb_failed st = tries st" "0 \<le> speed st" "0 \<le> wb_failed st" "0 \<le> wb_bytes st"
    using assms(1) by (auto simp: bench_inv_def pc_inv_def)
  have sk: "if s < 0 then bs_fds st1 = leaked st1 else s = sock \<and> leaked st1 = leaked st \<and> bs_fds st1 = insert s (leaked st)"
  proof -
    define w where "w = wb_Socket resolved sock conn (bs_fds st)"
    have w: "s = fst w" "bs_fds st1 = snd w" "leaked st1 = leaked st \<union> (snd w - bs_fds st - {fst w})"
      using assms(4) by (auto simp: socket_answer_def deliver_def w_def split: prod.splits)
    consider "w = (- 1, bs_fds st)" | "sock < 0" "w = (sock, bs_fds st)" | "0 \<le> sock" "w = (- 1, insert sock (bs_fds st))"
      | "0 \<le> sock" "w = (sock, insert sock (bs_fds st))"
      by (cases "resolved"; cases "sock < 0"; cases "conn < 0") (simp_all add: w_def wb_Socket_def)
    then show ?thesis
      by cases (use w st(1) assms(3) in auto)
  qed
  show ?thesis
  proof (cases "s < 0")
    case True
    let ?st = "st1\<lparr>tries := tries st1 + 1, wb_failed := wb_failed st1 + 1\<rparr>"
    have "st' = loop_top CallSocket ?st"
      using True assms(5) c pc by (auto simp: got_socket_def count_failed_def int_add_def Let_def split: if_splits)
    then show ?thesis using loop_top_inv [of ?st] True sk st pc by simp
  next
    case False
    then show ?thesis using assms(3,5) c pc sk st by (auto simp: got_socket_def bench_defs Let_def)
  qed
qed

lemma after_closing_inv:
  assumes "0 \<le> speed st" "0 \<le> wb_failed st" "0 \<le> wb_bytes st" "bs_fds st = leaked st"
    and "k = Done \<and> speed st + wb_failed st + 1 = tries st \<or> k = NextTry \<and> speed st + wb_failed st = tries st"
    and "after_closing s k r st = Inr st'"
  shows "bench_inv st'"
  using assms by (cases k) (auto simp: count_failed_def count_speed_def int_add_def split: if_splits intro!: loop_top_inv)

lemma got_answer_inv:
  assumes "bench_inv st" "\<not> keep_alive g" "got_answer g rlen r st = Some (Inr st')"
  shows "bench_inv st'"
proof (cases "bs_pc st")
  case (CallClose s k)
  let ?st = "st\<lparr>bs_fds := bs_fds st - {s}\<rparr>"
  have "after_closing s k r ?st = Inr st'" using assms(3) CallClose by (simp add: got_answer_def)
  moreover have "bs_fds ?st = leaked ?st" "0 \<le> speed ?st" "0 \<le> wb_failed ?st" "0 \<le> wb_bytes ?st"
    "k = Done \<and> speed ?st + wb_failed ?st + 1 = tries ?st \<or> k = NextTry \<and> speed ?st + wb_failed ?st = tries ?st"
    using assms(1) CallClose by (auto simp: bench_inv_def pc_inv_def trying_def)
  ultimately show ?thesis using after_closing_inv by blast
next
  case (CallRead s)
  then show ?thesis using assms by (auto simp: got_answer_def after_read_def bench_defs split: if_splits)
next
  case (CallWrite s)
  then show ?thesis using assms by (auto simp: got_answer_def after_write_def bench_defs split: if_splits)
next
  case (CallShutdown s)
  then show ?thesis using assms by (auto simp: got_answer_def bench_defs split: if_splits)
qed (use assms in \<open>simp_all add: got_answer_def\<close>)

lemma deliver_inv: "bench_inv st \<Longrightarrow> bs_pc st \<noteq> CallSocket \<Longrightarrow> bench_inv (deliver alarm st)"
  by (auto simp: bench_defs split: bench_pc.splits)

lemma bench_step_inv:
  assumes "bench_inv st" "\<not> keep_alive g" "bench_step g rlen st a = Some (Inr st')"
  shows "bench_inv st'"
proof -
  obtain x alarm where a: "a = (x, alarm)" by (cases a)
  show ?thesis
  proof (cases x)
    case (AnsSocket resolved sock conn)
    then show ?thesis using assms a got_socket_inv [OF assms(1,2)] by (auto split: if_splits prod.splits)
  next
    case (AnsCall r)
    then have "got_answer g rlen r (deliver alarm st) = Some (Inr st')" using assms(3) a by simp
    moreover have "bs_pc st \<noteq> CallSocket" using calculation by (auto simp: got_answer_def deliver_def)
    ultimately show ?thesis using got_answer_inv [OF deliver_inv [OF assms(1)] assms(2)] by blast
  qed
qed

lemma bench_run_inv:
  "bench_run g rlen st as = Some (Inr st') \<Longrightarrow> bench_inv st \<Longrightarrow> \<not> keep_alive g \<Longrightarrow> bench_inv st'"
proof (induction as arbitrary: st)
  case (Cons a as)
  then show ?case using bench_step_inv by (auto split: option.splits sum.splits)
qed simp

text \<open>Once the alarm has gone off, every answer brings the client nearer to its end.\<close>

fun pc_rank :: "bench_pc \<Rightarrow> nat" where
  "pc_rank Returned = 0" | "pc_rank (CallClose s k) = 1" | "pc_rank (CallRead s) = 2" | "pc_rank (CallShutdown s) = 2"
| "pc_rank (CallWrite s) = 3" | "pc_rank CallSocket = 4" | "pc_rank CallSpin = 5"

lemma expired_socket_rank:
  assumes "timerexpired st" "bs_pc st = CallSocket" "got_socket s st = Some (Inr st')"
  shows "timerexpired st' \<and> pc_rank (bs_pc st') < 4"
  using assms by (cases "s < 0") (auto simp: got_socket_def count_failed_def int_add_def loop_top_def Let_def split: if_splits)

lemma expired_answer_rank:
  assumes "timerexpired st" "\<not> keep_alive g" "pc_inv st" "got_answer g rlen r st = Some (Inr st')"
  shows "timerexpired st' \<and> pc_rank (bs_pc st') < pc_rank (bs_pc st)"
proof (cases "bs_pc st")
  case (CallClose s k)
  then have "k = Done \<or> k = NextTry" using assms(3) by (auto simp: pc_inv_def)
  then show ?thesis using CallClose assms(1,4) by (auto simp: got_answer_def loop_top_def count_failed_def count_speed_def int_add_def split: if_splits)
next
  case (CallWrite s)
  then show ?thesis
    using assms(1,2,4) by (auto simp: got_answer_def after_write_def after_send_def fail_and_close_def count_failed_def int_add_def split: if_splits)
next
  case (CallShutdown s)
  then show ?thesis
    using assms(1,4) by (auto simp: got_answer_def after_send_def fail_and_close_def count_failed_def int_add_def split: if_splits)
next
  case (CallRead s)
  then show ?thesis
    using assms(1,2,4)
    by (auto simp: got_answer_def after_read_def after_send_def fail_and_close_def count_failed_def count_bytes_def int_add_def split: if_splits)
qed (use assms in \<open>simp_all add: got_answer_def\<close>)

lemma expired_step_rank:
  assumes "bench_inv st" "timerexpired st" "\<not> keep_alive g" "bench_step g rlen st a = Some (Inr st')"
  shows "timerexpired st' \<and> pc_rank (bs_pc st') < pc_rank (bs_pc st)"
proof -
  obtain x alarm where a: "a = (x, alarm)" by (cases a)
  have "pc_inv st" "bs_pc st \<noteq> CallSocket" using assms(1,2) by (auto simp: bench_inv_def pc_inv_def)
  then have d: "pc_inv (deliver alarm st)" "timerexpired (deliver alarm st)" "bs_pc (deliver alarm st) = bs_pc st"
    using deliver_inv [OF assms(1)] assms(2) by (auto simp: bench_inv_def deliver_def)
  show ?thesis
  proof (cases x)
    case (AnsSocket resolved sock conn)
    obtain s st1 where s: "socket_answer resolved sock conn (deliver alarm st) = (s, st1)" by fastforce
    then have "bs_pc st1 = bs_pc st" using d(3) by (auto simp: socket_answer_def split: prod.splits)
    moreover have "got_socket s st1 = Some (Inr st')" using assms(4) a AnsSocket s by (auto split: if_splits)
    ultimately have "bs_pc st = CallSpin" using \<open>bs_pc st \<noteq> CallSocket\<close> by (auto simp: got_socket_def split: bench_pc.splits)
    then show ?thesis using \<open>pc_inv st\<close> by (simp add: pc_inv_def)
  next
    case (AnsCall r)
    then show ?thesis using expired_answer_rank [OF d(2) assms(3) d(1)] assms(4) a d(3) by auto
  qed
qed

lemma expired_run_rank:
  assumes "bench_inv st" "timerexpired st" "\<not> keep_alive g" "bench_run g rlen st as = Some (Inr st')"
  shows "timerexpired st' \<and> length as + pc_rank (bs_pc st') \<le> pc_rank (bs_pc st)"
  using assms
proof (induction as arbitrary: st)
  case (Cons a as)
  then obtain st1 where st1: "bench_step g rlen st a = Some (Inr st1)" "bench_run g rlen st1 as = Some (Inr st')"
    by (auto split: option.splits sum.splits)
  then show ?case
    using Cons.IH [OF bench_step_inv [OF Cons.prems(1,3) st1(1)] _ Cons.prems(3) st1(2)] expired_step_rank [OF Cons.prems(1-3) st1(1)]
    by auto
qed simp

lemma start_inv: "benchcore_start g 0 = Inr st \<Longrightarrow> \<not> keep_alive g \<Longrightarrow> bench_inv st"
  by (auto simp: benchcore_start_def bench_defs)

text \<open>A client that has not returned waits for an answer it can take.\<close>

lemma not_stuck:
  assumes "bench_inv st" "timerexpired st" "bs_pc st \<noteq> Returned"
  shows "bench_step g rlen st (AnsCall r, alarm) \<noteq> None"
  using assms by (auto simp: bench_inv_def pc_inv_def got_answer_def deliver_def split: bench_pc.splits)

text \<open>A sample run: a page is fetched, and the next connection is refused when the alarm goes off.\<close>

definition sample_answers :: "(sys_answer \<times> bool) list" where
  "sample_answers = [(AnsSocket True 3 0, False), (AnsCall 10, False), (AnsCall 0, False), (AnsCall 0, False), (AnsSocket True 4 (- 1), True)]"

definition sample_end :: bench_state where
  "sample_end = \<lparr>timerexpired = True, speed = 1, wb_failed = 0, wb_bytes = 0, bs_pc = Returned, bs_fds = {4}, tries = 2, leaked = {4}\<rparr>"

definition sample_start :: bench_state where
  "sample_start = \<lparr>timerexpired = False, speed = 0, wb_failed = 0, wb_bytes = 0, bs_pc = CallSocket, bs_fds = {}, tries = 0, leaked = {}\<rparr>"

lemma sample_run:
  "benchcore_start wb_defaults 0 = Inr sample_start" "\<not> keep_alive wb_defaults"
  "bench_run wb_defaults 10 sample_start sample_answers = Some (Inr sample_end)"
  by (simp_all add: sample_start_def sample_end_def sample_answers_def benchcore_start_def wb_defaults_def socket_answer_def wb_Socket_def
      deliver_def got_socket_def got_answer_def after_write_def after_send_def after_read_def count_speed_def count_failed_def int_add_def
      loop_top_def Let_def)

text \<open>C27: A client without keep-alive accounts for every connection it asks for. Whatever the system answers, and
  whenever the alarm goes off: a client that has returned has been told to by the alarm, has closed every socket it
  could write to, so that only the sockets whose \<open>connect\<close> failed are still open, and reports as many successes and
  failures as there were connections, less one failure if there was any at all, which is taken back for the one the
  alarm may have caused.\<close>

theorem benchcore_accounts:
  assumes "benchcore_start g 0 = Inr st" "\<not> keep_alive g"
    and "bench_run g rlen st as = Some (Inr st')" "bs_pc st' = Returned"
  shows "timerexpired st' \<and> bs_fds st' = leaked st' \<and> 0 \<le> wb_failed st' \<and> 0 \<le> speed st' \<and> speed st' \<le> tries st'
    \<and> speed st' + wb_failed st' = (if speed st' = tries st' then tries st' else tries st' - 1)"
proof -
  have "bench_inv st'" using bench_run_inv [OF assms(3) start_inv [OF assms(1,2)] assms(2)] .
  then show ?thesis using assms(4) by (auto simp: bench_inv_def pc_inv_def split: if_splits)
qed

theorem benchcore_accounts_witness:
  "\<exists>st st'. benchcore_start wb_defaults 0 = Inr st \<and> bench_run wb_defaults 10 st sample_answers = Some (Inr st')
     \<and> bs_fds st' = leaked st' \<and> speed st' = 1 \<and> tries st' = 2 \<and> speed st' + wb_failed st' = 1"
  using benchcore_accounts [OF sample_run(1,2,3)] sample_run(1,3) by (auto simp: sample_end_def)

text \<open>The loop from the state where the alarm has gone off, for any answers of the calls.\<close>

lemma expired_ends:
  assumes "bench_inv st" "timerexpired st" "\<not> keep_alive g" "pc_rank (bs_pc st) \<le> length as" "\<forall>a \<in> set as. \<exists>r alarm. a = (AnsCall r, alarm)"
  shows "\<exists>n \<le> length as. \<exists>res. bench_run g rlen st (take n as) = Some res \<and> (\<forall>st'. res = Inr st' \<longrightarrow> bs_pc st' = Returned)"
  using assms
proof (induction as arbitrary: st)
  case Nil
  then show ?case by (cases "bs_pc st") auto
next
  case (Cons a as)
  show ?case
  proof (cases "bs_pc st = Returned")
    case True
    then show ?thesis by (intro exI [of _ 0]) simp
  next
    case False
    obtain r alarm where a: "a = (AnsCall r, alarm)" using Cons.prems(5) by auto
    obtain res where res: "bench_step g rlen st a = Some res"
      using not_stuck [OF Cons.prems(1,2) False, of g rlen r alarm] a by auto
    show ?thesis
    proof (cases res)
      case (Inl e)
      then show ?thesis using res by (intro exI [of _ 1]) auto
    next
      case (Inr st1)
      have "pc_rank (bs_pc st1) \<le> length as" "timerexpired st1" "bench_inv st1"
        using expired_step_rank [OF Cons.prems(1-3)] bench_step_inv [OF Cons.prems(1,3)] res Inr Cons.prems(4) by fastforce+
      then obtain n res1 where "n \<le> length as" "bench_run g rlen st1 (take n as) = Some res1"
        "\<forall>st'. res1 = Inr st' \<longrightarrow> bs_pc st' = Returned"
        using Cons.IH [of st1] Cons.prems(3,5) by auto
      then show ?thesis using res Inr by (intro exI [of _ "Suc n"]) auto
    qed
  qed
qed

lemma expired_rank: "bench_inv st \<Longrightarrow> timerexpired st \<Longrightarrow> pc_rank (bs_pc st) \<le> 3"
  by (auto simp: bench_inv_def pc_inv_def split: bench_pc.splits)

text \<open>C28: A client without keep-alive stops when its time is over. From any state it can reach, once the alarm has gone off,
  three more answers of the system, whatever they are, are enough for it to return, unless a counter of type \<open>int\<close> passes
  its bound; and it makes no more than three calls.\<close>

theorem benchcore_stops:
  assumes "benchcore_start g 0 = Inr st" "\<not> keep_alive g" "bench_run g rlen st as = Some (Inr st1)" "timerexpired st1"
  shows "(\<exists>n \<le> 3. \<exists>res. bench_run g rlen st1 (take n [(AnsCall r1, b1), (AnsCall r2, b2), (AnsCall r3, b3)]) = Some res
          \<and> (\<forall>st'. res = Inr st' \<longrightarrow> bs_pc st' = Returned))
      \<and> (\<forall>bs st2. bench_run g rlen st1 bs = Some (Inr st2) \<longrightarrow> length bs \<le> 3)"
proof -
  have inv: "bench_inv st1" using bench_run_inv [OF assms(3) start_inv [OF assms(1,2)] assms(2)] .
  then have "length bs \<le> 3" if "bench_run g rlen st1 bs = Some (Inr st2)" for bs st2
    using expired_run_rank [OF inv assms(4,2) that] expired_rank [OF inv assms(4)] by simp
  then show ?thesis
    using expired_ends [OF inv assms(4,2), of "[(AnsCall r1, b1), (AnsCall r2, b2), (AnsCall r3, b3)]"] expired_rank [OF inv assms(4)]
    by (simp add: numeral_3_eq_3)
qed

theorem benchcore_stops_witness:
  "\<exists>st1. bench_run wb_defaults 10 sample_start [(AnsSocket True 3 0, True)] = Some (Inr st1) \<and> timerexpired st1
     \<and> bs_pc st1 = CallWrite 3 \<and> (\<forall>bs st2. bench_run wb_defaults 10 st1 bs = Some (Inr st2) \<longrightarrow> length bs \<le> 3)"
proof -
  have r: "bench_run wb_defaults 10 sample_start [(AnsSocket True 3 0, True)] = Some (Inr (sample_start
      \<lparr>timerexpired := True, bs_pc := CallWrite 3, bs_fds := {3}, tries := 1\<rparr>))" (is "_ = Some (Inr ?st1)")
    by (simp add: sample_start_def socket_answer_def wb_Socket_def deliver_def got_socket_def Let_def)
  show ?thesis using r benchcore_stops [OF sample_run(1,2) r] by (intro exI [of _ ?st1]) simp
qed

section \<open>A client with keep-alive\<close>

definition refused :: "sys_answer \<Rightarrow> bool" where
  "refused a \<longleftrightarrow> (case a of AnsSocket resolved sock conn \<Rightarrow> \<not> resolved \<or> sock = - 1 \<or> conn < 0 | AnsCall r \<Rightarrow> False)"

lemma spin_step:
  assumes "bs_pc st = CallSpin" "refused x" "bench_step g rlen st (x, alarm) = Some res"
  shows "\<exists>st'. res = Inr st' \<and> bs_pc st' = CallSpin \<and> speed st' = speed st \<and> wb_failed st' = wb_failed st
    \<and> (timerexpired st' \<longleftrightarrow> timerexpired st \<or> alarm)"
proof (cases x)
  case (AnsSocket resolved sock conn)
  have "fst (wb_Socket resolved sock conn (bs_fds (deliver alarm st))) = - 1"
    using assms(2,3) AnsSocket by (auto simp: refused_def wb_Socket_def split: if_splits)
  then show ?thesis
    using assms(1,3) AnsSocket by (auto simp: socket_answer_def got_socket_def deliver_def split: if_splits prod.splits)
qed (use assms in \<open>simp add: refused_def\<close>)

lemma spin_run:
  assumes "bs_pc st = CallSpin" "\<forall>a \<in> set as. refused (fst a)" "bench_run g rlen st as = Some res"
  shows "\<exists>st'. res = Inr st' \<and> bs_pc st' = CallSpin \<and> speed st' = speed st \<and> wb_failed st' = wb_failed st
    \<and> (timerexpired st' \<longleftrightarrow> timerexpired st \<or> (\<exists>a \<in> set as. snd a))"
  using assms
proof (induction as arbitrary: st)
  case (Cons a as)
  obtain x alarm where a: "a = (x, alarm)" by (cases a)
  then obtain res1 where "bench_step g rlen st (x, alarm) = Some res1"
    using Cons.prems(3) by (auto split: option.splits)
  then obtain st1 where st1: "bench_step g rlen st a = Some (Inr st1)" "bs_pc st1 = CallSpin" "speed st1 = speed st"
      "wb_failed st1 = wb_failed st" "timerexpired st1 \<longleftrightarrow> timerexpired st \<or> alarm"
    using spin_step [OF Cons.prems(1)] Cons.prems(2) a by fastforce
  then show ?case using Cons.IH [OF st1(2)] Cons.prems(2,3) a by auto
qed auto

lemma spin_for_ever:
  "bs_pc st = CallSpin \<Longrightarrow> bs_fds st = {} \<Longrightarrow> \<exists>st'. bench_run g rlen st (replicate n (AnsSocket False (- 1) 0, True)) = Some (Inr st')"
proof (induction n arbitrary: st)
  case (Suc n)
  have "bench_step g rlen st (AnsSocket False (- 1) 0, True) = Some (Inr (deliver True st))"
    using Suc.prems by (simp add: socket_answer_def wb_Socket_def got_socket_def deliver_def)
  then show ?case using Suc by (simp add: deliver_def)
qed simp

text \<open>C39: A client with keep-alive that is refused a connection does not notice the alarm. As long as no connection is
  made it asks for one again, whether the time is over or not, it has counted no failure and reports nothing; and there are
  such runs of any length, all of them after the alarm.\<close>

theorem keepalive_spins:
  assumes "benchcore_start g 0 = Inr st" "keep_alive g"
  shows "(\<forall>as res. bench_run g rlen st as = Some res \<and> (\<forall>a \<in> set as. refused (fst a)) \<longrightarrow>
            (\<exists>st'. res = Inr st' \<and> bs_pc st' = CallSpin \<and> speed st' = 0 \<and> wb_failed st' = 0
               \<and> (timerexpired st' \<longleftrightarrow> (\<exists>a \<in> set as. snd a))))
       \<and> (\<forall>n. \<exists>st'. bench_run g rlen st (replicate n (AnsSocket False (- 1) 0, True)) = Some (Inr st'))"
proof -
  have st: "bs_pc st = CallSpin" "bs_fds st = {}" "speed st = 0" "wb_failed st = 0" "\<not> timerexpired st"
    using assms by (auto simp: benchcore_start_def)
  show ?thesis using spin_run [OF st(1)] spin_for_ever [OF st(1,2)] st by auto
qed

theorem keepalive_spins_witness:
  "\<exists>st. benchcore_start (wb_defaults\<lparr>keep_alive := True\<rparr>) 0 = Inr st
     \<and> (\<exists>st'. bench_run (wb_defaults\<lparr>keep_alive := True\<rparr>) 10 st (replicate 1000 (AnsSocket False (- 1) 0, True)) = Some (Inr st')
          \<and> bs_pc st' = CallSpin \<and> timerexpired st')"
proof -
  let ?g = "wb_defaults\<lparr>keep_alive := True\<rparr>"
  obtain st where st: "benchcore_start ?g 0 = Inr st" by (simp add: benchcore_start_def)
  let ?as = "replicate 1000 (AnsSocket False (- 1) 0, True)"
  have spins: "\<And>as res. bench_run ?g 10 st as = Some res \<Longrightarrow> \<forall>a \<in> set as. refused (fst a) \<Longrightarrow>
      \<exists>st'. res = Inr st' \<and> bs_pc st' = CallSpin \<and> (timerexpired st' \<longleftrightarrow> (\<exists>a \<in> set as. snd a))"
    and runs: "\<exists>st'. bench_run ?g 10 st ?as = Some (Inr st')"
    using keepalive_spins [OF st, of 10] by fastforce+
  then obtain st' where st': "bench_run ?g 10 st ?as = Some (Inr st')" by blast
  have "\<forall>a \<in> set ?as. refused (fst a)" "\<exists>a \<in> set ?as. snd a" by (simp_all add: refused_def)
  then show ?thesis using spins [OF st'] st st' by blast
qed

section \<open>The results\<close>

lemma scan_int_dec:
  assumes "list_all is_space ws" "\<not> is_digit c"
  shows "scan_int (ws @ dec_int n @ c # rest) = Some (n, c # rest)"
proof -
  have dig: "\<not> is_space d \<and> d \<noteq> CHR ''-'' \<and> d \<noteq> CHR ''+''" if "is_digit d" for d
    using that by (auto simp: is_digit_def is_space_def digit_val_def)
  have ds: "list_all is_digit (dec_nat k)" for k
    using dec_nat_digits [of k] by (auto simp: list_all_iff is_digit_def)
  have ne: "dec_nat k \<noteq> []" for k by (subst dec_nat.simps) simp
  have h: "is_digit (hd (dec_nat k))" for k using ds [of k] ne [of k] by (cases "dec_nat k") auto
  have split: "takeWhile is_digit (dec_nat k @ c # rest) = dec_nat k" "dropWhile is_digit (dec_nat k @ c # rest) = c # rest" for k
    using ds [of k] assms(2) by (auto simp: list_all_iff takeWhile_append2 dropWhile_append2)
  have ws: "dropWhile is_space (ws @ y # ys) = y # ys" if "\<not> is_space y" for y ys
    using assms(1) that by (auto simp: list_all_iff dropWhile_append2)
  have pos: "scan_int (ws @ dec_nat k @ c # rest) = Some (int k, c # rest)"
    and neg: "scan_int (ws @ CHR ''-'' # dec_nat k @ c # rest) = Some (- int k, c # rest)" for k
  proof -
    obtain d ds where d: "dec_nat k = d # ds" using ne [of k] by (cases "dec_nat k") auto
    then have "\<not> is_space d" "d \<noteq> CHR ''-''" "d \<noteq> CHR ''+''" using dig [OF h [of k]] by auto
    moreover have "dropWhile is_space (ws @ dec_nat k @ c # rest) = dec_nat k @ c # rest"
      using ws [of d] calculation(1) d by simp
    ultimately show "scan_int (ws @ dec_nat k @ c # rest) = Some (int k, c # rest)"
      using split [of k] d read_digits_dec_nat [of k] unfolding scan_int_def Let_def by simp
    have "dropWhile is_space (ws @ CHR ''-'' # dec_nat k @ c # rest) = CHR ''-'' # dec_nat k @ c # rest"
      by (rule ws) (simp add: is_space_def)
    then show "scan_int (ws @ CHR ''-'' # dec_nat k @ c # rest) = Some (- int k, c # rest)"
      using split [of k] ne [of k] read_digits_dec_nat [of k] unfolding scan_int_def Let_def by simp
  qed
  show ?thesis using pos [of "nat n"] neg [of "nat (- n)"] by (simp add: dec_int_def)
qed

lemma scan_line:
  assumes "list_all is_space ws"
  shows "scan_ints 3 (ws @ child_line st @ rest) = ([speed st, wb_failed st, wb_bytes st], LF # rest)"
proof -
  have nd: "\<not> is_digit (CHR '' '')" "\<not> is_digit LF" by (simp_all add: is_digit_def digit_val_def)
  have sp: "list_all is_space '' ''" by (simp add: is_space_def)
  show ?thesis
    using scan_int_dec [OF assms nd(1), of "speed st"] scan_int_dec [OF sp nd(1), of "wb_failed st"]
      scan_int_dec [OF sp nd(2), of "wb_bytes st"]
    by (simp add: numeral_3_eq_3 child_line_def)
qed

lemma add_scanned_in_range:
  assumes "0 \<le> t_speed t" "0 \<le> t_failed t" "0 \<le> t_bytes t" "0 \<le> t_i t" "0 \<le> t_j t" "0 \<le> t_k t"
    and "t_speed t + t_i t < 2 ^ 31" "t_failed t + t_j t < 2 ^ 31" "t_bytes t + t_k t < 2 ^ 31"
  shows "add_scanned t = Inr (t\<lparr>t_speed := t_speed t + t_i t, t_failed := t_failed t + t_j t, t_bytes := t_bytes t + t_k t\<rparr>)"
  using assms by (simp add: add_scanned_def int_add_def)

definition reported :: "bench_state \<Rightarrow> bool" where
  "reported st \<longleftrightarrow> 0 \<le> speed st \<and> 0 \<le> wb_failed st \<and> 0 \<le> wb_bytes st"

lemma reported_sums:
  assumes "\<forall>c \<in> set cs. reported c"
  shows "0 \<le> sum_list (map speed cs)" "0 \<le> sum_list (map wb_failed cs)" "0 \<le> sum_list (map wb_bytes cs)"
  using assms by (auto simp: reported_def intro!: sum_list_nonneg)

lemma collect_lines:
  assumes "cs \<noteq> []" "\<forall>c \<in> set cs. reported c" "list_all is_space ws"
    and "0 \<le> t_speed t" "0 \<le> t_failed t" "0 \<le> t_bytes t"
    and "t_speed t + sum_list (map speed cs) < 2 ^ 31" "t_failed t + sum_list (map wb_failed cs) < 2 ^ 31"
    and "t_bytes t + sum_list (map wb_bytes cs) < 2 ^ 31"
  shows "collect (length cs) t (ws @ concat (map child_line cs)) =
    Inr (t\<lparr>t_speed := t_speed t + sum_list (map speed cs), t_failed := t_failed t + sum_list (map wb_failed cs),
           t_bytes := t_bytes t + sum_list (map wb_bytes cs),
           t_i := speed (last cs), t_j := wb_failed (last cs), t_k := wb_bytes (last cs)\<rparr>)"
  using assms
proof (induction cs arbitrary: t ws)
  case (Cons c cs)
  let ?t1 = "store_scanned [speed c, wb_failed c, wb_bytes c] t"
  let ?t2 = "?t1\<lparr>t_speed := t_speed t + speed c, t_failed := t_failed t + wb_failed c, t_bytes := t_bytes t + wb_bytes c\<rparr>"
  have pos: "0 \<le> sum_list (map speed cs)" "0 \<le> sum_list (map wb_failed cs)" "0 \<le> sum_list (map wb_bytes cs)"
    "0 \<le> speed c" "0 \<le> wb_failed c" "0 \<le> wb_bytes c"
    using reported_sums [of cs] Cons.prems(2) by (auto simp: reported_def)
  have add: "add_scanned ?t1 = Inr ?t2"
    using add_scanned_in_range [of ?t1] pos Cons.prems by (simp add: store_scanned_def)
  have scan: "scan_ints 3 (ws @ concat (map child_line (c # cs))) = ([speed c, wb_failed c, wb_bytes c], LF # concat (map child_line cs))"
    using scan_line [OF Cons.prems(3), of c] by simp
  show ?case
  proof (cases "cs = []")
    case True
    then show ?thesis using scan add by (simp add: store_scanned_def)
  next
    case False
    have "collect (length cs) ?t2 ([LF] @ concat (map child_line cs)) =
      Inr (?t2\<lparr>t_speed := t_speed ?t2 + sum_list (map speed cs), t_failed := t_failed ?t2 + sum_list (map wb_failed cs),
           t_bytes := t_bytes ?t2 + sum_list (map wb_bytes cs),
           t_i := speed (last cs), t_j := wb_failed (last cs), t_k := wb_bytes (last cs)\<rparr>)"
      by (rule Cons.IH) (use False Cons.prems pos in \<open>auto simp: store_scanned_def is_space_def\<close>)
    then show ?thesis using False scan add by (simp add: store_scanned_def add.assoc)
  qed
qed simp

text \<open>The lines of the clients, one after the other, give the parent their sums.\<close>

lemma totals_collected:
  assumes "cs \<noteq> []" "\<forall>c \<in> set cs. reported c"
    and "sum_list (map speed cs) < 2 ^ 31" "sum_list (map wb_failed cs) < 2 ^ 31" "sum_list (map wb_bytes cs) < 2 ^ 31"
  shows "\<exists>t. collect (length cs) no_totals (concat (map child_line cs)) = Inr t \<and> \<not> t_died t
    \<and> t_speed t = sum_list (map speed cs) \<and> t_failed t = sum_list (map wb_failed cs) \<and> t_bytes t = sum_list (map wb_bytes cs)
    \<and> t_i t = speed (last cs)"
  using collect_lines [OF assms(1,2), of "[]" no_totals] assms by (simp add: no_totals_def)

text \<open>A negative number of clients starts none: the process itself runs as a client, and nobody reads its result.\<close>

lemma negative_clients:
  assumes "clients g < 0" "0 \<le> sock"
  shows "bench_start g sock 0 forks = Child"
  using assms by (simp add: bench_start_def)

lemma fork_loop_all: "\<forall>k < n. 0 < forks (i + k) \<Longrightarrow> 0 < n \<or> 0 < pid \<Longrightarrow> 0 < snd (fork_loop n i forks pid)"
proof (induction n arbitrary: i pid)
  case (Suc n)
  have "0 < forks i" using Suc.prems(1) by (metis add_0_right zero_less_Suc)
  moreover have "\<forall>k < n. 0 < forks (i + 1 + k)"
    using Suc.prems(1) by (metis Suc_less_eq add.assoc plus_1_eq_Suc)
  ultimately show ?case using Suc.IH [of "i + 1" "forks i"] by simp
qed simp

text \<open>A client that has come to its end without keep-alive.\<close>

definition client_ran :: "wb_globals \<Rightarrow> int \<Rightarrow> bench_state \<Rightarrow> bool" where
  "client_ran g rlen c \<longleftrightarrow>
     (\<exists>st as. benchcore_start g 0 = Inr st \<and> bench_run g rlen st as = Some (Inr c) \<and> bs_pc c = Returned)"

lemma client_ran_counts:
  assumes "client_ran g rlen c" "\<not> keep_alive g"
  shows "reported c" "speed c + wb_failed c + (if speed c = tries c then 0 else 1) = tries c"
proof -
  have "bench_inv c" "bs_pc c = Returned" using assms bench_run_inv start_inv by (auto simp: client_ran_def)
  then show "reported c" "speed c + wb_failed c + (if speed c = tries c then 0 else 1) = tries c"
    by (auto simp: bench_inv_def pc_inv_def reported_def)
qed

lemma clients_ran_sums:
  assumes "\<forall>c \<in> set cs. client_ran g rlen c" "\<not> keep_alive g"
  shows "sum_list (map speed cs) + sum_list (map wb_failed cs) + int (length (filter (\<lambda>c. speed c \<noteq> tries c) cs)) = sum_list (map tries cs)"
  using assms
proof (induction cs)
  case (Cons c cs)
  then show ?case using client_ran_counts(2) [of g rlen c] by (simp split: if_splits)
qed simp



end
