(* ===== verification/Spec2Isabelle.thy ===== *)
theory Spec2Isabelle
  imports Session TcpClient ThreadPool LogChain WebBench_Core
begin

text \<open>
  A verification of the HTTP server under \<^verbatim>\<open>src/WebServer\<close>, a multi-threaded server in the reactor
  style: \<open>main\<close> starts a pool of threads with one event loop each, an acceptor hands every new
  connection to one of the loops, and the loop feeds the bytes of the connection to an HTTP
  parser and sends its replies; a log library with its own thread writes the log. The repository
  also holds a load generator for it, under \<^verbatim>\<open>src/WebBench-master\<close>, which is modelled too.

  \<^bold>\<open>How the parts interact.\<close> An \<open>EventLoop\<close> polls the descriptors of its \<open>Channel\<close>s with an
  \<open>EpollPoller\<close>, lets each active channel call its callbacks, and then runs the functors other
  threads have queued; its \<open>TimerQueue\<close> is a descriptor among the others. A \<open>TcpServer\<close> owns an
  \<open>Acceptor\<close> in the main loop and an \<open>EventLoopThreadPool\<close>; \<open>newConnection\<close> makes a \<open>TcpConnection\<close>
  for the next loop of the pool and posts \<open>connectEstablished\<close> to it. A connection reads into one
  \<open>Buffer\<close> and writes through another. The \<open>HttpServer\<close> installs \<open>onConnection\<close> and \<open>onMessage\<close>, which
  drive one \<open>HttpParser\<close> for each connection. \<open>Connector\<close> and \<open>TcpClient\<close> are the client side.
  Threads start with a \<open>CountDownLatch\<close>, built on \<open>MutexLock\<close> and \<open>Condition\<close>. A statement of
  \<open>Logging\<close> formats one line in a \<open>LogStream\<close> and hands it to \<open>AsyncLogging\<close>, whose thread appends
  it to a \<open>LogFile\<close>.

  \<^bold>\<open>Conventions.\<close> An operation returns a value of type \<open>'a res\<close>: \<open>Inl\<close> is a fault (a failing assert,
  an access outside an object, a null or dangling pointer, an exception, \<open>abort()\<close>, the overflow
  of an \<open>int\<close>), \<open>Inr\<close> the result. The flag \<open>nd\<close> selects the build: true is the one of the Makefile,
  with \<^verbatim>\<open>NDEBUG\<close>, where asserts do nothing; false is a debug build. The flag \<open>here\<close> says whether the
  caller is the thread of the loop. \<open>size_t\<close> is a natural number with its wrap-around written out
  (\<open>szadd\<close>, \<open>szsub\<close>); event masks and addresses are words; a \<open>double\<close> number of seconds is a
  rational number. Answers of system calls, the clock, the file system and indeterminate values
  of uninitialised members are arguments. Callbacks are flags, numbers or arguments; the order in
  which they are called or queued is recorded in the state.

  \<^bold>\<open>The theories\<close> (source files in brackets, under \<^verbatim>\<open>src/WebServer\<close>).

  \<^item> \<^bold>\<open>Prelude\<close>, \<^bold>\<open>Strings\<close>: results and faults, \<open>size_t\<close>, blocks of memory, byte order; C and C++
    string functions. \<^bold>\<open>StringPiece\<close> [\<^verbatim>\<open>base/StringPiece.h\<close>, \<^verbatim>\<open>base/StringArg.h\<close>]: views of strings; inside
    their block they behave like the strings they view.
  \<^item> \<^bold>\<open>Buffer\<close> [\<^verbatim>\<open>Buffer.h/.cpp\<close>]: every operation on the vector and the two indices. The invariant is
    kept, and the buffer is a first-in first-out queue of bytes (locale \<open>byte_fifo\<close>, interpreted
    on the buffer's operations) as long as the space in front is not needed to make room; the
    case in which it is needed writes outside the vector, and the theory says exactly when.
    \<open>readFd\<close> delivers all bytes of a \<open>readv\<close>.
  \<^item> \<^bold>\<open>HttpMessage\<close> [\<^verbatim>\<open>http/HttpRequest.h\<close>, \<^verbatim>\<open>http/HttpResponse.h\<close>], \<^bold>\<open>HttpParser\<close> [\<^verbatim>\<open>http/HttpParser.h/.cpp\<close>],
    \<^bold>\<open>HttpRoundtrip\<close>, \<^bold>\<open>HttpProcess\<close>, \<^bold>\<open>HttpProperties\<close>: the parser as it is, line scanning included. A
    printed request parses back to its parts; \<open>process\<close> answers a pipeline of requests with their
    replies in order; where it ends, and the input on which it runs for ever. \<open>process\<close> is a
    \<open>partial_function\<close>: not returning is the value \<open>None\<close>, and the theorems say which it is.
  \<^item> \<^bold>\<open>Timestamp\<close> [\<^verbatim>\<open>base/Timestamp.h/.cpp\<close>], \<^bold>\<open>TimerQueue\<close> [\<^verbatim>\<open>Timer.h/.cpp\<close>, \<^verbatim>\<open>TimerId.h\<close>, \<^verbatim>\<open>TimerQueue.h/.cpp\<close>]:
    timers in an explicit store of objects. No dangling entry and no leak in any reachable state
    (cancelling a waiting timer, which uses an invalid iterator, is a fault); due timers run
    once, in order; and the case in which waiting timers are never armed.
  \<^item> \<^bold>\<open>Channel\<close> [\<^verbatim>\<open>Channel.h/.cpp\<close>], \<^bold>\<open>EpollPoller\<close> [\<^verbatim>\<open>Poller.h\<close>, \<^verbatim>\<open>EpollPoller.h/.cpp\<close>]: masks, dispatch and
    registration. The kernel watches exactly what the channel asks for from the first update to
    the removal (locale \<open>poller\<close>, interpreted on the epoll operations); \<open>poll\<close> reports the channels
    the kernel reports.
  \<^item> \<^bold>\<open>EventLoop\<close> [\<^verbatim>\<open>EventLoop.h/.cpp\<close>]: the loop thread and any number of other threads as interleaved
    steps. Functors run in the order in which they were queued and none is lost; the loop never
    sleeps over a queued functor; one loop for each thread.
  \<^item> \<^bold>\<open>TcpConnection\<close> [\<^verbatim>\<open>TcpConnection.h/.cpp\<close>]: what the kernel took and what waits is what was sent, in
    every reachable state; a graceful shutdown loses nothing; every reachable connection is well
    typed and the next call on it returns; the high-water mark; and what a failing \<open>send\<close> does. \<^bold>\<open>Socket\<close> [\<^verbatim>\<open>Socket.h/.cpp\<close>], \<^bold>\<open>InetAddress\<close> [\<^verbatim>\<open>InetAddress.h/.cpp\<close>,
    \<^verbatim>\<open>SocketsOps.cpp\<close>]: descriptors and their owners, addresses as bytes and as text.
  \<^item> \<^bold>\<open>TcpServer\<close> [\<^verbatim>\<open>TcpServer.h/.cpp\<close>, \<^verbatim>\<open>Acceptor.h/.cpp\<close>, \<^verbatim>\<open>EventLoopThreadPool.h/.cpp\<close>]: the table holds
    exactly the open connections, under distinct names, dealt to the loops in turn. \<^bold>\<open>HttpServer\<close>
    [\<^verbatim>\<open>http/HttpServer.h/.cpp\<close>]: from the bytes of a message to the bytes of the replies; the timing
    wheel for idle connections, which never closes one. \<^bold>\<open>Main_Server\<close> [\<^verbatim>\<open>Main.cpp\<close>]: options and what
    they set up. \<^bold>\<open>Interleaving\<close>: clients that take turns on shared data they only extend (locale
    \<open>shared_loop\<close>). \<^bold>\<open>Session\<close>: the life of a connection from its acceptance through the events of
    its descriptor to its destruction; the connections of one loop, in any interleaving, are an
    interpretation of that locale. The theorem of this theory puts these parts together.
  \<^item> \<^bold>\<open>Connector\<close> [\<^verbatim>\<open>Connector.h/.cpp\<close>], \<^bold>\<open>TcpClient\<close> [\<^verbatim>\<open>TcpClient.h\<close>, \<^verbatim>\<open>TcpCLient.cpp\<close>]: no descriptor leaks or is
    closed twice; the retry delay; and why the client as written never connects.
  \<^item> \<^bold>\<open>Sync\<close> [\<^verbatim>\<open>base/MutexLock.h/.cpp\<close>, \<^verbatim>\<open>base/Condition.h\<close>, \<^verbatim>\<open>base/CountDownLatch.h/.cpp\<close>], \<^bold>\<open>Thread\<close>
    [\<^verbatim>\<open>base/Thread.h/.cpp\<close>, \<^verbatim>\<open>EventLoopThread.h/.cpp\<close>], \<^bold>\<open>ThreadPool\<close> [\<^verbatim>\<open>ThreadPool.h/.cpp\<close>]: interleaved threads
    with spurious wake-ups. The latch releases its waiters and nobody earlier; both handshakes
    that rest on it (locale \<open>handshake\<close>, interpreted twice) hand over what they promise; the tasks
    of a pool are taken in order and run once.
  \<^item> \<^bold>\<open>LogStream\<close> [\<^verbatim>\<open>base/LogStream.h/.cpp\<close>], \<^bold>\<open>Logging\<close> [\<^verbatim>\<open>base/Logging.h/.cpp\<close>], \<^bold>\<open>AsyncLogging\<close>
    [\<^verbatim>\<open>base/AsyncLogging.h/.cpp\<close>], \<^bold>\<open>LogFile\<close> [\<^verbatim>\<open>base/LogFile.h/.cpp\<close>, \<^verbatim>\<open>base/FileUtil.h/.cpp\<close>]: formatting never
    leaves its buffer; a statement yields its line; the lines accepted reach the file in order
    except those the code drops on purpose; rolling loses no byte. \<^bold>\<open>LogChain\<close> composes them the way
    \<open>main\<close> does: the lines of all statements reach the disk in order, but a fatal one loses its own.
  \<^item> \<^bold>\<open>WebBench\<close> [\<^verbatim>\<open>WebBench-master/webbench.c\<close>]: the options of the load generator and the request it
    builds in arrays of fixed size, with the URLs that overflow them; what it sends is what the
    server's parser answers. \<^bold>\<open>WebBench_Core\<close> [\<^verbatim>\<open>webbench.c\<close>, \<^verbatim>\<open>socket.c\<close>]: a client process as a state
    machine over the answers of its system calls, with the alarm at any of them, and the pipe to
    the parent. Without keep-alive every connection is counted, the alarm ends the client, and the
    parent's report accounts for all clients; with keep-alive a refused client never stops.

  \<^bold>\<open>Bounds and fuel.\<close> No definition takes fuel. \<open>append_loop\<close> of the log file runs over the list of
  the answers of \<open>fwrite\<close>, and its theorem gives the length that is enough. Sizes in premises say
  that a buffer fits into the address space, which is 2 to the power 63 less 1.

  \<^bold>\<open>Not modelled.\<close> \<^verbatim>\<open>base/noncopyable.h\<close>, which has no behaviour. Inside the components: accessors that
  return a member, forward declarations and type names; the help texts of \<open>main\<close> and of the load generator and the
  messages the latter prints while it runs; \<open>connect\<close>
  and the casts of socket addresses, which are passed to the kernel; logging inside the other
  components; the release of memory by destructors that do nothing else; exceptions a task of the
  pool throws. Memory is not exhausted except where a constructor says so. The
  theorem on whole sessions is about clients that send whole requests and keep the connection
  alive; the theorems of \<open>HttpProperties\<close> say what happens to the others.
\<close>

section \<open>From the command line to the bytes of the replies\<close>


text \<open>One thread and two connections in it: the first sends a request of whose reply the kernel takes 9
  bytes at once and the rest later; in between the second one comes up, sends two requests and
  goes away.\<close>

definition demo_cfg :: main_config where
  "demo_cfg = main_defaults\<lparr>mc_threadNum := 1\<rparr>"

definition demo_env :: session_env where
  "demo_env = \<lparr>se_parser = one_page, se_mark = (\<lambda>cn. 0), se_entry = (\<lambda>cn. nat (cn_fd cn)), se_request = request fresh,
     se_response = response fresh\<rparr>"

definition demo_schedule :: "(srv_conn \<times> session_event) list" where
  "demo_schedule = (let a = demo_srv_conn 1 101 9; b = demo_srv_conn 2 101 10 in
     [(a, Opened), (a, Requests [get_hello] [9]), (b, Opened), (b, Requests [get_hello, get_hello] [81, 81]), (a, Others [Fire 0]),
      (b, Gone), (a, Drained), (b, Destroyed)])"

definition hello_reply :: string where
  "hello_reply = ''HTTP/1.1 200 OK'' @ CRLF @ ''Connection: keep-alive'' @ CRLF @ ''Content-Type: text/html'' @ CRLF @ CRLF
     @ ''Hello World!'' @ [LF]"

lemma demo_events:
  "events_of cn demo_schedule = (if cn = demo_srv_conn 1 101 9 then [Opened, Requests [get_hello] [9], Others [Fire 0], Drained]
     else if cn = demo_srv_conn 2 101 10 then [Opened, Requests [get_hello, get_hello] [81, 81], Gone, Destroyed] else [])"
proof -
  have "demo_srv_conn 1 101 9 \<noteq> demo_srv_conn 2 101 10" by (simp add: demo_srv_conn_def)
  then show ?thesis by (auto simp: demo_schedule_def Let_def)
qed


end
